(* ===== verification/Prelude.thy ===== *)
theory Prelude
  imports Main "HOL-Library.Word"
begin

text \<open>
  Shared vocabulary of the development: the machine integer types of the C++ code, the ways
  a C++ operation can fail, reading a byte buffer at an offset, and the collections of rules
  the component theories add to.
\<close>

unbundle bit_operations_syntax

section \<open>Machine types and failures\<close>

type_synonym u8 = "8 word"
type_synonym u16 = "16 word"
type_synonym u32 = "32 word"
type_synonym u64 = "64 word"

type_synonym bytes = "u8 list"

text \<open>
  A C++ call either returns, throws, or performs an access the language leaves undefined.
  The last is kept as a value of its own, so that its absence can be proved.
\<close>

datatype cxx_error =
    Runtime_Error            \<comment> \<open>\<open>std::runtime_error\<close>\<close>
  | Length_Error             \<comment> \<open>\<open>std::length_error\<close> of a container request past \<open>max_size()\<close>\<close>
  | Bad_Alloc                \<comment> \<open>\<open>std::bad_alloc\<close> of a request no machine can serve\<close>
  | Invalid_Argument         \<comment> \<open>\<open>std::invalid_argument\<close>\<close>
  | Out_Of_Range             \<comment> \<open>\<open>std::out_of_range\<close>\<close>
  | Bad_Variant_Access       \<comment> \<open>\<open>std::get\<close> on the wrong alternative\<close>
  | Undefined_Behaviour      \<comment> \<open>an access outside an object, or pointer overflow\<close>
  | Malformed                \<comment> \<open>an early \<open>return false\<close> or \<open>return nullopt\<close>\<close>
  | Diverges                 \<comment> \<open>a loop that makes no progress\<close>

type_synonym 'a res = "cxx_error + 'a"

text \<open>
  Requests of this many bytes or more fail with \<open>std::bad_alloc\<close> on every machine (an address
  space has at most 2^57 bytes today). How much a given machine serves below that is its own
  affair; the model lets it serve all of it.
\<close>

definition ALLOC_LIMIT :: nat where
  "ALLOC_LIMIT = 4611686018427387904"

named_theorems model_defs "definitions of the model to unfold"
named_theorems inv_rules "preservation of component invariants"
named_theorems codec_intros "what a decoder returns on an encoding"

definition res_ok :: "'a res \<Rightarrow> bool" where
  "res_ok r \<longleftrightarrow> (case r of Inl _ \<Rightarrow> False | Inr _ \<Rightarrow> True)"

lemma res_ok_simps [simp]:
  "res_ok (Inr x)" "\<not> res_ok (Inl e)"
  by (simp_all add: res_ok_def)

lemma res_ok_iff: "res_ok r \<longleftrightarrow> (\<exists>x. r = Inr x)"
  by (cases r) simp_all

text \<open>Sequencing of calls that may fail: the first failure is the result.\<close>

definition rbind :: "'e + 'a \<Rightarrow> ('a \<Rightarrow> 'e + 'b) \<Rightarrow> 'e + 'b" where
  "rbind r f = (case r of Inl e \<Rightarrow> Inl e | Inr x \<Rightarrow> f x)"

lemma rbind_simps [simp]:
  "rbind (Inl e) f = Inl e" "rbind (Inr x) f = f x"
  by (simp_all add: rbind_def)

lemma rbind_eq_Inr: "rbind r f = Inr y \<longleftrightarrow> (\<exists>x. r = Inr x \<and> f x = Inr y)"
  by (cases r) simp_all

lemma rbind_eq_Inl: "rbind r f = Inl e \<longleftrightarrow> r = Inl e \<or> (\<exists>x. r = Inr x \<and> f x = Inl e)"
  by (cases r) simp_all

lemma rbind_cong [fundef_cong]:
  assumes "r = r'" "\<And>x. r' = Inr x \<Longrightarrow> f x = f' x"
  shows "rbind r f = rbind r' f'"
  using assms by (cases r') simp_all

section \<open>A byte buffer read at an offset\<close>

text \<open>
  \<open>at data off rest\<close>: the unread part of the buffer, from \<open>off\<close> on, is \<open>rest\<close>.
  Every decoder law is stated with it, so that decoders compose.
\<close>

definition at :: "'a list \<Rightarrow> nat \<Rightarrow> 'a list \<Rightarrow> bool" where
  "at data off rest \<longleftrightarrow> off \<le> length data \<and> drop off data = rest"

lemma at_start [simp, intro]: "at data 0 data"
  by (simp add: at_def)

lemma at_length: "at data off rest \<Longrightarrow> length data = off + length rest"
  by (auto simp: at_def)

lemma at_less: "at data off (x # rest) \<Longrightarrow> off < length data"
  by (auto dest: at_length)

lemma at_nth: "at data off (x # rest) \<Longrightarrow> data ! off = x"
  using at_less [of data off x rest] hd_drop_conv_nth [of off data] by (simp add: at_def)

lemma at_Suc: "at data off (x # rest) \<Longrightarrow> at data (Suc off) rest"
  using at_less [of data off x rest] by (simp add: at_def drop_Suc drop_tl)

lemma at_append: "at data off (xs @ rest) \<Longrightarrow> at data (off + length xs) rest"
proof -
  assume a: "at data off (xs @ rest)"
  have "drop (length xs) (drop off data) = rest" using a by (simp add: at_def)
  then show ?thesis using at_length [OF a] by (simp add: at_def add.commute)
qed

lemma at_take: "at data off (xs @ rest) \<Longrightarrow> take (length xs) (drop off data) = xs"
  by (auto simp: at_def)

lemma at_bound: "at data off (xs @ rest) \<Longrightarrow> off + length xs \<le> length data"
  by (auto dest: at_length)

lemma at_self: "off \<le> length data \<Longrightarrow> at data off (drop off data)"
  by (simp add: at_def)

text \<open>
  A vector built from the iterator range \<open>[p + off, p + off + n)\<close>, for a 64-bit count
  \<open>n\<close>: defined only when the range lies inside the buffer.
\<close>

definition read_range :: "'a list \<Rightarrow> nat \<Rightarrow> u64 \<Rightarrow> 'a list res" where
  "read_range data off n =
     (if off + unat n \<le> length data then Inr (take (unat n) (drop off data))
      else Inl Undefined_Behaviour)"

lemma read_range_at:
  "at data off (xs @ rest) \<Longrightarrow> unat n = length xs \<Longrightarrow> read_range data off n = Inr xs"
  by (auto simp: read_range_def at_take dest: at_bound)

lemma read_range_length: "read_range data off n = Inr xs \<Longrightarrow> length xs = unat n"
  by (auto simp: read_range_def split: if_splits)

section \<open>Lists and words\<close>

text \<open>An element of a C++ array or vector read by \<open>operator[]\<close>.\<close>

definition vec_get :: "'a list \<Rightarrow> nat \<Rightarrow> 'a res" where
  "vec_get xs i = (if i < length xs then Inr (xs ! i) else Inl Undefined_Behaviour)"

lemma of_nat_length_u64:
  "length xs < 2 ^ 64 \<Longrightarrow> unat (of_nat (length xs) :: u64) = length xs"
  by (simp add: unat_of_nat take_bit_nat_eq_self)

lemma u8_all: "(\<forall>b :: u8. P b) \<longleftrightarrow> (\<forall>n < 256. P (of_nat n))"
proof
  assume a: "\<forall>n < 256. P (of_nat n)"
  show "\<forall>b :: u8. P b"
  proof
    fix b :: u8
    have "unat b < 256" using unsigned_less [of b] by simp
    with a have "P (of_nat (unat b))" by blast
    then show "P b" by simp
  qed
qed simp

lemma bit_unat: "bit (w :: 'a::len word) n \<longleftrightarrow> odd (unat w div 2 ^ n)"
proof -
  have "bit (unat w) n \<longleftrightarrow> bit w n" by (simp only: bit_unsigned_iff possible_bit_nat) simp
  then show ?thesis by (simp only: bit_iff_odd)
qed

lemma unat_and_7F:
  "unat ((b :: u8) AND 0x7F) = unat b mod 128"
  "unat ((v :: u64) AND 0x7F) = unat v mod 128"
proof -
  have "b AND 0x7F = take_bit 7 b" by (simp add: take_bit_eq_mask mask_eq_exp_minus_1)
  then show "unat (b AND 0x7F) = unat b mod 128"
    by (simp only: take_bit_eq_mod unat_mod) simp
  have "v AND 0x7F = take_bit 7 v" by (simp add: take_bit_eq_mask mask_eq_exp_minus_1)
  then show "unat (v AND 0x7F) = unat v mod 128"
    by (simp only: take_bit_eq_mod unat_mod) simp
qed

lemma ucast_and_7F:
  "(ucast ((b :: u8) AND 0x7F) :: u64) = of_nat (unat b mod 128)"
  "(ucast ((v :: u64) AND 0x7F) :: u8) = of_nat (unat v mod 128)"
  by (metis of_nat_unat unat_and_7F(1)) (metis of_nat_unat unat_and_7F(2))

lemma and_80_eq_0: "(b :: u8) AND 0x80 = 0 \<longleftrightarrow> unat b < 128"
proof -
  have u: "unat b < 256" using unsigned_less [of b] by simp
  have "b AND 0x80 = 0 \<longleftrightarrow> \<not> bit b 7"
    using and_exp_eq_0_iff_not_bit [of b 7] by simp
  also have "\<dots> \<longleftrightarrow> \<not> odd (unat b div 128)" by (simp only: bit_unat) simp
  also have "\<dots> \<longleftrightarrow> unat b < 128"
  proof (cases "unat b < 128")
    case True
    then show ?thesis by simp
  next
    case False
    with u have "unat b div 128 = 1" by (simp add: div_nat_eqI)
    with False show ?thesis by simp
  qed
  finally show ?thesis .
qed

lemma or_80: "d < 128 \<Longrightarrow> (of_nat d :: u8) OR 0x80 = of_nat (d + 128)"
proof -
  assume d: "d < 128"
  then have "unat (of_nat d :: u8) = d" by (simp add: unat_of_nat)
  then have "(of_nat d :: u8) AND 0x80 = 0" using d by (simp only: and_80_eq_0)
  then have "of_nat d + (0x80 :: u8) = of_nat d OR 0x80" by (rule disjunctive_add_eq_or)
  then show ?thesis by (metis of_nat_add of_nat_numeral)
qed

lemma min_word_unat: "unat (min a b) = min (unat a) (unat b)"
  for a b :: "'a::len word"
  by (simp add: min_def word_le_nat_alt)

lemma max_word_unat: "unat (max a b) = max (unat a) (unat b)"
  for a b :: "'a::len word"
  by (simp add: max_def word_le_nat_alt)

lemma unat_plus_no_wrap:
  fixes a b :: u64
  assumes "unat a + unat b < 2 ^ 64"
  shows "unat (a + b) = unat a + unat b"
  using assms by (simp add: unat_word_ariths)

lemma unat_minus_no_wrap:
  fixes a b :: u64
  assumes "b \<le> a"
  shows "unat (a - b) = unat a - unat b"
  using assms by (simp add: unat_sub)

end
