(* ===== verification/Codec.thy ===== *)
theory Codec
  imports Prelude
begin

text \<open>
  The interface between the byte-level decoders and the code that calls them. A reader makes
  progress inside the buffer; a codec is a reader that undoes an encoder. The client is the
  counted loop (extension lists, reception claims), whose laws are proved once here.
\<close>

section \<open>The counted loop\<close>

text \<open>\<open>for (i = 0; i < n; ++i) { read one element; push_back }\<close>, stopping at the first
  failure.\<close>

fun decode_n :: "(bytes \<Rightarrow> nat \<Rightarrow> ('a \<times> nat) res) \<Rightarrow> nat \<Rightarrow> bytes \<Rightarrow> nat
    \<Rightarrow> ('a list \<times> nat) res" where
  "decode_n dec n data offset =
     (if n = 0 then Inr ([], offset)
      else rbind (dec data offset) (\<lambda>(x, offset).
           rbind (decode_n dec (n - 1) data offset) (\<lambda>(xs, offset).
           Inr (x # xs, offset))))"

declare decode_n.simps [simp del]

lemma decode_n_0 [simp]: "decode_n dec 0 data off = Inr ([], off)"
  by (simp add: decode_n.simps)

lemma decode_n_Suc:
  "decode_n dec (Suc n) data off =
     rbind (dec data off) (\<lambda>(x, off). rbind (decode_n dec n data off) (\<lambda>(xs, off).
     Inr (x # xs, off)))"
  by (simp add: decode_n.simps [of dec "Suc n"])

lemma decode_n_length: "decode_n dec n data off = Inr (xs, off') \<Longrightarrow> length xs = n"
  by (induction n arbitrary: off xs off') (auto simp: decode_n_Suc rbind_eq_Inr)

lemma decode_n_list_all:
  assumes "\<And>off x off'. dec data off = Inr (x, off') \<Longrightarrow> P x"
  shows "decode_n dec n data off = Inr (xs, off') \<Longrightarrow> list_all P xs"
  by (induction n arbitrary: off xs off') (auto simp: decode_n_Suc rbind_eq_Inr dest: assms)

lemma decode_n_error:
  assumes "\<And>off e. dec data off = Inl e \<Longrightarrow> e \<in> E"
  shows "decode_n dec n data off = Inl e \<Longrightarrow> e \<in> E"
  by (induction n arbitrary: off) (auto simp: decode_n_Suc rbind_eq_Inl dest: assms)

section \<open>The contracts\<close>

locale reader =
  fixes dec :: "bytes \<Rightarrow> nat \<Rightarrow> ('a \<times> nat) res"
  assumes progress: "dec data off = Inr (x, off') \<Longrightarrow> off < off' \<and> off' \<le> length data"
begin

text \<open>A loop that succeeds consumes at least one byte per element, inside the buffer.\<close>

lemma loop_progress:
  "decode_n dec n data off = Inr (xs, off') \<Longrightarrow> off \<le> length data
   \<Longrightarrow> off + n \<le> off' \<and> off' \<le> length data"
proof (induction n arbitrary: off xs off')
  case (Suc n)
  from Suc.prems(1) obtain x off1 ys where
    d: "dec data off = Inr (x, off1)" and r: "decode_n dec n data off1 = Inr (ys, off')"
    by (auto simp: decode_n_Suc rbind_eq_Inr)
  from progress [OF d] Suc.IH [OF r] show ?case by linarith
qed simp

end

locale codec = reader dec for dec :: "bytes \<Rightarrow> nat \<Rightarrow> ('a \<times> nat) res" +
  fixes enc :: "'a \<Rightarrow> bytes" and valid :: "'a \<Rightarrow> bool"
  assumes roundtrip:
    "valid x \<Longrightarrow> length data < 2 ^ 63 \<Longrightarrow> at data off (enc x @ rest)
     \<Longrightarrow> dec data off = Inr (x, off + length (enc x))"
begin

text \<open>The loop over the concatenated encodings gives the list back.\<close>

lemma loop_roundtrip:
  "list_all valid xs \<Longrightarrow> length data < 2 ^ 63 \<Longrightarrow> at data off (concat (map enc xs) @ rest)
   \<Longrightarrow> decode_n dec (length xs) data off = Inr (xs, off + length (concat (map enc xs)))"
proof (induction xs arbitrary: off)
  case (Cons x xs)
  from Cons.prems have a: "at data off (enc x @ concat (map enc xs) @ rest)" by simp
  with Cons.prems have "dec data off = Inr (x, off + length (enc x))" by (simp add: roundtrip)
  moreover have "at data (off + length (enc x)) (concat (map enc xs) @ rest)"
    using a by (rule at_append)
  ultimately show ?case using Cons by (simp add: decode_n_Suc add.assoc)
qed simp

end

end
