(* ===== verification/Sdnv.thy ===== *)
theory Sdnv
  imports Codec
begin

text \<open>
  Self-Delimiting Numeric Values, \<^verbatim>\<open>src/ltp_cla/sdnv.cpp\<close>: the encoder that builds
  its bytes from the least significant septet and reverses them, the decoder with its
  10-byte limit, the round trip, the exact length of an encoding, and what the decoder
  computes on any input (the value modulo \<open>2^64\<close>).
\<close>

section \<open>The code\<close>

definition MAX_BYTES :: nat where
  "MAX_BYTES = 10"

record encoded =
  enc_bytes :: bytes      \<comment> \<open>\<open>std::array<uint8_t, MAX_BYTES>\<close>\<close>
  enc_length :: u8

function encode_loop :: "u64 \<Rightarrow> bool \<Rightarrow> bytes \<Rightarrow> bytes" where
  "encode_loop value first tmp =
     (if value > 0 then
        let byte = ucast (value AND 0x7F);
            byte = (if \<not> first then byte OR 0x80 else byte)
        in encode_loop (drop_bit 7 value) False (tmp @ [byte])
      else tmp)"
  by pat_completeness auto

lemma unat_drop_bit_7: "unat (drop_bit 7 (v :: u64)) = unat v div 128"
  by (subst unat_drop_bit_eq) (simp add: drop_bit_eq_div)

lemma drop_bit_7_less: "(v :: u64) > 0 \<Longrightarrow> unat (drop_bit 7 v) < unat v"
  by (simp only: unat_drop_bit_7) (simp add: unat_gt_0)

termination encode_loop
  by (relation "measure (\<lambda>(v, first, tmp). unat v)") (auto simp: drop_bit_7_less)

declare encode_loop.simps [simp del]

definition sdnv_encode :: "u64 \<Rightarrow> encoded" where
  "sdnv_encode value =
     (if value = 0 then \<lparr>enc_bytes = (replicate MAX_BYTES 0)[0 := 0], enc_length = 1\<rparr>
      else
        let tmp = encode_loop value True [];
            len = length tmp
        in \<lparr>enc_bytes = map (\<lambda>i. if i < len then tmp ! (len - 1 - i) else 0) [0..<MAX_BYTES],
            enc_length = of_nat len\<rparr>)"

definition encode_into :: "u64 \<Rightarrow> bytes \<Rightarrow> bytes" where
  "encode_into value out =
     (let enc = sdnv_encode value in out @ take (unat (enc_length enc)) (enc_bytes enc))"

function decode_loop :: "bytes \<Rightarrow> nat \<Rightarrow> nat \<Rightarrow> u64 \<Rightarrow> (u64 \<times> nat) res" where
  "decode_loop data offset bytes_consumed value =
     (if offset < length data then
        let byte = data ! offset;
            offset = offset + 1;
            bytes_consumed = bytes_consumed + 1
        in if bytes_consumed > MAX_BYTES then Inl Runtime_Error
           else
             let value = push_bit 7 value OR ucast (byte AND 0x7F)
             in if byte AND 0x80 = 0 then Inr (value, offset)
                else decode_loop data offset bytes_consumed value
      else Inl Runtime_Error)"
  by pat_completeness auto
termination
  by (relation "measure (\<lambda>(d, off, c, v). length d - off)") auto

declare decode_loop.simps [simp del]

definition sdnv_decode :: "bytes \<Rightarrow> nat \<Rightarrow> (u64 \<times> nat) res" where
  "sdnv_decode data offset =
     (if offset \<ge> length data then Inl Runtime_Error else decode_loop data offset 0 0)"

section \<open>Reference: base-128 digits\<close>

fun septets :: "nat \<Rightarrow> nat list" where
  "septets n = (if n = 0 then [] else septets (n div 128) @ [n mod 128])"

declare septets.simps [simp del]

definition cont_byte :: "nat \<Rightarrow> u8" where
  "cont_byte d = of_nat d OR 0x80"

definition sdnv_bytes :: "u64 \<Rightarrow> bytes" where
  "sdnv_bytes v = map cont_byte (septets (unat v div 128)) @ [of_nat (unat v mod 128)]"

lemma septets_0 [simp]: "septets 0 = []"
  by (simp add: septets.simps)

lemma septets_less: "d \<in> set (septets n) \<Longrightarrow> d < 128"
  by (induction n rule: septets.induct) (subst (asm) (2) septets.simps, auto split: if_splits)

lemma length_septets_le: "n < 128 ^ k \<Longrightarrow> length (septets n) \<le> k"
proof (induction k arbitrary: n)
  case 0
  then show ?case by simp
next
  case (Suc k)
  then have "n div 128 < 128 ^ k" by (simp add: less_mult_imp_div_less mult.commute)
  from Suc.IH [OF this] show ?case by (subst septets.simps) simp
qed

lemma length_septets_ge: "128 ^ k \<le> n \<Longrightarrow> k < length (septets n)"
proof (induction k arbitrary: n)
  case 0
  then show ?case by (subst septets.simps) simp
next
  case (Suc k)
  then have "128 ^ k \<le> n div 128" by (simp add: less_eq_div_iff_mult_less_eq mult.commute)
  from Suc.IH [OF this] Suc.prems show ?case
    by (subst septets.simps) (auto simp: not_le intro: gr0I)
qed

lemma encode_loop_cont:
  "encode_loop v False tmp = tmp @ rev (map cont_byte (septets (unat v)))"
proof (induction v False tmp rule: encode_loop.induct)
  case (1 v tmp)
  show ?case
  proof (cases "v > 0")
    case True
    have "septets (unat v) = septets (unat v div 128) @ [unat v mod 128]"
      using True by (subst septets.simps) (simp add: unat_eq_0)
    with 1 True show ?thesis
      by (subst encode_loop.simps) (simp add: Let_def unat_drop_bit_7 ucast_and_7F cont_byte_def)
  next
    case False
    then have "v = 0" by (simp add: word_gt_0)
    then show ?thesis by (subst encode_loop.simps) simp
  qed
qed

lemma encode_loop_first:
  "v > 0 \<Longrightarrow> encode_loop v True [] = rev (sdnv_bytes v)"
  by (subst encode_loop.simps)
    (simp add: Let_def encode_loop_cont unat_drop_bit_7 ucast_and_7F sdnv_bytes_def)

lemma length_sdnv_bytes: "length (sdnv_bytes v) \<le> MAX_BYTES"
proof -
  have "unat v < 2 ^ 64" using unsigned_less [of v] by simp
  then have "unat v div 128 < 128 ^ 9" by simp
  then show ?thesis using length_septets_le by (simp add: sdnv_bytes_def MAX_BYTES_def)
qed

lemma encoded_bytes: "take (unat (enc_length (sdnv_encode v))) (enc_bytes (sdnv_encode v)) = sdnv_bytes v"
proof (cases "v = 0")
  case True
  moreover have "replicate MAX_BYTES (0 :: u8) = 0 # replicate 9 0"
    by (simp add: MAX_BYTES_def flip: replicate_Suc)
  ultimately show ?thesis by (simp add: sdnv_encode_def sdnv_bytes_def)
next
  case False
  then have l: "encode_loop v True [] = rev (sdnv_bytes v)"
    by (simp add: encode_loop_first word_gt_0)
  have le: "length (sdnv_bytes v) \<le> 10" using length_sdnv_bytes by (simp add: MAX_BYTES_def)
  then have u: "unat (of_nat (length (sdnv_bytes v)) :: u8) = length (sdnv_bytes v)"
    by (simp add: unat_of_nat)
  have "sdnv_encode v =
      \<lparr>enc_bytes = map (\<lambda>i. if i < length (sdnv_bytes v)
          then rev (sdnv_bytes v) ! (length (sdnv_bytes v) - 1 - i) else 0) [0..<MAX_BYTES],
       enc_length = of_nat (length (sdnv_bytes v))\<rparr>"
    using False by (simp add: sdnv_encode_def Let_def l)
  then show ?thesis
    using le u by (intro nth_equalityI) (auto simp: MAX_BYTES_def rev_nth)
qed

lemma encode_into_bytes: "encode_into v out = out @ sdnv_bytes v"
  by (simp add: encode_into_def Let_def encoded_bytes)

lemma unat_cont: "d < 128 \<Longrightarrow> unat (cont_byte d) = d + 128"
  by (simp only: cont_byte_def or_80) (simp add: unat_of_nat del: of_nat_add)

lemma decode_value:
  "push_bit 7 v OR ucast ((b :: u8) AND 0x7F) = (v * 128 + of_nat (unat b mod 128) :: u64)"
proof -
  have "b AND 0x7F = take_bit 7 b" by (simp add: take_bit_eq_mask mask_eq_exp_minus_1)
  then have "push_bit 7 v AND ucast (b AND 0x7F) = (0 :: u64)"
    by (simp only:) (rule bit_eqI, auto simp: bit_simps)
  then have "push_bit 7 v + ucast (b AND 0x7F) = push_bit 7 v OR (ucast (b AND 0x7F) :: u64)"
    by (rule disjunctive_add_eq_or)
  then show ?thesis by (simp only: push_bit_eq_mult ucast_and_7F) simp
qed

text \<open>What the decoder computes from a run of bytes: Horner's rule modulo \<open>2^64\<close>.\<close>

definition horner :: "u64 \<Rightarrow> bytes \<Rightarrow> u64" where
  "horner v bs = foldl (\<lambda>a b. a * 128 + of_nat (unat b mod 128)) v bs"

lemma horner_simps [simp]:
  "horner v [] = v"
  "horner v (b # bs) = horner (v * 128 + of_nat (unat b mod 128)) bs"
  "horner v (bs @ cs) = horner (horner v bs) cs"
  by (simp_all add: horner_def)

lemma of_nat_div_mod_128: "of_nat (n div 128) * 128 + of_nat (n mod 128) = (of_nat n :: u64)"
  by (metis div_mult_mod_eq of_nat_add of_nat_mult of_nat_numeral)

lemma horner_septets: "horner (of_nat m) (map cont_byte (septets n)) = of_nat (m * 128 ^ length (septets n) + n)"
proof (induction n arbitrary: m rule: septets.induct)
  case (1 n)
  show ?case
  proof (cases "n = 0")
    case False
    then have s: "septets n = septets (n div 128) @ [n mod 128]" by (subst septets.simps) simp
    have "horner (of_nat m) (map cont_byte (septets n))
        = of_nat (m * 128 ^ length (septets (n div 128)) + n div 128) * 128 + of_nat (n mod 128)"
      using "1.IH" [OF False, of m] by (simp add: s unat_cont)
    also have "\<dots> = of_nat ((m * 128 ^ length (septets (n div 128)) + n div 128) * 128 + n mod 128)"
      by (simp only: of_nat_add of_nat_mult of_nat_numeral)
    also have "(m * 128 ^ length (septets (n div 128)) + n div 128) * 128 + n mod 128
        = m * 128 ^ length (septets n) + n"
      using div_mult_mod_eq [of n 128] by (simp add: s algebra_simps)
    finally show ?thesis .
  qed simp
qed

lemma horner_sdnv_bytes: "horner 0 (sdnv_bytes v) = v"
proof -
  have "horner 0 (map cont_byte (septets (unat v div 128))) = of_nat (unat v div 128)"
    using horner_septets [of 0 "unat v div 128"] by simp
  then have "horner 0 (sdnv_bytes v) = of_nat (unat v div 128) * 128 + of_nat (unat v mod 128)"
    by (simp add: sdnv_bytes_def unat_of_nat)
  then show ?thesis by (simp only: of_nat_div_mod_128) simp
qed

text \<open>The decoder on any input: the run of continuation bytes and the byte that ends it.\<close>

definition cont_run :: "bytes \<Rightarrow> bytes" where
  "cont_run bs = takeWhile (\<lambda>b. unat b \<ge> 128) bs"

lemma decode_loop_spec:
  assumes "at data off rest"
  shows "decode_loop data off c v =
    (let n = length (cont_run rest) in
     if c + n + 1 \<le> MAX_BYTES \<and> n < length rest
     then Inr (horner v (take (n + 1) rest), off + n + 1) else Inl Runtime_Error)"
  using assms
proof (induction rest arbitrary: off c v)
  case Nil
  then show ?case
    by (subst decode_loop.simps) (auto simp: cont_run_def dest: at_length)
next
  case (Cons b rest)
  have "off < length data" "data ! off = b" "at data (Suc off) rest"
    using Cons.prems by (auto dest: at_less at_nth at_Suc)
  with Cons.IH [of "Suc off" "Suc c"] show ?case
    by (subst decode_loop.simps)
      (auto simp: Let_def and_80_eq_0 decode_value cont_run_def not_le not_less)
qed

lemma sdnv_decode_spec:
  assumes "at data off rest"
  shows "sdnv_decode data off =
    (let n = length (cont_run rest) in
     if n < MAX_BYTES \<and> n < length rest
     then Inr (horner 0 (take (n + 1) rest), off + n + 1) else Inl Runtime_Error)"
  using assms decode_loop_spec [OF assms, of 0 0]
  by (auto simp: sdnv_decode_def Let_def Suc_le_eq dest: at_length)

lemma cont_run_sdnv_bytes:
  "cont_run (sdnv_bytes v @ rest) = map cont_byte (septets (unat v div 128))"
proof -
  have "\<forall>b \<in> set (map cont_byte (septets n)). unat b \<ge> 128" for n
    by (auto simp: unat_cont dest: septets_less)
  moreover have "unat (of_nat (unat v mod 128) :: u8) < 128"
    by (simp add: unat_of_nat)
  ultimately show ?thesis
    unfolding cont_run_def sdnv_bytes_def by (simp only: append_assoc takeWhile_append2) simp
qed

lemma sdnv_roundtrip:
  assumes "at data off (sdnv_bytes v @ rest)"
  shows "sdnv_decode data off = Inr (v, off + length (sdnv_bytes v))"
proof -
  have len: "length (sdnv_bytes v) = length (septets (unat v div 128)) + 1"
    by (simp add: sdnv_bytes_def)
  have "take (length (sdnv_bytes v)) (sdnv_bytes v @ rest) = sdnv_bytes v" by simp
  then show ?thesis
    using sdnv_decode_spec [OF assms] length_sdnv_bytes [of v]
    by (simp add: cont_run_sdnv_bytes len horner_sdnv_bytes)
qed

lemma sdnv_length: "length (sdnv_bytes v) = (LEAST k. 0 < k \<and> unat v < 128 ^ k)"
proof (rule sym, rule Least_equality)
  let ?s = "septets (unat v div 128)"
  have len: "length (sdnv_bytes v) = Suc (length ?s)" by (simp add: sdnv_bytes_def)
  have "unat v div 128 < 128 ^ length ?s" using length_septets_ge not_le by blast
  then have "unat v < 128 ^ Suc (length ?s)" by (simp add: div_less_iff_less_mult mult.commute)
  then show "0 < length (sdnv_bytes v) \<and> unat v < 128 ^ length (sdnv_bytes v)"
    by (simp add: len)
  fix k assume "0 < k \<and> unat v < 128 ^ k"
  then obtain j where j: "k = Suc j" "unat v < 128 ^ Suc j" by (cases k) auto
  then have "unat v div 128 < 128 ^ j" by (simp add: less_mult_imp_div_less mult.commute)
  then show "length (sdnv_bytes v) \<le> k" using length_septets_le j by (simp add: len)
qed

lemma sdnv_decode_progress:
  assumes "sdnv_decode data off = Inr (v, off')"
  shows "off < off' \<and> off' \<le> length data"
proof -
  have "off \<le> length data" using assms by (auto simp: sdnv_decode_def split: if_splits)
  then show ?thesis
    using assms sdnv_decode_spec [OF at_self, of off data]
    by (auto simp: Let_def split: if_splits)
qed

lemma sdnv_decode_error: "sdnv_decode data off = Inl e \<Longrightarrow> e = Runtime_Error"
proof (cases "off \<le> length data")
  case True
  then show "sdnv_decode data off = Inl e \<Longrightarrow> e = Runtime_Error"
    using sdnv_decode_spec [OF at_self, of off data] by (auto simp: Let_def split: if_splits)
qed (simp add: sdnv_decode_def)

interpretation sdnv_codec: codec sdnv_decode sdnv_bytes "\<lambda>_. True"
  by unfold_locales (auto dest: sdnv_decode_progress simp: sdnv_roundtrip)

section \<open>Properties\<close>

text \<open>Appending the encoding of any 64-bit value to a buffer and decoding at the old end
  gives the value back and leaves the offset exactly behind the encoding, whatever follows.\<close>

theorem sdnv_decode_encode:
  "sdnv_decode (encode_into v pre @ rest) (length pre) = Inr (v, length (encode_into v pre))"
proof -
  have "at (encode_into v pre @ rest) (length pre) (sdnv_bytes v @ rest)"
    by (simp add: at_def encode_into_bytes)
  then show ?thesis by (simp add: sdnv_roundtrip encode_into_bytes)
qed

text \<open>The encoder never runs past its 10-byte arrays and emits the shortest encoding:
  the least positive number of 7-bit groups that holds the value.\<close>

theorem sdnv_encode_minimal:
  "unat (enc_length (sdnv_encode v)) = (LEAST k. 0 < k \<and> unat v < 128 ^ k)
   \<and> unat (enc_length (sdnv_encode v)) \<le> MAX_BYTES
   \<and> length (enc_bytes (sdnv_encode v)) = MAX_BYTES"
proof -
  have l: "unat (enc_length (sdnv_encode v)) \<le> length (enc_bytes (sdnv_encode v))
      \<and> length (enc_bytes (sdnv_encode v)) = MAX_BYTES"
  proof (cases "v = 0")
    case False
    then have "length (encode_loop v True []) \<le> 10"
      using length_sdnv_bytes [of v] by (simp add: encode_loop_first word_gt_0 MAX_BYTES_def)
    with False show ?thesis by (simp add: sdnv_encode_def Let_def MAX_BYTES_def unat_of_nat)
  qed (simp add: sdnv_encode_def MAX_BYTES_def)
  then have "unat (enc_length (sdnv_encode v)) = length (sdnv_bytes v)"
    using arg_cong [OF encoded_bytes [of v], of length] by simp
  with l show ?thesis using sdnv_length [of v] by simp
qed

text \<open>What the decoder does on every input: it reads the run of bytes with the top bit
  set and the byte that ends it; it fails exactly when that run has 10 bytes or more or the
  buffer ends inside it; the value is Horner's sum of the 7-bit groups modulo \<open>2^64\<close>.\<close>

theorem sdnv_decode_total:
  "sdnv_decode (pre @ rest) (length pre) =
    (let n = length (cont_run rest) in
     if n < MAX_BYTES \<and> n < length rest
     then Inr (horner 0 (take (n + 1) rest), length pre + n + 1) else Inl Runtime_Error)"
  by (rule sdnv_decode_spec) (simp add: at_def)

text \<open>The 10-byte limit does not keep the value below \<open>2^63\<close>, as the decoder's
  error message says it does: a 10-byte sequence for \<open>2^64\<close> is accepted and decoded to 0,
  the value the one-byte sequence for 0 has.\<close>

theorem sdnv_decode_wraps:
  "sdnv_decode (0x82 # replicate 8 0x80 @ [0]) 0 = Inr (0, 10)
   \<and> sdnv_decode [0] 0 = Inr (0, 1)"
proof -
  have "replicate 8 (0x80 :: u8) = [0x80, 0x80, 0x80, 0x80, 0x80, 0x80, 0x80, 0x80]"
    by (simp add: numeral_eq_Suc)
  then show ?thesis
    using sdnv_decode_spec [OF at_start, of "0x82 # replicate 8 0x80 @ [0]"]
      sdnv_decode_spec [OF at_start, of "[0]"]
    by (simp add: cont_run_def MAX_BYTES_def)
qed

end
