(* ===== verification/Segment.thy ===== *)
theory Segment
  imports Sdnv
begin

text \<open>
  LTP segments, \<^verbatim>\<open>include/ltp_cla/ltp_segment.h\<close> and
  \<^verbatim>\<open>src/ltp_cla/ltp_segment.cpp\<close>: the segment type codes, the segment data, its
  encoder and its decoder. \<open>std::variant\<close> content is a datatype, so that \<open>std::get\<close>
  on the wrong alternative is an outcome of the model; \<open>return nullopt\<close> of \<open>decode\<close> is
  \<open>Inr None\<close>; the 64-bit sums of the length checks wrap as in the code.
\<close>

section \<open>Segment type codes\<close>

definition RED_DATA :: u8 where "RED_DATA = 0"
definition RED_DATA_CP :: u8 where "RED_DATA_CP = 1"
definition RED_DATA_CP_EORP :: u8 where "RED_DATA_CP_EORP = 2"
definition RED_DATA_CP_EORP_EOB :: u8 where "RED_DATA_CP_EORP_EOB = 3"
definition GREEN_DATA :: u8 where "GREEN_DATA = 4"
definition GREEN_DATA_EOB :: u8 where "GREEN_DATA_EOB = 5"
definition REPORT_SEGMENT :: u8 where "REPORT_SEGMENT = 6"
definition REPORT_ACK :: u8 where "REPORT_ACK = 7"
definition CANCEL_BY_SENDER :: u8 where "CANCEL_BY_SENDER = 8"
definition CANCEL_ACK_TO_SENDER :: u8 where "CANCEL_ACK_TO_SENDER = 9"
definition CANCEL_BY_RECEIVER :: u8 where "CANCEL_BY_RECEIVER = 12"
definition CANCEL_ACK_TO_RECEIVER :: u8 where "CANCEL_ACK_TO_RECEIVER = 13"

lemmas seg_types =
  RED_DATA_def RED_DATA_CP_def RED_DATA_CP_EORP_def RED_DATA_CP_EORP_EOB_def
  GREEN_DATA_def GREEN_DATA_EOB_def REPORT_SEGMENT_def REPORT_ACK_def CANCEL_BY_SENDER_def
  CANCEL_ACK_TO_SENDER_def CANCEL_BY_RECEIVER_def CANCEL_ACK_TO_RECEIVER_def

definition is_valid :: "u8 \<Rightarrow> bool" where
  "is_valid type \<longleftrightarrow> type \<in> {0, 1, 2, 3, 4, 5, 6, 7, 8, 9, 12, 13}"

definition is_data :: "u8 \<Rightarrow> bool" where "is_data type \<longleftrightarrow> type \<le> 5"
definition is_red :: "u8 \<Rightarrow> bool" where "is_red type \<longleftrightarrow> type \<le> 3"
definition is_green :: "u8 \<Rightarrow> bool" where "is_green type \<longleftrightarrow> type \<ge> 4 \<and> type \<le> 5"
definition has_checkpoint :: "u8 \<Rightarrow> bool" where "has_checkpoint type \<longleftrightarrow> type \<ge> 1 \<and> type \<le> 3"
definition has_eorp :: "u8 \<Rightarrow> bool" where "has_eorp type \<longleftrightarrow> type = 2 \<or> type = 3"
definition has_eob :: "u8 \<Rightarrow> bool" where "has_eob type \<longleftrightarrow> type = 3 \<or> type = 5"

lemmas seg_preds = is_data_def is_red_def is_green_def has_checkpoint_def has_eorp_def has_eob_def

section \<open>Segment data\<close>

record ltp_extension =
  ext_tag :: u8
  ext_value :: bytes

record reception_claim =
  claim_offset :: u64
  claim_length :: u64

record data_seg_content =
  client_service_id :: u64
  ds_offset :: u64
  ds_length :: u64
  ds_checkpoint_serial :: "u64 option"
  ds_report_serial :: "u64 option"
  ds_data :: bytes

record report_seg_content =
  rs_report_serial :: u64
  rs_checkpoint_serial :: u64
  rs_upper_bound :: u64
  rs_lower_bound :: u64
  rs_claims :: "reception_claim list"

record rpt_ack_content =
  ra_report_serial :: u64

record cancel_content =
  reason_code :: u8

datatype segment_content =
    Data_Seg data_seg_content
  | Report_Seg report_seg_content
  | Rpt_Ack rpt_ack_content
  | Cancel_Seg cancel_content

record ltp_segment =
  version :: u8
  segment_type :: u8
  seg_engine_id :: u64
  seg_session_number :: u64
  header_ext_count :: u8
  trailer_ext_count :: u8
  header_extensions :: "ltp_extension list"
  trailer_extensions :: "ltp_extension list"
  content :: segment_content

text \<open>\<open>std::get\<close>.\<close>

fun get_data :: "segment_content \<Rightarrow> data_seg_content res" where
  "get_data (Data_Seg ds) = Inr ds" | "get_data _ = Inl Bad_Variant_Access"
fun get_report :: "segment_content \<Rightarrow> report_seg_content res" where
  "get_report (Report_Seg rs) = Inr rs" | "get_report _ = Inl Bad_Variant_Access"
fun get_rpt_ack :: "segment_content \<Rightarrow> rpt_ack_content res" where
  "get_rpt_ack (Rpt_Ack ra) = Inr ra" | "get_rpt_ack _ = Inl Bad_Variant_Access"
fun get_cancel :: "segment_content \<Rightarrow> cancel_content res" where
  "get_cancel (Cancel_Seg cc) = Inr cc" | "get_cancel _ = Inl Bad_Variant_Access"

section \<open>Encoder\<close>

definition append_sdnv :: "bytes \<Rightarrow> u64 \<Rightarrow> bytes" where
  "append_sdnv out value = encode_into value out"

definition encode_extension :: "bytes \<Rightarrow> ltp_extension \<Rightarrow> bytes" where
  "encode_extension out ext =
     append_sdnv (out @ [ext_tag ext]) (of_nat (length (ext_value ext))) @ ext_value ext"

definition encode_extensions :: "bytes \<Rightarrow> ltp_extension list \<Rightarrow> bytes" where
  "encode_extensions out exts = foldl encode_extension out exts"

definition encode_claim :: "bytes \<Rightarrow> reception_claim \<Rightarrow> bytes" where
  "encode_claim out claim = append_sdnv (append_sdnv out (claim_offset claim)) (claim_length claim)"

definition encode_content :: "u8 \<Rightarrow> segment_content \<Rightarrow> bytes \<Rightarrow> bytes res" where
  "encode_content type cont out =
    (if is_data type then
       rbind (get_data cont) (\<lambda>ds.
       let out = append_sdnv out (client_service_id ds);
           out = append_sdnv out (ds_offset ds);
           out = append_sdnv out (ds_length ds);
           out = (if has_checkpoint type then
                    let out = append_sdnv out (case ds_checkpoint_serial ds of None \<Rightarrow> 0 | Some s \<Rightarrow> s)
                    in append_sdnv out (case ds_report_serial ds of None \<Rightarrow> 0 | Some s \<Rightarrow> s)
                  else out)
       in Inr (out @ ds_data ds))
     else if type = REPORT_SEGMENT then
       rbind (get_report cont) (\<lambda>rs.
       let out = append_sdnv out (rs_report_serial rs);
           out = append_sdnv out (rs_checkpoint_serial rs);
           out = append_sdnv out (rs_upper_bound rs);
           out = append_sdnv out (rs_lower_bound rs);
           out = append_sdnv out (of_nat (length (rs_claims rs)))
       in Inr (foldl encode_claim out (rs_claims rs)))
     else if type = REPORT_ACK then
       rbind (get_rpt_ack cont) (\<lambda>ra. Inr (append_sdnv out (ra_report_serial ra)))
     else if type = CANCEL_BY_SENDER \<or> type = CANCEL_BY_RECEIVER then
       rbind (get_cancel cont) (\<lambda>cc. Inr (out @ [reason_code cc]))
     else Inr out)"

definition segment_encode :: "ltp_segment \<Rightarrow> bytes res" where
  "segment_encode seg =
    (let out = [push_bit 4 (version seg) OR (segment_type seg AND 0x0F)];
         out = append_sdnv out (seg_engine_id seg);
         out = append_sdnv out (seg_session_number seg);
         out = out @ [header_ext_count seg];
         out = out @ [trailer_ext_count seg];
         out = encode_extensions out (header_extensions seg)
     in rbind (encode_content (segment_type seg) (content seg) out) (\<lambda>out.
        Inr (encode_extensions out (trailer_extensions seg))))"

section \<open>Decoder\<close>

text \<open>The check \<open>offset + len > length\<close> in 64-bit arithmetic.\<close>

definition exceeds :: "nat \<Rightarrow> u64 \<Rightarrow> bytes \<Rightarrow> bool" where
  "exceeds offset len data \<longleftrightarrow> of_nat offset + len > (of_nat (length data) :: u64)"

definition decode_extension :: "bytes \<Rightarrow> nat \<Rightarrow> (ltp_extension \<times> nat) res" where
  "decode_extension data offset =
    (if offset \<ge> length data then Inl Malformed
     else
       let tag = data ! offset; offset = offset + 1
       in case sdnv_decode data offset of
            Inl _ \<Rightarrow> Inl Malformed
          | Inr (val_len, offset) \<Rightarrow>
              if exceeds offset val_len data then Inl Malformed
              else rbind (read_range data offset val_len) (\<lambda>value.
                   Inr (\<lparr>ext_tag = tag, ext_value = value\<rparr>, offset + unat val_len)))"

definition decode_extensions :: "bytes \<Rightarrow> nat \<Rightarrow> u8 \<Rightarrow> (ltp_extension list \<times> nat) res" where
  "decode_extensions data offset count = decode_n decode_extension (unat count) data offset"

definition decode_claim :: "bytes \<Rightarrow> nat \<Rightarrow> (reception_claim \<times> nat) res" where
  "decode_claim data offset =
     rbind (sdnv_decode data offset) (\<lambda>(off, offset).
     rbind (sdnv_decode data offset) (\<lambda>(len, offset).
     Inr (\<lparr>claim_offset = off, claim_length = len\<rparr>, offset)))"

text \<open>\<open>std::vector<ReceptionClaim>::max_size()\<close>: 16-byte elements, at most \<open>PTRDIFF_MAX\<close>
  bytes; past it \<open>reserve\<close> throws \<open>length_error\<close>, below it it asks the allocator.\<close>

definition CLAIMS_MAX_SIZE :: nat where
  "CLAIMS_MAX_SIZE = 576460752303423487"

definition reserve_claims :: "u64 \<Rightarrow> unit res" where
  "reserve_claims n =
    (if unat n > CLAIMS_MAX_SIZE then Inl Length_Error
     else if 16 * unat n \<ge> ALLOC_LIMIT then Inl Bad_Alloc
     else Inr ())"

definition decode_content :: "u8 \<Rightarrow> bytes \<Rightarrow> nat \<Rightarrow> (segment_content \<times> nat) res" where
  "decode_content type data offset =
    (if is_data type then
       rbind (sdnv_decode data offset) (\<lambda>(csid, offset).
       rbind (sdnv_decode data offset) (\<lambda>(off, offset).
       rbind (sdnv_decode data offset) (\<lambda>(len, offset).
       rbind (if has_checkpoint type then
                rbind (sdnv_decode data offset) (\<lambda>(cs, offset).
                rbind (sdnv_decode data offset) (\<lambda>(rs, offset).
                Inr (Some cs, Some rs, offset)))
              else Inr (None, None, offset)) (\<lambda>(cs, rs, offset).
       if exceeds offset len data then Inl Malformed
       else rbind (read_range data offset len) (\<lambda>bs.
            Inr (Data_Seg \<lparr>client_service_id = csid, ds_offset = off, ds_length = len,
                   ds_checkpoint_serial = cs, ds_report_serial = rs, ds_data = bs\<rparr>,
                 offset + unat len))))))
     else if type = REPORT_SEGMENT then
       rbind (sdnv_decode data offset) (\<lambda>(rser, offset).
       rbind (sdnv_decode data offset) (\<lambda>(cser, offset).
       rbind (sdnv_decode data offset) (\<lambda>(ub, offset).
       rbind (sdnv_decode data offset) (\<lambda>(lb, offset).
       rbind (sdnv_decode data offset) (\<lambda>(claim_count, offset).
       rbind (reserve_claims claim_count) (\<lambda>_.
       rbind (decode_n decode_claim (unat claim_count) data offset) (\<lambda>(claims, offset).
            Inr (Report_Seg \<lparr>rs_report_serial = rser, rs_checkpoint_serial = cser,
                   rs_upper_bound = ub, rs_lower_bound = lb, rs_claims = claims\<rparr>, offset))))))))
     else if type = REPORT_ACK then
       rbind (sdnv_decode data offset) (\<lambda>(rser, offset).
       Inr (Rpt_Ack \<lparr>ra_report_serial = rser\<rparr>, offset))
     else if type = CANCEL_BY_SENDER \<or> type = CANCEL_BY_RECEIVER then
       (if offset \<ge> length data then Inl Malformed
        else Inr (Cancel_Seg \<lparr>reason_code = data ! offset\<rparr>, offset + 1))
     else if type = CANCEL_ACK_TO_SENDER \<or> type = CANCEL_ACK_TO_RECEIVER then
       Inr (Cancel_Seg \<lparr>reason_code = 0\<rparr>, offset)
     else Inl Malformed)"

text \<open>\<open>catch (const std::runtime_error&) { return nullopt; }\<close>\<close>

definition catch_runtime :: "'a res \<Rightarrow> 'a res" where
  "catch_runtime r = (case r of Inl Runtime_Error \<Rightarrow> Inl Malformed | _ \<Rightarrow> r)"

definition decode_body :: "bytes \<Rightarrow> ltp_segment res" where
  "decode_body data =
    (let control = data ! 0; offset = 1;
         ver = drop_bit 4 control AND 0x0F;
         type = control AND 0x0F
     in if ver \<noteq> 0 then Inl Malformed
        else if \<not> is_valid type then Inl Malformed
        else
          rbind (catch_runtime (
            rbind (sdnv_decode data offset) (\<lambda>(eid, offset).
            rbind (sdnv_decode data offset) (\<lambda>(sn, offset).
            Inr (eid, sn, offset))))) (\<lambda>(eid, sn, offset).
          if offset + 2 > length data then Inl Malformed
          else
            let hcount = data ! offset; offset = offset + 1;
                tcount = data ! offset; offset = offset + 1
            in rbind (decode_extensions data offset hcount) (\<lambda>(hexts, offset).
               rbind (catch_runtime (decode_content type data offset)) (\<lambda>(cont, offset).
               rbind (decode_extensions data offset tcount) (\<lambda>(texts, offset).
               Inr \<lparr>version = ver, segment_type = type, seg_engine_id = eid,
                    seg_session_number = sn, header_ext_count = hcount,
                    trailer_ext_count = tcount, header_extensions = hexts,
                    trailer_extensions = texts, content = cont\<rparr>)))))"

definition segment_decode :: "bytes \<Rightarrow> ltp_segment option res" where
  "segment_decode data =
    (if length data = 0 then Inr None
     else case decode_body data of
            Inl Malformed \<Rightarrow> Inr None
          | Inl e \<Rightarrow> Inl e
          | Inr seg \<Rightarrow> Inr (Some seg))"

section \<open>What the encoder emits\<close>

definition ext_bytes :: "ltp_extension \<Rightarrow> bytes" where
  "ext_bytes e = ext_tag e # sdnv_bytes (of_nat (length (ext_value e))) @ ext_value e"

definition claim_bytes :: "reception_claim \<Rightarrow> bytes" where
  "claim_bytes c = sdnv_bytes (claim_offset c) @ sdnv_bytes (claim_length c)"

lemma append_sdnv_bytes: "append_sdnv out v = out @ sdnv_bytes v"
  by (simp add: append_sdnv_def encode_into_bytes)

lemma encode_extensions_bytes:
  "encode_extensions out exts = out @ concat (map ext_bytes exts)"
  by (induction exts arbitrary: out)
    (simp_all add: encode_extensions_def encode_extension_def append_sdnv_bytes ext_bytes_def)

lemma encode_claims_bytes: "foldl encode_claim out cs = out @ concat (map claim_bytes cs)"
  by (induction cs arbitrary: out) (simp_all add: encode_claim_def append_sdnv_bytes claim_bytes_def)

section \<open>Readers and codecs\<close>

lemma not_exceeds:
  assumes "length data < 2 ^ 63" "off + unat len \<le> length data"
  shows "\<not> exceeds off len data"
proof -
  have o: "unat (of_nat off :: u64) = off" using assms by (simp add: unat_of_nat)
  have "unat (of_nat off + len :: u64) = off + unat len"
    using assms unat_plus_no_wrap [of "of_nat off" len] by (simp add: o)
  moreover have "unat (of_nat (length data) :: u64) = length data"
    using assms by (simp add: unat_of_nat)
  ultimately show ?thesis using assms by (simp add: exceeds_def word_less_nat_alt)
qed

lemma at_length_unat:
  assumes "length data < 2 ^ 63" "at data off (xs @ rest)"
  shows "unat (of_nat (length xs) :: u64) = length xs"
  using assms at_bound [of data off xs rest] by (simp add: unat_of_nat)

lemma decode_extension_progress:
  "decode_extension data off = Inr (e, off') \<Longrightarrow> off < off' \<and> off' \<le> length data"
  by (auto simp: decode_extension_def Let_def read_range_def rbind_eq_Inr
      split: if_splits sum.splits dest!: sdnv_decode_progress)

lemma decode_extension_roundtrip:
  assumes len: "length data < 2 ^ 63" and a: "at data off (ext_bytes e @ rest)"
  shows "decode_extension data off = Inr (e, off + length (ext_bytes e))"
proof -
  let ?n = "of_nat (length (ext_value e)) :: u64"
  have a0: "at data off (ext_tag e # sdnv_bytes ?n @ ext_value e @ rest)"
    using a by (simp add: ext_bytes_def)
  have a1: "at data (Suc off) (sdnv_bytes ?n @ ext_value e @ rest)" using a0 by (rule at_Suc)
  have a2: "at data (Suc off + length (sdnv_bytes ?n)) (ext_value e @ rest)"
    using a1 by (rule at_append)
  have u: "unat ?n = length (ext_value e)" using len a2 by (rule at_length_unat)
  show ?thesis
    using at_less [OF a0] at_nth [OF a0] sdnv_roundtrip [OF a1] read_range_at [OF a2 u]
      not_exceeds [OF len, of _ ?n] at_bound [OF a2] u
    by (simp add: decode_extension_def ext_bytes_def Let_def)
qed

lemma decode_claim_progress:
  "decode_claim data off = Inr (c, off') \<Longrightarrow> off < off' \<and> off' \<le> length data"
  by (fastforce simp: decode_claim_def rbind_eq_Inr dest: sdnv_decode_progress)

lemma decode_claim_roundtrip:
  assumes a: "at data off (claim_bytes c @ rest)"
  shows "decode_claim data off = Inr (c, off + length (claim_bytes c))"
proof -
  have a0: "at data off (sdnv_bytes (claim_offset c) @ sdnv_bytes (claim_length c) @ rest)"
    using a by (simp add: claim_bytes_def)
  show ?thesis
    using sdnv_roundtrip [OF a0] sdnv_roundtrip [OF at_append [OF a0]]
    by (simp add: decode_claim_def claim_bytes_def add.assoc)
qed

interpretation ext_codec: codec decode_extension ext_bytes "\<lambda>_. True"
  by unfold_locales (auto dest: decode_extension_progress intro: decode_extension_roundtrip)

interpretation claim_codec: codec decode_claim claim_bytes "\<lambda>_. True"
  by unfold_locales (auto dest: decode_claim_progress intro: decode_claim_roundtrip)

section \<open>Well-formed segments\<close>

text \<open>The content a type asks for can be encoded; the decoder takes it back when its claims
  are few enough to be stored.\<close>

definition content_fits :: "u8 \<Rightarrow> segment_content \<Rightarrow> bool" where
  "content_fits type cont = (case cont of
     Data_Seg ds \<Rightarrow> is_data type \<and> unat (ds_length ds) = length (ds_data ds)
       \<and> (if has_checkpoint type
          then ds_checkpoint_serial ds \<noteq> None \<and> ds_report_serial ds \<noteq> None
          else ds_checkpoint_serial ds = None \<and> ds_report_serial ds = None)
   | Report_Seg rs \<Rightarrow> type = REPORT_SEGMENT
   | Rpt_Ack ra \<Rightarrow> type = REPORT_ACK
   | Cancel_Seg cc \<Rightarrow> type = CANCEL_BY_SENDER \<or> type = CANCEL_BY_RECEIVER
       \<or> (type = CANCEL_ACK_TO_SENDER \<or> type = CANCEL_ACK_TO_RECEIVER) \<and> reason_code cc = 0)"

definition content_wf :: "u8 \<Rightarrow> segment_content \<Rightarrow> bool" where
  "content_wf type cont \<longleftrightarrow> content_fits type cont
     \<and> (\<forall>rs. cont = Report_Seg rs \<longrightarrow> 16 * length (rs_claims rs) < ALLOC_LIMIT)"

lemma content_wf_cases:
  "content_wf type cont \<longleftrightarrow> (case cont of
     Report_Seg rs \<Rightarrow> type = REPORT_SEGMENT \<and> 16 * length (rs_claims rs) < ALLOC_LIMIT
   | _ \<Rightarrow> content_fits type cont)"
  by (auto simp: content_wf_def content_fits_def split: segment_content.split)

definition segment_fits :: "ltp_segment \<Rightarrow> bool" where
  "segment_fits seg \<longleftrightarrow>
     version seg = 0 \<and> is_valid (segment_type seg)
     \<and> unat (header_ext_count seg) = length (header_extensions seg)
     \<and> unat (trailer_ext_count seg) = length (trailer_extensions seg)
     \<and> content_fits (segment_type seg) (content seg)"

definition segment_wf :: "ltp_segment \<Rightarrow> bool" where
  "segment_wf seg \<longleftrightarrow>
     version seg = 0 \<and> is_valid (segment_type seg)
     \<and> unat (header_ext_count seg) = length (header_extensions seg)
     \<and> unat (trailer_ext_count seg) = length (trailer_extensions seg)
     \<and> content_wf (segment_type seg) (content seg)"

definition content_bytes :: "u8 \<Rightarrow> segment_content \<Rightarrow> bytes" where
  "content_bytes type cont = (case cont of
     Data_Seg ds \<Rightarrow> sdnv_bytes (client_service_id ds) @ sdnv_bytes (ds_offset ds)
       @ sdnv_bytes (ds_length ds)
       @ (if has_checkpoint type
          then sdnv_bytes (case ds_checkpoint_serial ds of None \<Rightarrow> 0 | Some s \<Rightarrow> s)
             @ sdnv_bytes (case ds_report_serial ds of None \<Rightarrow> 0 | Some s \<Rightarrow> s) else [])
       @ ds_data ds
   | Report_Seg rs \<Rightarrow> sdnv_bytes (rs_report_serial rs) @ sdnv_bytes (rs_checkpoint_serial rs)
       @ sdnv_bytes (rs_upper_bound rs) @ sdnv_bytes (rs_lower_bound rs)
       @ sdnv_bytes (of_nat (length (rs_claims rs))) @ concat (map claim_bytes (rs_claims rs))
   | Rpt_Ack ra \<Rightarrow> sdnv_bytes (ra_report_serial ra)
   | Cancel_Seg cc \<Rightarrow>
       if type = CANCEL_BY_SENDER \<or> type = CANCEL_BY_RECEIVER then [reason_code cc] else [])"

lemma not_data_types [simp]:
  "\<not> is_data REPORT_SEGMENT" "\<not> is_data REPORT_ACK" "\<not> is_data CANCEL_BY_SENDER"
  "\<not> is_data CANCEL_BY_RECEIVER" "\<not> is_data CANCEL_ACK_TO_SENDER"
  "\<not> is_data CANCEL_ACK_TO_RECEIVER"
  by (simp_all add: is_data_def seg_types)

lemma distinct_types [simp]:
  "REPORT_SEGMENT \<noteq> REPORT_ACK" "REPORT_ACK \<noteq> REPORT_SEGMENT"
  "CANCEL_BY_SENDER \<noteq> REPORT_SEGMENT" "CANCEL_BY_SENDER \<noteq> REPORT_ACK"
  "CANCEL_BY_RECEIVER \<noteq> REPORT_SEGMENT" "CANCEL_BY_RECEIVER \<noteq> REPORT_ACK"
  "CANCEL_ACK_TO_SENDER \<noteq> REPORT_SEGMENT" "CANCEL_ACK_TO_SENDER \<noteq> REPORT_ACK"
  "CANCEL_ACK_TO_RECEIVER \<noteq> REPORT_SEGMENT" "CANCEL_ACK_TO_RECEIVER \<noteq> REPORT_ACK"
  "CANCEL_ACK_TO_SENDER \<noteq> CANCEL_BY_SENDER" "CANCEL_ACK_TO_SENDER \<noteq> CANCEL_BY_RECEIVER"
  "CANCEL_ACK_TO_RECEIVER \<noteq> CANCEL_BY_SENDER" "CANCEL_ACK_TO_RECEIVER \<noteq> CANCEL_BY_RECEIVER"
  "CANCEL_BY_SENDER \<noteq> CANCEL_BY_RECEIVER" "CANCEL_BY_RECEIVER \<noteq> CANCEL_BY_SENDER"
  by (simp_all add: seg_types)

lemma encode_content_bytes:
  "content_fits type cont \<Longrightarrow> encode_content type cont out = Inr (out @ content_bytes type cont)"
  by (cases cont)
    (auto simp: encode_content_def content_fits_def content_bytes_def append_sdnv_bytes
      encode_claims_bytes Let_def)

lemma decode_data_roundtrip:
  assumes len: "length data < 2 ^ 63" and wf: "content_wf type (Data_Seg ds)"
    and a: "at data off (content_bytes type (Data_Seg ds) @ rest)"
  shows "decode_content type data off
    = Inr (Data_Seg ds, off + length (content_bytes type (Data_Seg ds)))"
proof -
  obtain csid o' l cs rs d where ds: "ds = \<lparr>client_service_id = csid, ds_offset = o', ds_length = l,
      ds_checkpoint_serial = cs, ds_report_serial = rs, ds_data = d\<rparr>" by (cases ds)
  have dt: "is_data type" and l: "unat l = length d" using wf by (auto simp: content_wf_cases content_fits_def ds)
  let ?cp = "if has_checkpoint type
     then sdnv_bytes (case cs of None \<Rightarrow> 0 | Some s \<Rightarrow> s) @ sdnv_bytes (case rs of None \<Rightarrow> 0 | Some s \<Rightarrow> s)
     else []"
  have a0: "at data off (sdnv_bytes csid @ sdnv_bytes o' @ sdnv_bytes l @ ?cp @ d @ rest)"
    using a by (cases "has_checkpoint type") (simp_all add: content_bytes_def ds)
  note a1 = at_append [OF a0] note a2 = at_append [OF a1] note a3 = at_append [OF a2]
  note a4 = at_append [OF a3]
  note read = read_range_at [OF a4 l]
  note ne = not_exceeds [OF len, of _ l]
  note steps = sdnv_roundtrip [OF a0] sdnv_roundtrip [OF a1] sdnv_roundtrip [OF a2]
  show ?thesis
  proof (cases "has_checkpoint type")
    case True
    then obtain c r where cr: "cs = Some c" "rs = Some r" using wf by (auto simp: content_wf_cases content_fits_def ds)
    have b3: "at data (off + length (sdnv_bytes csid) + length (sdnv_bytes o') + length (sdnv_bytes l))
        (sdnv_bytes c @ sdnv_bytes r @ d @ rest)" using a3 True cr by simp
    show ?thesis
      using steps sdnv_roundtrip [OF b3] sdnv_roundtrip [OF at_append [OF b3]]
        read ne at_bound [OF a4] dt True cr l
      by (simp add: decode_content_def ds content_bytes_def add.assoc)
  next
    case False
    then have cr: "cs = None" "rs = None" using wf by (auto simp: content_wf_cases content_fits_def ds)
    show ?thesis
      using steps read ne at_bound [OF a4] dt False cr l
      by (simp add: decode_content_def ds content_bytes_def add.assoc)
  qed
qed

lemma decode_report_roundtrip:
  assumes len: "length data < 2 ^ 63" and wf: "content_wf type (Report_Seg rs)"
    and a: "at data off (content_bytes type (Report_Seg rs) @ rest)"
  shows "decode_content type data off
    = Inr (Report_Seg rs, off + length (content_bytes type (Report_Seg rs)))"
proof -
  obtain rser cser ub lb cl where rs: "rs = \<lparr>rs_report_serial = rser, rs_checkpoint_serial = cser,
      rs_upper_bound = ub, rs_lower_bound = lb, rs_claims = cl\<rparr>" by (cases rs)
  have a0: "at data off (sdnv_bytes rser @ sdnv_bytes cser @ sdnv_bytes ub @ sdnv_bytes lb
      @ sdnv_bytes (of_nat (length cl)) @ concat (map claim_bytes cl) @ rest)"
    using a by (simp add: content_bytes_def rs)
  note a1 = at_append [OF a0] note a2 = at_append [OF a1] note a3 = at_append [OF a2]
  note a4 = at_append [OF a3] note a5 = at_append [OF a4]
  have mx: "16 * length cl < ALLOC_LIMIT" and ty: "type = REPORT_SEGMENT"
    using wf by (auto simp: content_wf_cases rs)
  then have u: "unat (of_nat (length cl) :: u64) = length cl"
    by (simp add: ALLOC_LIMIT_def unat_of_nat)
  have rv: "reserve_claims (of_nat (length cl)) = Inr ()"
    using mx u by (simp add: reserve_claims_def CLAIMS_MAX_SIZE_def ALLOC_LIMIT_def)
  have "list_all (\<lambda>_. True) cl" by (simp add: list_all_iff)
  note loop = claim_codec.loop_roundtrip [OF this len a5]
  show ?thesis
    using sdnv_roundtrip [OF a0] sdnv_roundtrip [OF a1] sdnv_roundtrip [OF a2]
      sdnv_roundtrip [OF a3] sdnv_roundtrip [OF a4] loop u rv
    by (simp add: decode_content_def ty rs content_bytes_def add.assoc)
qed

lemma decode_content_roundtrip:
  assumes len: "length data < 2 ^ 63" and wf: "content_wf type cont"
    and a: "at data off (content_bytes type cont @ rest)"
  shows "decode_content type data off = Inr (cont, off + length (content_bytes type cont))"
proof (cases cont)
  case (Data_Seg ds)
  then show ?thesis using decode_data_roundtrip assms by simp
next
  case (Report_Seg rs)
  then show ?thesis using decode_report_roundtrip assms by simp
next
  case (Rpt_Ack ra)
  then have "at data off (sdnv_bytes (ra_report_serial ra) @ rest)"
    using a by (simp add: content_bytes_def)
  from sdnv_roundtrip [OF this] Rpt_Ack wf show ?thesis
    by (simp add: decode_content_def content_wf_cases content_fits_def content_bytes_def)
next
  case (Cancel_Seg cc)
  show ?thesis
  proof (cases "type = CANCEL_BY_SENDER \<or> type = CANCEL_BY_RECEIVER")
    case True
    then have "at data off (reason_code cc # rest)" using a Cancel_Seg by (simp add: content_bytes_def)
    from at_less [OF this] at_nth [OF this] True Cancel_Seg show ?thesis
      by (auto simp: decode_content_def content_bytes_def)
  next
    case False
    with Cancel_Seg wf show ?thesis
      by (auto simp: decode_content_def content_bytes_def content_wf_cases content_fits_def intro: cancel_content.equality)
  qed
qed

section \<open>Whole segments\<close>

definition segment_bytes :: "ltp_segment \<Rightarrow> bytes" where
  "segment_bytes seg =
     (push_bit 4 (version seg) OR (segment_type seg AND 0x0F))
     # sdnv_bytes (seg_engine_id seg) @ sdnv_bytes (seg_session_number seg)
     @ [header_ext_count seg, trailer_ext_count seg]
     @ concat (map ext_bytes (header_extensions seg))
     @ content_bytes (segment_type seg) (content seg)
     @ concat (map ext_bytes (trailer_extensions seg))"

lemma segment_wf_fits: "segment_wf seg \<Longrightarrow> segment_fits seg"
  by (simp add: segment_wf_def segment_fits_def content_wf_def)

lemma segment_fits_encode: "segment_fits seg \<Longrightarrow> segment_encode seg = Inr (segment_bytes seg)"
  by (simp add: segment_encode_def segment_fits_def Let_def append_sdnv_bytes
      encode_extensions_bytes encode_content_bytes segment_bytes_def)

lemmas segment_encode_bytes = segment_fits_encode [OF segment_wf_fits]

lemma is_valid_less: "is_valid t \<Longrightarrow> unat t < 16"
  by (auto simp: is_valid_def)

lemma control_byte:
  assumes "is_valid t"
  shows "t AND 0x0F = t" "drop_bit 4 t AND 0x0F = 0"
proof -
  show "t AND 0x0F = t" using assms by (auto simp: is_valid_def)
  show "drop_bit 4 t AND 0x0F = 0" using assms by (auto simp: is_valid_def)
qed

lemma decode_extensions_roundtrip:
  assumes "unat count = length exts" "length data < 2 ^ 63"
    "at data off (concat (map ext_bytes exts) @ rest)"
  shows "decode_extensions data off count
    = Inr (exts, off + length (concat (map ext_bytes exts)))"
  using ext_codec.loop_roundtrip [OF _ assms(2,3)] assms(1)
  by (simp add: decode_extensions_def list_all_iff)

lemma decode_body_roundtrip:
  assumes wf: "segment_wf seg" and len: "length data < 2 ^ 63"
    and a: "at data 0 (segment_bytes seg @ rest)"
  shows "decode_body data = Inr seg"
proof -
  let ?t = "segment_type seg" and ?h = "header_extensions seg" and ?x = "trailer_extensions seg"
  have v: "version seg = 0" "is_valid ?t" and cw: "content_wf ?t (content seg)"
    and hc: "unat (header_ext_count seg) = length ?h"
    and tc: "unat (trailer_ext_count seg) = length ?x"
    using wf by (auto simp: segment_wf_def)
  have a0: "at data 0 (?t # sdnv_bytes (seg_engine_id seg) @ sdnv_bytes (seg_session_number seg)
      @ header_ext_count seg # trailer_ext_count seg # concat (map ext_bytes ?h)
      @ content_bytes ?t (content seg) @ concat (map ext_bytes ?x) @ rest)"
    using a v by (simp add: segment_bytes_def control_byte)
  note a1 = at_Suc [OF a0] note a2 = at_append [OF a1] note a3 = at_append [OF a2]
  note a4 = at_Suc [OF a3] note a5 = at_Suc [OF a4]
  note h = decode_extensions_roundtrip [OF hc len a5] note a6 = at_append [OF a5]
  note c = decode_content_roundtrip [OF len cw a6] note a7 = at_append [OF a6]
  note x = decode_extensions_roundtrip [OF tc len a7]
  show ?thesis
    using at_nth [OF a0] v sdnv_roundtrip [OF a1] sdnv_roundtrip [OF a2] at_nth [OF a3]
      at_nth [OF a4] at_less [OF a4] h c x
    by (simp add: decode_body_def Let_def control_byte catch_runtime_def)
qed

lemma segment_decode_bytes:
  assumes "segment_wf seg" "length (segment_bytes seg @ rest) < 2 ^ 63"
  shows "segment_decode (segment_bytes seg @ rest) = Inr (Some seg)"
  using decode_body_roundtrip [OF assms at_start]
  by (simp add: segment_decode_def segment_bytes_def)

section \<open>What the decoder returns\<close>

lemma decode_extensions_length:
  "decode_extensions data off count = Inr (exts, off') \<Longrightarrow> unat count = length exts"
  by (auto simp: decode_extensions_def dest: decode_n_length)

lemma catch_runtime_Inr [simp]: "catch_runtime r = Inr x \<longleftrightarrow> r = Inr x"
  by (auto simp: catch_runtime_def split: sum.splits cxx_error.splits)

lemma catch_runtime_Inl:
  "catch_runtime r = Inl e \<Longrightarrow> r = Inl e \<and> e \<noteq> Runtime_Error \<or> r = Inl Runtime_Error \<and> e = Malformed"
  by (auto simp: catch_runtime_def split: sum.splits cxx_error.splits)

lemma decode_content_wf:
  "decode_content type data off = Inr (cont, off') \<Longrightarrow> content_wf type cont"
  by (auto simp: decode_content_def rbind_eq_Inr content_wf_cases content_fits_def reserve_claims_def not_le
      dest!: read_range_length decode_n_length split: if_splits)

lemma decode_body_wf: "decode_body data = Inr seg \<Longrightarrow> segment_wf seg"
  by (auto simp: decode_body_def Let_def rbind_eq_Inr segment_wf_def
      dest!: decode_extensions_length decode_content_wf split: if_splits)

lemma segment_decode_wf: "segment_decode data = Inr (Some seg) \<Longrightarrow> segment_wf seg"
  by (auto simp: segment_decode_def dest!: decode_body_wf split: if_splits sum.splits cxx_error.splits)

lemma decode_extension_error:
  "decode_extension data off = Inl e \<Longrightarrow> e = Malformed \<or> e = Undefined_Behaviour"
  by (auto simp: decode_extension_def Let_def rbind_eq_Inl read_range_def
      split: if_splits sum.splits)

lemma decode_extensions_error:
  "decode_extensions data off count = Inl e \<Longrightarrow> e = Malformed \<or> e = Undefined_Behaviour"
  using decode_n_error [of decode_extension data "{Malformed, Undefined_Behaviour}"]
    decode_extension_error by (fastforce simp: decode_extensions_def)

lemma decode_claim_error: "decode_claim data off = Inl e \<Longrightarrow> e = Runtime_Error"
  by (auto simp: decode_claim_def rbind_eq_Inl dest: sdnv_decode_error)

lemma decode_content_error:
  "decode_content type data off = Inl e
   \<Longrightarrow> e \<in> {Malformed, Runtime_Error, Length_Error, Bad_Alloc, Undefined_Behaviour}"
  using decode_n_error [of decode_claim data "{Runtime_Error}"] decode_claim_error
  by (auto simp: decode_content_def rbind_eq_Inl read_range_def reserve_claims_def
      dest!: sdnv_decode_error split: if_splits)

lemma decode_body_error:
  "decode_body data = Inl e \<Longrightarrow> e \<in> {Malformed, Length_Error, Bad_Alloc, Undefined_Behaviour}"
  by (fastforce simp: decode_body_def Let_def rbind_eq_Inl
      dest!: catch_runtime_Inl sdnv_decode_error decode_content_error decode_extensions_error
      split: if_splits)

section \<open>Properties\<close>

text \<open>C21. Any well-formed segment survives the wire: the decoder returns exactly the segment
  that was encoded, also when bytes follow it in the buffer (buffers below 2^63 bytes, the
  most a \<open>std::vector\<close> holds).\<close>

theorem segment_decode_encode:
  assumes "segment_wf seg" "segment_encode seg = Inr bs" "length bs + length rest < 2 ^ 63"
  shows "segment_decode (bs @ rest) = Inr (Some seg)"
  using assms segment_decode_bytes [of seg rest] by (simp add: segment_encode_bytes)

lemma sdnv_bytes_small: "unat v < 128 \<Longrightarrow> sdnv_bytes v = [of_nat (unat v)]"
  by (simp add: sdnv_bytes_def)

definition sample_report :: ltp_segment where
  "sample_report = \<lparr>version = 0, segment_type = 6, seg_engine_id = 1, seg_session_number = 2,
     header_ext_count = 1, trailer_ext_count = 0,
     header_extensions = [\<lparr>ext_tag = 192, ext_value = [7, 8]\<rparr>], trailer_extensions = [],
     content = Report_Seg \<lparr>rs_report_serial = 1, rs_checkpoint_serial = 1, rs_upper_bound = 9,
       rs_lower_bound = 0, rs_claims = [\<lparr>claim_offset = 0, claim_length = 5\<rparr>]\<rparr>\<rparr>"

lemma sample_report_wf: "segment_wf sample_report"
  by (simp add: sample_report_def segment_wf_def content_wf_cases is_valid_def seg_types
      ALLOC_LIMIT_def)

lemma sample_report_bytes:
  "segment_encode sample_report = Inr [6, 1, 2, 1, 0, 192, 2, 7, 8, 1, 1, 9, 0, 1, 0, 5]"
  unfolding segment_encode_bytes [OF sample_report_wf]
  by (simp add: sample_report_def segment_bytes_def ext_bytes_def claim_bytes_def
      content_bytes_def sdnv_bytes_small)

theorem segment_decode_encode_witness:
  "segment_decode ([6, 1, 2, 1, 0, 192, 2, 7, 8, 1, 1, 9, 0, 1, 0, 5] @ [255]) = Inr (Some sample_report)"
  by (rule segment_decode_encode [OF sample_report_wf sample_report_bytes]) simp

text \<open>Whatever the decoder accepts is well formed: version 0, a known type, as many
  extensions as the counts say, content of the alternative the type requires with the declared
  number of data bytes; so it can be encoded again and decodes to itself.\<close>

theorem segment_decode_canonical:
  assumes "segment_decode data = Inr (Some seg)"
  shows "segment_wf seg \<and> (\<exists>bs. segment_encode seg = Inr bs
      \<and> (length bs < 2 ^ 63 \<longrightarrow> segment_decode bs = Inr (Some seg)))"
  using segment_decode_wf [OF assms] segment_decode_bytes [of seg "[]"]
  by (simp add: segment_encode_bytes)

definition ack_bytes :: bytes where
  "ack_bytes = [7, 1, 2, 0, 0, 9, 99]"

definition sample_ack :: ltp_segment where
  "sample_ack = \<lparr>version = 0, segment_type = 7, seg_engine_id = 1, seg_session_number = 2,
     header_ext_count = 0, trailer_ext_count = 0, header_extensions = [],
     trailer_extensions = [], content = Rpt_Ack \<lparr>ra_report_serial = 9\<rparr>\<rparr>"

lemmas decode_eval =
  segment_decode_def decode_body_def sdnv_decode_def decode_loop.simps MAX_BYTES_def is_valid_def
  catch_runtime_def decode_extensions_def decode_content_def seg_preds exceeds_def read_range_def
  seg_types reserve_claims_def CLAIMS_MAX_SIZE_def ALLOC_LIMIT_def Let_def

lemma ack_decodes: "segment_decode ack_bytes = Inr (Some sample_ack)"
  by (simp add: ack_bytes_def sample_ack_def decode_eval)

theorem segment_decode_canonical_witness:
  "segment_decode ack_bytes = Inr (Some sample_ack) \<and> segment_wf sample_ack"
  using segment_decode_canonical [OF ack_decodes] ack_decodes by simp

text \<open>C23. On any bytes the decoder either returns (a segment or \<open>nullopt\<close>), or lets a
  \<open>std::length_error\<close> or a \<open>std::bad_alloc\<close> of the claims' \<open>reserve\<close> escape, or runs
  into undefined behaviour: no \<open>std::runtime_error\<close> of the number decoder leaves it.\<close>

theorem segment_decode_outcomes:
  "(\<exists>s. segment_decode data = Inr s)
   \<or> segment_decode data = Inl Length_Error \<or> segment_decode data = Inl Bad_Alloc
   \<or> segment_decode data = Inl Undefined_Behaviour"
  using decode_body_error [of data]
  by (auto simp: segment_decode_def split: sum.splits cxx_error.splits)

definition huge_length_segment :: bytes where
  "huge_length_segment =
    [0, 1, 1, 0, 0, 1, 0, 0x81, 0xFF, 0xFF, 0xFF, 0xFF, 0xFF, 0xFF, 0xFF, 0xFF, 0x7F]"

definition huge_claim_count_segment :: bytes where
  "huge_claim_count_segment =
    [6, 1, 1, 0, 0, 1, 1, 0, 0, 0x90, 0x80, 0x80, 0x80, 0x80, 0x80, 0x80, 0x80, 0]"

definition many_claims_segment :: bytes where
  "many_claims_segment =
    [6, 1, 1, 0, 0, 1, 1, 0, 0, 0x84, 0x80, 0x80, 0x80, 0x80, 0x80, 0x80, 0x80, 0]"

text \<open>All bad outcomes are reachable from the wire. A 17-byte red data segment that
  declares \<open>2^64 - 1\<close> data bytes passes the wrapping check \<open>offset + length > size\<close> and is
  copied from beyond its buffer; an 18-byte report that declares \<open>2^60\<close> claims makes
  \<open>reserve\<close> throw \<open>length_error\<close>, which the decoder does not catch, and one that declares \<open>2^58\<close> of
  them makes it throw \<open>bad_alloc\<close>.\<close>

theorem segment_decode_hostile:
  "segment_decode huge_length_segment = Inl Undefined_Behaviour
   \<and> segment_decode huge_claim_count_segment = Inl Length_Error
   \<and> segment_decode many_claims_segment = Inl Bad_Alloc"
  by (simp add: many_claims_segment_def huge_length_segment_def huge_claim_count_segment_def decode_eval)

end
