(* ===== verification/Tracker.thy ===== *)
theory Tracker
  imports Segment
begin

text \<open>
  The reception tracker, \<^verbatim>\<open>src/ltp_cla/reception_tracker.cpp\<close>: a list of byte
  ranges kept sorted, disjoint and non-adjacent. The lists denote sets of byte positions;
  insertion is union, completeness is inclusion, the gaps are the difference.
\<close>

section \<open>The code\<close>

type_synonym ranges = "reception_claim list"

definition claim_end :: "reception_claim \<Rightarrow> u64" where
  "claim_end r = claim_offset r + claim_length r"

fun merge_ranges :: "u64 \<Rightarrow> u64 \<Rightarrow> ranges \<Rightarrow> u64 \<times> u64 \<times> ranges" where
  "merge_ranges new_start new_end [] = (new_start, new_end, [])"
| "merge_ranges new_start new_end (r # rs) =
     (if claim_offset r \<le> new_end
      then merge_ranges (min new_start (claim_offset r)) (max new_end (claim_end r)) rs
      else (new_start, new_end, r # rs))"

definition add_range :: "ranges \<Rightarrow> u64 \<Rightarrow> u64 \<Rightarrow> ranges" where
  "add_range ranges offset len =
    (if len = 0 then ranges
     else
       let new_start = offset;
           new_end = offset + len;
           skipped = takeWhile (\<lambda>r. claim_end r < new_start) ranges;
           rest = dropWhile (\<lambda>r. claim_end r < new_start) ranges;
           (new_start, new_end, rest) = merge_ranges new_start new_end rest
       in skipped @ \<lparr>claim_offset = new_start, claim_length = new_end - new_start\<rparr> # rest)"

definition is_complete :: "ranges \<Rightarrow> u64 \<Rightarrow> bool" where
  "is_complete ranges total_length =
    (if total_length = 0 then True
     else if ranges = [] then False
     else length ranges = 1 \<and> claim_offset (ranges ! 0) = 0
          \<and> claim_length (ranges ! 0) \<ge> total_length)"

fun gaps_loop :: "u64 \<Rightarrow> u64 \<Rightarrow> ranges \<Rightarrow> ranges \<Rightarrow> ranges \<times> u64" where
  "gaps_loop cursor upper gaps [] = (gaps, cursor)"
| "gaps_loop cursor upper gaps (r # rs) =
     (if cursor \<ge> upper then (gaps, cursor)
      else
        let r_end = claim_end r
        in if r_end \<le> cursor then gaps_loop cursor upper gaps rs
           else
             let gaps = (if claim_offset r > cursor
                   then let gap_end = min (claim_offset r) upper
                        in gaps @ [\<lparr>claim_offset = cursor, claim_length = gap_end - cursor\<rparr>]
                   else gaps)
             in gaps_loop (max cursor r_end) upper gaps rs)"

definition finish_gaps :: "u64 \<Rightarrow> ranges \<times> u64 \<Rightarrow> ranges" where
  "finish_gaps upper gc = (case gc of (gaps, cursor) \<Rightarrow>
     if cursor < upper
     then gaps @ [\<lparr>claim_offset = cursor, claim_length = upper - cursor\<rparr>] else gaps)"

definition get_gaps :: "ranges \<Rightarrow> u64 \<Rightarrow> u64 \<Rightarrow> ranges" where
  "get_gaps ranges lower upper =
    (if lower \<ge> upper then [] else finish_gaps upper (gaps_loop lower upper [] ranges))"

definition total_received :: "ranges \<Rightarrow> u64" where
  "total_received ranges = foldl (\<lambda>total r. total + claim_length r) 0 ranges"

definition tracker_clear :: "ranges \<Rightarrow> ranges" where
  "tracker_clear ranges = []"

section \<open>Ranges as sets of byte positions\<close>

definition claim_set :: "reception_claim \<Rightarrow> nat set" where
  "claim_set r = {unat (claim_offset r) ..< unat (claim_offset r) + unat (claim_length r)}"

definition covered :: "ranges \<Rightarrow> nat set" where
  "covered rs = (\<Union>r \<in> set rs. claim_set r)"

lemma covered_simps [simp]:
  "covered [] = {}"
  "covered (r # rs) = claim_set r \<union> covered rs"
  "covered (rs @ qs) = covered rs \<union> covered qs"
  by (auto simp: covered_def)

text \<open>A range that does not wrap and is not empty.\<close>

definition range_ok :: "reception_claim \<Rightarrow> bool" where
  "range_ok r \<longleftrightarrow> claim_length r \<noteq> 0 \<and> unat (claim_offset r) + unat (claim_length r) < 2 ^ 64"

fun tracker_inv :: "ranges \<Rightarrow> bool" where
  "tracker_inv [] = True"
| "tracker_inv [r] = range_ok r"
| "tracker_inv (r # q # rs) = (range_ok r \<and> claim_end r < claim_offset q \<and> tracker_inv (q # rs))"

lemma tracker_inv_tl: "tracker_inv (r # rs) \<Longrightarrow> range_ok r \<and> tracker_inv rs"
  by (cases rs) auto

lemma unat_claim_end: "range_ok r \<Longrightarrow> unat (claim_end r) = unat (claim_offset r) + unat (claim_length r)"
  by (simp add: range_ok_def claim_end_def unat_plus_no_wrap)

lemma claim_set_ok: "range_ok r \<Longrightarrow> claim_set r = {unat (claim_offset r) ..< unat (claim_end r)}"
  by (simp add: claim_set_def unat_claim_end)

lemma range_ok_less: "range_ok r \<Longrightarrow> unat (claim_offset r) < unat (claim_end r)"
  by (simp add: unat_claim_end) (simp add: range_ok_def unat_gt_0)

lemma tracker_inv_above:
  "tracker_inv (r # rs) \<Longrightarrow> q \<in> set rs \<Longrightarrow> claim_end r < claim_offset q"
proof (induction rs arbitrary: r)
  case (Cons p rs)
  then have rp: "claim_end r < claim_offset p" and p: "tracker_inv (p # rs)" by auto
  show ?case
  proof (cases "q = p")
    case False
    with Cons have "claim_end p < claim_offset q" using p by simp
    moreover have "claim_offset p < claim_end p"
      using range_ok_less tracker_inv_tl [OF p] by (simp add: word_less_nat_alt)
    ultimately show ?thesis using rp by order
  qed (use rp in simp)
qed simp

lemma tracker_inv_iff:
  "tracker_inv (r # rs) \<longleftrightarrow>
     range_ok r \<and> tracker_inv rs \<and> (\<forall>q \<in> set rs. claim_end r < claim_offset q)"
proof
  assume "tracker_inv (r # rs)"
  then show "range_ok r \<and> tracker_inv rs \<and> (\<forall>q \<in> set rs. claim_end r < claim_offset q)"
    using tracker_inv_above tracker_inv_tl by blast
qed (cases rs, auto)

lemma tracker_inv_append:
  "tracker_inv (rs @ qs) \<longleftrightarrow> tracker_inv rs \<and> tracker_inv qs
     \<and> (\<forall>r \<in> set rs. \<forall>q \<in> set qs. claim_end r < claim_offset q)"
  by (induction rs) (auto simp: tracker_inv_iff simp del: tracker_inv.simps(2,3))

lemma tracker_inv_range_ok: "tracker_inv rs \<Longrightarrow> r \<in> set rs \<Longrightarrow> range_ok r"
  by (induction rs) (auto simp: tracker_inv_iff simp del: tracker_inv.simps(2,3))

section \<open>Insertion is union\<close>

lemma merge_ranges_spec:
  assumes "tracker_inv rs" "ns < ne" "\<forall>r \<in> set rs. ns \<le> claim_end r"
    "merge_ranges ns ne rs = (s, e, rest)"
  shows "tracker_inv rest \<and> (\<forall>q \<in> set rest. e < claim_offset q) \<and> s < e
    \<and> {unat s ..< unat e} \<union> covered rest = {unat ns ..< unat ne} \<union> covered rs
    \<and> (\<forall>x. x < ns \<and> (\<forall>q \<in> set rs. x < claim_offset q) \<longrightarrow> x < s)"
  using assms
proof (induction ns ne rs rule: merge_ranges.induct)
  case (2 ns ne r rs)
  have r: "range_ok r" and rs: "tracker_inv rs" and ab: "\<forall>q \<in> set rs. claim_end r < claim_offset q"
    using "2.prems"(1) unfolding tracker_inv_iff by blast+
  have ne: "unat ns \<le> unat (claim_end r)" "unat ns < unat ne"
    using "2.prems" by (auto simp: word_le_nat_alt word_less_nat_alt)
  show ?case
  proof (cases "claim_offset r \<le> ne")
    case True
    let ?s = "min ns (claim_offset r)" and ?e = "max ne (claim_end r)"
    have "?s < ?e" using "2.prems"(2)
      by (simp add: min_less_iff_disj less_max_iff_disj)
    moreover have "\<forall>q \<in> set rs. ?s \<le> claim_end q" using "2.prems"(3) by (auto simp: min_def)
    ultimately have ih: "tracker_inv rest \<and> (\<forall>q \<in> set rest. e < claim_offset q) \<and> s < e
      \<and> {unat s ..< unat e} \<union> covered rest = {unat ?s ..< unat ?e} \<union> covered rs
      \<and> (\<forall>x. x < ?s \<and> (\<forall>q \<in> set rs. x < claim_offset q) \<longrightarrow> x < s)"
      using "2.IH" True rs "2.prems"(4) by simp
    have "{unat ?s ..< unat ?e} = {unat ns ..< unat ne} \<union> claim_set r"
      using ne True range_ok_less [OF r]
      by (auto simp: claim_set_ok r min_word_unat max_word_unat word_le_nat_alt)
    with ih show ?thesis by auto
  next
    case False
    have "ne < claim_offset q" if "q \<in> set rs" for q
    proof -
      have "claim_end r < claim_offset q" using ab that by blast
      moreover have "claim_offset r < claim_end r"
        using range_ok_less [OF r] by (simp add: word_less_nat_alt)
      ultimately show ?thesis using False by order
    qed
    with False "2.prems" show ?thesis by auto
  qed
qed auto

lemma dropWhile_ends:
  "tracker_inv rs \<Longrightarrow> q \<in> set (dropWhile (\<lambda>r. claim_end r < x) rs) \<Longrightarrow> x \<le> claim_end q"
proof (induction rs)
  case (Cons r rs)
  have rs: "tracker_inv rs" and ab: "\<forall>q \<in> set rs. claim_end r < claim_offset q"
    using Cons.prems(1) unfolding tracker_inv_iff by blast+
  show ?case
  proof (cases "claim_end r < x \<or> q = r")
    case True
    then show ?thesis using Cons.IH rs Cons.prems(2) by (auto split: if_splits)
  next
    case False
    then have q: "q \<in> set rs" and x: "x \<le> claim_end r" using Cons.prems(2) by auto
    have "claim_offset q < claim_end q"
      using range_ok_less tracker_inv_range_ok [OF rs q] by (simp add: word_less_nat_alt)
    moreover have "claim_end r < claim_offset q" using ab q by blast
    ultimately show ?thesis using x by order
  qed
qed simp

lemma add_range_step:
  assumes inv: "tracker_inv rs" and nz: "len \<noteq> 0" and fits: "unat off + unat len < 2 ^ 64"
  shows "tracker_inv (add_range rs off len)
    \<and> covered (add_range rs off len) = covered rs \<union> {unat off ..< unat off + unat len}"
proof -
  let ?P = "\<lambda>r. claim_end r < off"
  let ?k = "takeWhile ?P rs" and ?d = "dropWhile ?P rs"
  obtain s e rest where m: "merge_ranges off (off + len) ?d = (s, e, rest)"
    using prod_cases3 by blast
  have end_nat: "unat (off + len) = unat off + unat len" using fits by (rule unat_plus_no_wrap)
  have lt: "off < off + len"
    using nz end_nat by (simp add: word_less_nat_alt unat_gt_0)
  have split: "tracker_inv (?k @ ?d)" using inv by simp
  then have k: "tracker_inv ?k" and d: "tracker_inv ?d"
    and kd: "\<forall>r \<in> set ?k. \<forall>q \<in> set ?d. claim_end r < claim_offset q"
    unfolding tracker_inv_append by blast+
  have "\<forall>r \<in> set ?d. off \<le> claim_end r" using dropWhile_ends inv by blast
  note M = merge_ranges_spec [OF d lt this m]
  let ?n = "\<lparr>claim_offset = s, claim_length = e - s\<rparr>"
  have ks: "\<forall>r \<in> set ?k. claim_end r < s"
  proof
    fix r assume r: "r \<in> set ?k"
    then have "claim_end r < off" using set_takeWhileD by fast
    with M kd r show "claim_end r < s" by blast
  qed
  have se: "s < e" using M by blast
  then have n: "range_ok ?n" "claim_end ?n = e"
    using unsigned_less [of e, where ?'a = nat]
    by (auto simp: range_ok_def claim_end_def unat_sub word_less_nat_alt word_le_nat_alt)
  have "claim_end r < claim_offset q" if "r \<in> set ?k" "q \<in> set rest" for r q
  proof -
    have "claim_end r < s" "s < e" "e < claim_offset q" using ks M that by blast+
    then show ?thesis by order
  qed
  then have "tracker_inv (?k @ ?n # rest)"
    unfolding tracker_inv_append tracker_inv_iff [of ?n rest]
    using k M n ks by auto
  moreover have "covered (?k @ ?n # rest) = covered ?k \<union> ({unat s ..< unat e} \<union> covered rest)"
    using claim_set_ok [OF n(1)] n(2) by simp
  moreover have "{unat s ..< unat e} \<union> covered rest
      = {unat off ..< unat off + unat len} \<union> covered ?d"
    using M end_nat by simp
  moreover have "covered rs = covered ?k \<union> covered ?d" by (simp flip: covered_simps(3))
  ultimately show ?thesis using nz m by (auto simp: add_range_def)
qed

lemma add_range_inv [inv_rules]:
  "tracker_inv rs \<Longrightarrow> unat off + unat len < 2 ^ 64 \<Longrightarrow> tracker_inv (add_range rs off len)"
  using add_range_step [of rs len off] by (cases "len = 0") (simp_all add: add_range_def)

lemma covered_add_range:
  "tracker_inv rs \<Longrightarrow> unat off + unat len < 2 ^ 64
   \<Longrightarrow> covered (add_range rs off len) = covered rs \<union> {unat off ..< unat off + unat len}"
  using add_range_step [of rs len off] by (cases "len = 0") (simp_all add: add_range_def)

section \<open>Completeness, gaps and totals\<close>

lemma covered_above: "tracker_inv rs \<Longrightarrow> \<forall>r \<in> set rs. x < claim_offset r \<Longrightarrow> n \<le> unat x \<Longrightarrow> n \<notin> covered rs"
  by (fastforce simp: covered_def claim_set_def word_less_nat_alt)

lemma is_complete_iff:
  assumes "tracker_inv rs"
  shows "is_complete rs n \<longleftrightarrow> n = 0 \<or> (\<exists>m \<ge> unat n. covered rs = {0 ..< m})"
proof (cases "n = 0 \<or> rs = []")
  case True
  then show ?thesis by (auto simp: is_complete_def unat_eq_0 not_less)
next
  case False
  then obtain r qs where Cons: "rs = r # qs" by (cases rs) auto
  have r: "range_ok r" and qs: "tracker_inv qs" and ab: "\<forall>q \<in> set qs. claim_end r < claim_offset q"
    using assms unfolding Cons tracker_inv_iff by blast+
  have le: "unat (claim_end r) = unat (claim_offset r) + unat (claim_length r)"
    using r by (rule unat_claim_end)
  show ?thesis
  proof
    assume "is_complete rs n"
    then show "n = 0 \<or> (\<exists>m \<ge> unat n. covered rs = {0 ..< m})" using False
      by (auto simp: is_complete_def Cons claim_set_def word_le_nat_alt)
  next
    assume "n = 0 \<or> (\<exists>m \<ge> unat n. covered rs = {0 ..< m})"
    then obtain m where m: "unat n \<le> m" "covered rs = {0 ..< m}" using False by auto
    have out: "unat (claim_end r) \<notin> covered rs"
      using covered_above [OF qs ab] by (simp add: Cons claim_set_ok [OF r])
    have "unat (claim_offset r) \<in> covered rs"
      using range_ok_less [OF r] by (simp add: Cons claim_set_ok [OF r])
    then have "0 \<in> covered rs" using m by auto
    moreover have "0 \<notin> covered qs"
      using ab by (auto simp: covered_def claim_set_def word_less_nat_alt)
    ultimately have o: "claim_offset r = 0" by (simp add: Cons claim_set_def unat_eq_0)
    have e: "m \<le> unat (claim_end r)" using out m by auto
    have "qs = []"
    proof (rule ccontr)
      assume "qs \<noteq> []"
      then obtain q where q: "q \<in> set qs" by (cases qs) auto
      then have "unat (claim_offset q) \<in> covered rs"
        using range_ok_less [of q] tracker_inv_range_ok [OF qs q]
        by (force simp: Cons covered_def claim_set_ok)
      moreover have "unat (claim_end r) < unat (claim_offset q)"
        using ab q by (simp add: word_less_nat_alt)
      ultimately show False using m e by auto
    qed
    with o e m le show "is_complete rs n"
      by (simp add: is_complete_def Cons word_le_nat_alt)
  qed
qed

text \<open>The gap scan appends to the gaps it was given, so it can be read with none.\<close>

abbreviation scan :: "u64 \<Rightarrow> u64 \<Rightarrow> ranges \<Rightarrow> ranges" where
  "scan cursor upper rs \<equiv> finish_gaps upper (gaps_loop cursor upper [] rs)"

lemma gaps_loop_append:
  "gaps_loop c u gs rs = (gs @ fst (gaps_loop c u [] rs), snd (gaps_loop c u [] rs))"
proof (induction rs arbitrary: c gs)
  case (Cons r rs)
  let ?m = "claim_end r"
  let ?g = "\<lparr>claim_offset = c, claim_length = min (claim_offset r) u - c\<rparr>"
  show ?case
    using Cons.IH [of c gs] Cons.IH [of ?m "gs @ [?g]"] Cons.IH [of ?m "[?g]"]
      Cons.IH [of ?m gs]
    by (simp add: Let_def)
qed simp

lemma scan_append: "finish_gaps u (gaps_loop c u gs rs) = gs @ scan c u rs"
  by (subst gaps_loop_append) (simp add: finish_gaps_def split: prod.splits)

lemma scan_done: "upper \<le> c \<Longrightarrow> scan c upper rs = []"
  by (cases rs) (simp_all add: finish_gaps_def)

lemma scan_spec:
  assumes "tracker_inv rs"
  shows "tracker_inv (scan c u rs) \<and> (\<forall>g \<in> set (scan c u rs). c \<le> claim_offset g)
    \<and> covered (scan c u rs) = {unat c ..< unat u} - covered rs"
  using assms
proof (induction rs arbitrary: c)
  case Nil
  have "unat u < 2 ^ 64" using unsigned_less [of u, where ?'a = nat] by simp
  then show ?case
    by (auto simp: finish_gaps_def range_ok_def claim_set_def unat_sub word_less_nat_alt
        word_le_nat_alt)
next
  case (Cons r rs)
  have r: "range_ok r" and rs: "tracker_inv rs" and ab: "\<forall>q \<in> set rs. claim_end r < claim_offset q"
    using Cons.prems unfolding tracker_inv_iff by blast+
  note cs = claim_set_ok [OF r] and lt = range_ok_less [OF r]
  note IH = Cons.IH [OF rs]
  show ?case
  proof (cases "u \<le> c")
    case True
    then show ?thesis by (simp add: scan_done word_le_nat_alt del: gaps_loop.simps)
  next
    case False
    show ?thesis
    proof (cases "claim_end r \<le> c")
      case True
      then have "scan c u (r # rs) = scan c u rs" using False by simp
      with IH [of c] True show ?thesis by (auto simp: cs word_le_nat_alt)
    next
      case ne: False
      let ?g = "\<lparr>claim_offset = c, claim_length = min (claim_offset r) u - c\<rparr>"
      let ?m = "max c (claim_end r)"
      have m: "?m = claim_end r" using ne by (auto simp: max_def)
      show ?thesis
      proof (cases "c < claim_offset r")
        case True
        let ?G = "scan (claim_end r) u rs"
        have eq: "scan c u (r # rs) = ?g # ?G"
          using True False ne m by (simp add: Let_def scan_append [of _ _ "[?g]"])
        have ge: "claim_end ?g = min (claim_offset r) u" by (simp add: claim_end_def)
        have g: "range_ok ?g"
          using True False unsigned_less [of "min (claim_offset r) u", where ?'a = nat]
          by (auto simp: range_ok_def unat_sub word_less_nat_alt word_le_nat_alt not_le min_word_unat)
        have gs: "claim_set ?g = {unat c ..< min (unat (claim_offset r)) (unat u)}"
          using claim_set_ok [OF g] ge by (simp add: min_word_unat)
        have lo: "claim_offset r < claim_end r" using lt by (simp add: word_less_nat_alt)
        have G: "tracker_inv ?G" "\<forall>g \<in> set ?G. claim_end r \<le> claim_offset g"
          "covered ?G = {unat (claim_end r) ..< unat u} - covered rs"
          using IH [of "claim_end r"] by blast+
        have "\<forall>x \<in> set ?G. claim_end ?g < claim_offset x"
          using G(2) lo unfolding ge by (auto simp: min_less_iff_disj)
        then have "tracker_inv (?g # ?G)" using g G(1) unfolding tracker_inv_iff by blast
        moreover have "\<forall>x \<in> set (?g # ?G). c \<le> claim_offset x"
          using G(2) ne by (auto simp: not_le)
        moreover have "n \<notin> covered rs" if "n < unat (claim_offset r)" for n
          using covered_above [OF rs ab, of n] that lt by simp
        then have "covered (?g # ?G) = {unat c ..< unat u} - covered (r # rs)"
          using gs G(3) lt ne by (auto simp: cs word_le_nat_alt)
        ultimately show ?thesis unfolding eq by blast
      next
        case ge: False
        have "scan c u (r # rs) = scan ?m u rs"
          using False ne ge by (simp add: Let_def)
        then show ?thesis using IH [of "claim_end r"] ge ne
          by (auto simp: m cs word_le_nat_alt not_less not_le)
      qed
    qed
  qed
qed

lemma tracker_inv_gaps [inv_rules]: "tracker_inv rs \<Longrightarrow> tracker_inv (get_gaps rs lo up)"
  using scan_spec [of rs up lo] by (simp add: get_gaps_def)

lemma covered_gaps: "tracker_inv rs \<Longrightarrow> covered (get_gaps rs lo up) = {unat lo ..< unat up} - covered rs"
  using scan_spec [of rs up lo] by (auto simp: get_gaps_def word_le_nat_alt)

text \<open>Distinct ranges of a tracker are disjoint, so the total is the number of bytes.\<close>

lemma finite_covered [simp]: "finite (covered rs)"
  by (simp add: covered_def claim_set_def)

lemma card_covered: "tracker_inv rs \<Longrightarrow> card (covered rs) = (\<Sum>r\<leftarrow>rs. unat (claim_length r))"
proof (induction rs)
  case (Cons r rs)
  have r: "range_ok r" and rs: "tracker_inv rs" and ab: "\<forall>q \<in> set rs. claim_end r < claim_offset q"
    using Cons.prems unfolding tracker_inv_iff by blast+
  have "claim_set r \<inter> covered rs = {}"
    using covered_above [OF rs ab] by (auto simp: claim_set_ok [OF r])
  then have "card (covered (r # rs)) = card (claim_set r) + card (covered rs)"
    by (simp add: card_Un_disjoint claim_set_def)
  then show ?case using Cons.IH [OF rs] by (simp add: claim_set_def)
qed simp

lemma covered_bounded: "tracker_inv rs \<Longrightarrow> covered rs \<subseteq> {0 ..< 2 ^ 64 - 1}"
  by (auto simp: covered_def claim_set_def range_ok_def dest!: tracker_inv_range_ok)

lemma total_received_nat:
  "unat t + (\<Sum>r\<leftarrow>rs. unat (claim_length r)) < 2 ^ 64
   \<Longrightarrow> unat (foldl (\<lambda>total r. total + claim_length r) t rs) = unat t + (\<Sum>r\<leftarrow>rs. unat (claim_length r))"
proof (induction rs arbitrary: t)
  case (Cons r rs)
  then have "unat (t + claim_length r) = unat t + unat (claim_length r)"
    by (intro unat_plus_no_wrap) simp
  with Cons.IH [of "t + claim_length r"] Cons.prems show ?case by simp
qed simp

lemma total_received_card: "tracker_inv rs \<Longrightarrow> unat (total_received rs) = card (covered rs)"
proof -
  assume inv: "tracker_inv rs"
  have "card (covered rs) \<le> card {0 ..< (2::nat) ^ 64 - 1}"
    using covered_bounded [OF inv] by (intro card_mono) auto
  then show ?thesis
    using total_received_nat [of 0 rs] card_covered [OF inv] by (simp add: total_received_def)
qed

text \<open>A tracker is determined by the set of positions it covers.\<close>

lemma covered_hd:
  assumes "tracker_inv (r # rs)"
  shows "x \<in> covered (r # rs) \<Longrightarrow> unat (claim_offset r) \<le> x"
    and "unat (claim_offset r) \<in> covered (r # rs)"
    and "unat (claim_end r) \<notin> covered (r # rs)"
    and "covered rs = covered (r # rs) - claim_set r"
proof -
  have r: "range_ok r" and rs: "tracker_inv rs" and ab: "\<forall>q \<in> set rs. claim_end r < claim_offset q"
    using assms unfolding tracker_inv_iff by blast+
  have up: "n \<notin> covered rs" if "n \<le> unat (claim_end r)" for n
    using covered_above [OF rs ab that] .
  note lt = range_ok_less [OF r] and cs = claim_set_ok [OF r]
  show "unat (claim_offset r) \<le> x" if "x \<in> covered (r # rs)"
    using that up [of x] lt by (cases "x \<le> unat (claim_end r)") (auto simp: cs)
  show "unat (claim_offset r) \<in> covered (r # rs)" using lt by (simp add: cs)
  show "unat (claim_end r) \<notin> covered (r # rs)" using up by (simp add: cs)
  show "covered rs = covered (r # rs) - claim_set r" using up by (auto simp: cs)
qed

lemma tracker_canonical:
  "tracker_inv rs \<Longrightarrow> tracker_inv qs \<Longrightarrow> covered rs = covered qs \<Longrightarrow> rs = qs"
proof (induction rs arbitrary: qs)
  case Nil
  then show ?case using covered_hd(2) by (cases qs) auto
next
  case (Cons r rs)
  have "covered qs \<noteq> {}" using covered_hd(2) [OF Cons.prems(1)] Cons.prems(3) by blast
  then obtain q qs' where q: "qs = q # qs'" by (cases qs) auto
  note hr = covered_hd [OF Cons.prems(1)]
  note hq = covered_hd [OF Cons.prems(2) [unfolded q]]
  note eq = Cons.prems(3) [unfolded q]
  have ok: "range_ok r" "range_ok q"
    using Cons.prems tracker_inv_tl unfolding q by blast+
  have "unat (claim_offset r) = unat (claim_offset q)"
    by (rule antisym) (use hr(1,2) hq(1,2) eq in auto)
  then have o: "claim_offset r = claim_offset q" by (simp only: word_unat_eq_iff)
  have "unat (claim_end r) = unat (claim_end q)"
  proof (rule antisym; rule ccontr)
    assume "\<not> unat (claim_end r) \<le> unat (claim_end q)"
    then have "unat (claim_end q) \<in> claim_set r"
      using range_ok_less [OF ok(2)] o by (simp add: claim_set_ok ok)
    then show False using hq(3) eq by auto
  next
    assume "\<not> unat (claim_end q) \<le> unat (claim_end r)"
    then have "unat (claim_end r) \<in> claim_set q"
      using range_ok_less [OF ok(1)] o by (simp add: claim_set_ok ok)
    then show False using hr(3) eq by auto
  qed
  then have l: "claim_length r = claim_length q" using o ok by (simp add: unat_claim_end word_unat_eq_iff)
  from o l have rq: "r = q" by simp
  then have "covered rs = covered qs'" using hr(4) hq(4) eq by simp
  then have "rs = qs'" using Cons.IH Cons.prems tracker_inv_tl unfolding q by blast
  with rq q show ?case by simp
qed

section \<open>The contract of a range set\<close>

text \<open>What the engine relies on: insertion is union and keeps the representation invariant.
  The client inserts a whole sequence of segments.\<close>

type_synonym span = "u64 \<times> u64"

definition span_set :: "span \<Rightarrow> nat set" where
  "span_set p = {unat (fst p) ..< unat (fst p) + unat (snd p)}"

definition span_fits :: "span \<Rightarrow> bool" where
  "span_fits p \<longleftrightarrow> unat (fst p) + unat (snd p) < 2 ^ 64"

locale range_set =
  fixes add :: "'s \<Rightarrow> u64 \<Rightarrow> u64 \<Rightarrow> 's" and cov :: "'s \<Rightarrow> nat set" and inv :: "'s \<Rightarrow> bool"
  assumes inv_add: "inv s \<Longrightarrow> span_fits (off, len) \<Longrightarrow> inv (add s off len)"
    and cov_add: "inv s \<Longrightarrow> span_fits (off, len)
      \<Longrightarrow> cov (add s off len) = cov s \<union> span_set (off, len)"
begin

lemma inv_fold:
  "inv s \<Longrightarrow> list_all span_fits ps \<Longrightarrow> inv (fold (\<lambda>(off, len) s. add s off len) ps s)"
  by (induction ps arbitrary: s) (auto simp: inv_add)

lemma cov_fold:
  "inv s \<Longrightarrow> list_all span_fits ps
   \<Longrightarrow> cov (fold (\<lambda>(off, len) s. add s off len) ps s) = cov s \<union> (\<Union>p \<in> set ps. span_set p)"
  by (induction ps arbitrary: s) (auto simp: inv_add cov_add)

end

locale canonical_range_set = range_set +
  assumes canonical: "inv s \<Longrightarrow> inv t \<Longrightarrow> cov s = cov t \<Longrightarrow> s = t"
begin

text \<open>Order and repetition of the insertions do not matter.\<close>

lemma fold_set_cong:
  "inv s \<Longrightarrow> list_all span_fits ps \<Longrightarrow> list_all span_fits qs \<Longrightarrow> set ps = set qs
   \<Longrightarrow> fold (\<lambda>(off, len) s. add s off len) ps s = fold (\<lambda>(off, len) s. add s off len) qs s"
  by (rule canonical) (simp_all add: inv_fold cov_fold)

lemma add_idem: "inv s \<Longrightarrow> span_fits (off, len) \<Longrightarrow> span_set (off, len) \<subseteq> cov s \<Longrightarrow> add s off len = s"
  by (rule canonical) (auto simp: inv_add cov_add)

end

interpretation rtrack: canonical_range_set add_range covered tracker_inv
  by unfold_locales
    (auto simp: add_range_inv covered_add_range span_fits_def span_set_def intro: tracker_canonical)

definition add_all :: "span list \<Rightarrow> ranges \<Rightarrow> ranges" where
  "add_all ps rs = fold (\<lambda>(off, len) rs. add_range rs off len) ps rs"

lemma add_all_inv: "tracker_inv rs \<Longrightarrow> list_all span_fits ps \<Longrightarrow> tracker_inv (add_all ps rs)"
  by (simp add: add_all_def rtrack.inv_fold)

lemma covered_add_all:
  "tracker_inv rs \<Longrightarrow> list_all span_fits ps
   \<Longrightarrow> covered (add_all ps rs) = covered rs \<union> (\<Union>p \<in> set ps. span_set p)"
  by (simp add: add_all_def rtrack.cov_fold)

definition gap_spans :: "ranges \<Rightarrow> span list" where
  "gap_spans rs = map (\<lambda>r. (claim_offset r, claim_length r)) rs"

lemma gap_spans_fit: "tracker_inv rs \<Longrightarrow> list_all span_fits (gap_spans rs)"
  by (auto simp: list_all_iff gap_spans_def span_fits_def range_ok_def dest: tracker_inv_range_ok)

lemma gap_spans_set: "(\<Union>p \<in> set (gap_spans rs). span_set p) = covered rs"
  by (simp add: gap_spans_def span_set_def covered_def claim_set_def)

section \<open>Properties\<close>

text \<open>C22. Whatever segments arrive, in whatever order, overlapping or repeated (none of them
  wrapping past 2^64), the tracker started empty keeps its ranges sorted, non-empty, disjoint
  and not adjacent, and covers exactly the bytes of the segments.\<close>

theorem tracker_tracks:
  assumes "list_all span_fits ps"
  shows "tracker_inv (add_all ps (tracker_clear rs))
    \<and> covered (add_all ps (tracker_clear rs)) = (\<Union>p \<in> set ps. span_set p)"
  using assms by (simp add: add_all_inv covered_add_all tracker_clear_def)

definition sample_spans :: "span list" where
  "sample_spans = [(10, 5), (0, 4), (4, 3), (8, 2)]"

lemma sample_spans_fit: "list_all span_fits sample_spans"
  by (simp add: sample_spans_def span_fits_def)

lemma sample_tracker:
  "add_all sample_spans (tracker_clear [])
    = [\<lparr>claim_offset = 0, claim_length = 7\<rparr>, \<lparr>claim_offset = 8, claim_length = 7\<rparr>]"
  by (simp add: sample_spans_def add_all_def tracker_clear_def add_range_def claim_end_def Let_def)

theorem tracker_tracks_witness:
  "covered [\<lparr>claim_offset = 0, claim_length = 7\<rparr>, \<lparr>claim_offset = 8, claim_length = 7\<rparr>]
     = (\<Union>p \<in> set sample_spans. span_set p)"
  using tracker_tracks [OF sample_spans_fit, of "[]"] sample_tracker by simp

text \<open>The tracker depends only on which segments arrived: two arrival sequences with the
  same segments, reordered or with duplicates, leave the same list of ranges.\<close>

theorem tracker_order_insensitive:
  assumes "tracker_inv rs" "list_all span_fits ps" "list_all span_fits qs" "set ps = set qs"
  shows "add_all ps rs = add_all qs rs"
  using rtrack.fold_set_cong [OF assms] by (simp add: add_all_def)

theorem tracker_order_insensitive_witness:
  "add_all [(4, 3), (10, 5), (8, 2), (0, 4), (4, 3)] [] = add_all sample_spans []"
  by (rule tracker_order_insensitive) (auto simp: sample_spans_def span_fits_def)

text \<open>Completeness is decided exactly: the block of \<open>n\<close> bytes counts as complete when it
  is empty or when the bytes received are a prefix \<open>[0, m)\<close> with \<open>m\<close> at least \<open>n\<close>; as long as
  nothing was received beyond \<open>n\<close>, this is \<open>every byte was received\<close>.\<close>

theorem is_complete_exact:
  assumes "tracker_inv rs"
  shows "(is_complete rs n \<longleftrightarrow> n = 0 \<or> (\<exists>m \<ge> unat n. covered rs = {0 ..< m}))
    \<and> (covered rs \<subseteq> {0 ..< unat n} \<longrightarrow> (is_complete rs n \<longleftrightarrow> {0 ..< unat n} \<subseteq> covered rs))"
proof -
  have c: "{0 ..< unat n} = {0 ..< m}" if "unat n \<le> m" "{0 ..< m} \<subseteq> {0 ..< unat n}" for m
    using that by auto
  show ?thesis using is_complete_iff [OF assms, of n] c by (auto simp: unat_eq_0 intro!: exI [of _ "unat n"])
qed

text \<open>The gaps reported for a window are exactly the bytes of the window not received, as
  sorted disjoint non-adjacent ranges, and resending precisely the gaps of \<open>[0, n)\<close> makes a
  tracker that received nothing beyond \<open>n\<close> complete.\<close>

theorem gaps_exact:
  assumes "tracker_inv rs"
  shows "covered (get_gaps rs lo up) = {unat lo ..< unat up} - covered rs
    \<and> tracker_inv (get_gaps rs lo up)
    \<and> (covered rs \<subseteq> {0 ..< unat up}
        \<longrightarrow> is_complete (add_all (gap_spans (get_gaps rs 0 up)) rs) up)"
proof -
  let ?g = "get_gaps rs 0 up"
  have g: "tracker_inv ?g" using assms by (rule tracker_inv_gaps)
  let ?a = "add_all (gap_spans ?g) rs"
  have "covered ?a = covered rs \<union> ({0 ..< unat up} - covered rs)"
    using covered_add_all [OF assms gap_spans_fit [OF g]] covered_gaps [OF assms, of 0 up]
    by (simp add: gap_spans_set)
  then have "is_complete ?a up" if "covered rs \<subseteq> {0 ..< unat up}"
    using that is_complete_iff [OF add_all_inv [OF assms gap_spans_fit [OF g]], of up] by auto
  then show ?thesis using assms by (simp add: covered_gaps tracker_inv_gaps)
qed

definition sample_ranges :: ranges where
  "sample_ranges = [\<lparr>claim_offset = 2, claim_length = 3\<rparr>]"

lemma sample_ranges_inv: "tracker_inv sample_ranges"
  by (simp add: sample_ranges_def range_ok_def)

theorem is_complete_exact_witness: "\<not> is_complete sample_ranges 5"
proof -
  have "0 \<notin> covered sample_ranges" by (simp add: sample_ranges_def claim_set_def)
  moreover have "covered sample_ranges \<subseteq> {0 ..< unat (5 :: u64)}"
    by (simp add: sample_ranges_def claim_set_def)
  ultimately show ?thesis
    using is_complete_exact [OF sample_ranges_inv, of 5] by auto
qed

theorem gaps_exact_witness:
  "is_complete (add_all (gap_spans (get_gaps sample_ranges 0 8)) sample_ranges) 8"
  using gaps_exact [OF sample_ranges_inv, of 0 8]
  by (simp add: sample_ranges_def claim_set_def)

text \<open>The total is the number of distinct bytes received; the 64-bit sum does not wrap.\<close>

theorem total_received_exact:
  assumes "tracker_inv rs"
  shows "unat (total_received rs) = card (covered rs)"
  using assms by (rule total_received_card)

theorem total_received_exact_witness:
  "unat (total_received sample_ranges) = card (covered sample_ranges)"
  by (rule total_received_exact [OF sample_ranges_inv])

end
