(* ===== verification/Timers.thy ===== *)
theory Timers
  imports Prelude
begin

text \<open>
  The retransmission timers, \<^verbatim>\<open>src/ltp_cla/timer_manager.cpp\<close>: the operations of
  \<^verbatim>\<open>TimerManager\<close>, the iteration of its thread, and their interleavings as a labelled step
  relation. The reading of the steady clock is a field of the state that only moves forward;
  which of several entries with the same expiry a \<^verbatim>\<open>std::priority_queue\<close> yields first
  is left open. Every operation runs under the mutex, so the operations are the atomic steps.
\<close>

section \<open>The code\<close>

datatype timer_type = CHECKPOINT | REPORT_TIMER | CANCEL_TIMER

record timer_event =
  ev_type :: timer_type
  ev_engine_id :: u64
  ev_session_number :: u64
  ev_serial_number :: u64

record timer_entry =
  timer_id :: u64
  expiry :: nat
  te_event :: timer_event

record timer_manager =
  running :: bool
  next_id :: u64
  heap :: "timer_entry list"
  cancelled :: "u64 set"
  clock :: nat          \<comment> \<open>what \<open>steady_clock::now()\<close> returns\<close>

definition tm_init :: timer_manager where
  "tm_init = \<lparr>running = False, next_id = 0, heap = [], cancelled = {}, clock = 0\<rparr>"

definition tm_run :: "timer_manager \<Rightarrow> timer_manager" where
  "tm_run s = (if running s then s else s\<lparr>running := True\<rparr>)"

definition tm_stop :: "timer_manager \<Rightarrow> timer_manager" where
  "tm_stop s = (if \<not> running s then s else s\<lparr>running := False\<rparr>)"

definition start_timer :: "timer_manager \<Rightarrow> nat \<Rightarrow> timer_event \<Rightarrow> u64 \<times> timer_manager" where
  "start_timer s timeout event =
    (let tid = next_id s + 1;
         entry = \<lparr>timer_id = tid, expiry = clock s + timeout, te_event = event\<rparr>
     in (tid, s\<lparr>next_id := tid, heap := entry # heap s\<rparr>))"

definition cancel_timer :: "timer_manager \<Rightarrow> u64 \<Rightarrow> timer_manager" where
  "cancel_timer s tid = s\<lparr>cancelled := insert tid (cancelled s)\<rparr>"

definition pending_count :: "timer_manager \<Rightarrow> nat" where
  "pending_count s =
    (if length (heap s) \<le> card (cancelled s) then 0 else length (heap s) - card (cancelled s))"

text \<open>The entry at the top of the heap: any one with the least expiry.\<close>

definition is_top :: "timer_entry list \<Rightarrow> timer_entry \<Rightarrow> bool" where
  "is_top h e \<longleftrightarrow> e \<in> set h \<and> (\<forall>f \<in> set h. expiry e \<le> expiry f)"

text \<open>One iteration of \<open>thread_func\<close> for the top \<open>e\<close>: the state after it and the event
  handed to the callback; none when it only waits.\<close>

definition thread_iter :: "timer_manager \<Rightarrow> timer_entry \<Rightarrow> (timer_manager \<times> timer_event option) option" where
  "thread_iter s e =
    (if \<not> running s then None
     else if heap s = [] then None
     else if expiry e \<le> clock s then
       let s = s\<lparr>heap := remove1 e (heap s)\<rparr> in
       if timer_id e \<in> cancelled s
       then Some (s\<lparr>cancelled := cancelled s - {timer_id e}\<rparr>, None)
       else Some (s, Some (te_event e))
     else None)"

section \<open>Interleavings\<close>

datatype label =
    L_start u64 timer_event nat    \<comment> \<open>identifier, event, expiry\<close>
  | L_cancel u64
  | L_run
  | L_stop
  | L_tick nat
  | L_drop u64
  | L_fire u64 timer_event nat     \<comment> \<open>identifier, event, time of the callback\<close>

inductive tm_step :: "timer_manager \<Rightarrow> label \<Rightarrow> timer_manager \<Rightarrow> bool" where
  start: "start_timer s timeout event = (tid, s')
      \<Longrightarrow> tm_step s (L_start tid event (clock s + timeout)) s'"
| cancel: "tm_step s (L_cancel tid) (cancel_timer s tid)"
| run: "tm_step s L_run (tm_run s)"
| stop: "tm_step s L_stop (tm_stop s)"
| tick: "tm_step s (L_tick d) (s\<lparr>clock := clock s + d\<rparr>)"
| drop: "is_top (heap s) e \<Longrightarrow> thread_iter s e = Some (s', None)
      \<Longrightarrow> tm_step s (L_drop (timer_id e)) s'"
| fire: "is_top (heap s) e \<Longrightarrow> thread_iter s e = Some (s', Some ev)
      \<Longrightarrow> tm_step s (L_fire (timer_id e) ev (clock s)) s'"

inductive tm_trace :: "timer_manager \<Rightarrow> label list \<Rightarrow> timer_manager \<Rightarrow> bool" where
  trace_nil: "tm_trace s [] s"
| trace_snoc: "tm_trace s ls t \<Longrightarrow> tm_step t l u \<Longrightarrow> tm_trace s (ls @ [l]) u"

inductive_cases tm_stepE: "tm_step s l t"

fun started :: "label \<Rightarrow> u64 list" where
  "started (L_start tid _ _) = [tid]" | "started _ = []"

fun fired :: "label \<Rightarrow> u64 list" where
  "fired (L_fire tid _ _) = [tid]" | "fired _ = []"

definition starts :: "label list \<Rightarrow> u64 list" where
  "starts ls = concat (map started ls)"

definition fires :: "label list \<Rightarrow> u64 list" where
  "fires ls = concat (map fired ls)"

lemma starts_fires_simps [simp]:
  "starts [] = []" "fires [] = []"
  "starts (ls @ [l]) = starts ls @ started l" "fires (ls @ [l]) = fires ls @ fired l"
  by (simp_all add: starts_def fires_def)

lemma set_starts: "tid \<in> set (starts ls) \<longleftrightarrow> (\<exists>ev t. L_start tid ev t \<in> set ls)"
proof -
  have "tid \<in> set (started l) \<longleftrightarrow> (\<exists>ev t. l = L_start tid ev t)" for l by (cases l) auto
  then show ?thesis by (auto simp: starts_def)
qed

text \<open>What a history says about the state it leads to.\<close>

definition ids_ok :: "u64 list \<Rightarrow> bool" where
  "ids_ok ids \<longleftrightarrow> ids = map of_nat [1..<Suc (length ids)]"

definition history :: "label list \<Rightarrow> timer_manager \<Rightarrow> bool" where
  "history ls s \<longleftrightarrow>
     ids_ok (starts ls)
   \<and> next_id s = of_nat (length (starts ls))
   \<and> distinct (map timer_id (heap s))
   \<and> distinct (fires ls)
   \<and> set (fires ls) \<subseteq> set (starts ls)
   \<and> (\<forall>e \<in> set (heap s). L_start (timer_id e) (te_event e) (expiry e) \<in> set ls
        \<and> timer_id e \<notin> set (fires ls))
   \<and> (\<forall>tid. L_cancel tid \<in> set ls \<and> (tid \<notin> set (starts ls) \<or> tid \<in> timer_id ` set (heap s))
        \<longrightarrow> tid \<in> cancelled s)"


lemma of_nat_u64_eq: "m < 2 ^ 64 \<Longrightarrow> n < 2 ^ 64 \<Longrightarrow> (of_nat m :: u64) = of_nat n \<longleftrightarrow> m = n"
  by (simp add: word_unat_eq_iff unat_of_nat take_bit_nat_eq_self)

lemma history_distinct_starts:
  assumes "history ls s" "length (starts ls) < 2 ^ 64"
  shows "distinct (starts ls)"
proof -
  have "inj_on (of_nat :: nat \<Rightarrow> u64) (set [1..<Suc (length (starts ls))])"
    using assms(2) by (auto simp: inj_on_def of_nat_u64_eq)
  then have "distinct (map (of_nat :: nat \<Rightarrow> u64) [1..<Suc (length (starts ls))])"
    by (simp add: distinct_map)
  then show ?thesis using assms(1) unfolding history_def ids_ok_def by metis
qed

lemma history_nil: "history [] tm_init"
  by (simp add: history_def tm_init_def ids_ok_def)

lemma history_heap_started:
  "history ls s \<Longrightarrow> e \<in> set (heap s) \<Longrightarrow> timer_id e \<in> set (starts ls)"
  unfolding history_def set_starts by blast

lemma history_start:
  assumes h: "history ls s" and n: "length (starts ls) + 1 < 2 ^ 64"
    and st: "start_timer s timeout ev = (tid, s')"
  shows "history (ls @ [L_start tid ev (clock s + timeout)]) s'"
proof -
  let ?n = "length (starts ls)"
  let ?e = "\<lparr>timer_id = next_id s + 1, expiry = clock s + timeout, te_event = ev\<rparr>"
  have id: "tid = next_id s + 1" "next_id s = of_nat ?n"
    and s': "s' = s\<lparr>next_id := tid, heap := ?e # heap s\<rparr>"
    using st h by (auto simp: start_timer_def Let_def history_def)
  have tid: "tid = of_nat (Suc ?n)" using id by simp
  have st': "starts ls = map of_nat [1..<Suc ?n]" using h unfolding history_def ids_ok_def by blast
  then have "set (starts ls) = of_nat ` {1..<Suc ?n}" by (metis list.set_map set_upt)
  moreover have "tid \<notin> of_nat ` {1..<Suc ?n}" using n by (auto simp: tid of_nat_u64_eq simp del: of_nat_Suc)
  ultimately have new: "tid \<notin> set (starts ls)" by simp
  have "tid \<notin> timer_id ` set (heap s)" using history_heap_started [OF h] new by blast
  moreover have "tid \<notin> set (fires ls)" using h new unfolding history_def by blast
  moreover have "L_cancel tid \<in> set ls \<longrightarrow> tid \<in> cancelled s"
    using h new unfolding history_def by blast
  moreover have "ids_ok (starts ls @ [tid])"
    using st' tid by (simp add: ids_ok_def)
  moreover note h [unfolded history_def]
  ultimately show ?thesis unfolding s' history_def id(1)
    by (simp add: starts_fires_simps) auto
qed

lemma is_top_remove1:
  assumes "distinct (map timer_id h)" "is_top h e"
  shows "set (remove1 e h) = set h - {e}"
    "timer_id ` set (remove1 e h) = timer_id ` set h - {timer_id e}"
    "distinct (map timer_id (remove1 e h))"
    "f \<in> set h \<Longrightarrow> f \<noteq> e \<Longrightarrow> timer_id f \<noteq> timer_id e"
proof -
  have d: "distinct h" "inj_on timer_id (set h)" using assms(1) by (auto simp: distinct_map)
  then show s: "set (remove1 e h) = set h - {e}" by simp
  show "timer_id ` set (remove1 e h) = timer_id ` set h - {timer_id e}"
    using d(2) assms(2) unfolding s is_top_def by (auto simp: inj_on_def)
  show "distinct (map timer_id (remove1 e h))"
    using d s by (simp add: distinct_map inj_on_diff)
  show "f \<in> set h \<Longrightarrow> f \<noteq> e \<Longrightarrow> timer_id f \<noteq> timer_id e"
    using d(2) assms(2) by (auto simp: is_top_def inj_on_def)
qed

lemma thread_iter_cases:
  assumes "thread_iter s e = Some (s', r)"
  shows "running s \<and> expiry e \<le> clock s \<and> (case r of
      None \<Rightarrow> timer_id e \<in> cancelled s
        \<and> s' = s\<lparr>heap := remove1 e (heap s), cancelled := cancelled s - {timer_id e}\<rparr>
    | Some ev \<Rightarrow> timer_id e \<notin> cancelled s \<and> ev = te_event e
        \<and> s' = s\<lparr>heap := remove1 e (heap s)\<rparr>)"
  using assms by (auto simp: thread_iter_def Let_def split: if_splits)

lemma history_pop:
  assumes h: "history ls s" and t: "is_top (heap s) e" and it: "thread_iter s e = Some (s', r)"
  shows "next_id s' = next_id s" "distinct (map timer_id (heap s'))"
    "\<forall>f \<in> set (heap s'). L_start (timer_id f) (te_event f) (expiry f) \<in> set ls
       \<and> timer_id f \<notin> set (fires ls) \<and> timer_id f \<noteq> timer_id e"
    "\<forall>tid. L_cancel tid \<in> set ls \<and> (tid \<notin> set (starts ls) \<or> tid \<in> timer_id ` set (heap s'))
       \<longrightarrow> tid \<in> cancelled s'"
    "timer_id e \<in> set (starts ls)" "timer_id e \<notin> set (fires ls)"
proof -
  note H = h [unfolded history_def]
  have d: "distinct (map timer_id (heap s))" using H by blast
  note rm = is_top_remove1 [OF d t]
  have e: "e \<in> set (heap s)" using t by (simp add: is_top_def)
  have s': "heap s' = remove1 e (heap s)" "next_id s' = next_id s"
    "cancelled s - {timer_id e} \<subseteq> cancelled s'"
    using thread_iter_cases [OF it] by (auto split: option.splits)
  show "next_id s' = next_id s" "distinct (map timer_id (heap s'))" using s' rm by simp_all
  show st: "timer_id e \<in> set (starts ls)" using history_heap_started [OF h e] .
  show "timer_id e \<notin> set (fires ls)" using H e by blast
  show "\<forall>f \<in> set (heap s'). L_start (timer_id f) (te_event f) (expiry f) \<in> set ls
       \<and> timer_id f \<notin> set (fires ls) \<and> timer_id f \<noteq> timer_id e"
    using H rm(4) unfolding s'(1) rm(1) by blast
  show "\<forall>tid. L_cancel tid \<in> set ls \<and> (tid \<notin> set (starts ls) \<or> tid \<in> timer_id ` set (heap s'))
       \<longrightarrow> tid \<in> cancelled s'"
    using H s'(3) st unfolding s'(1) rm(2) by blast
qed

lemma history_drop:
  assumes h: "history ls s" and t: "is_top (heap s) e" and it: "thread_iter s e = Some (s', None)"
  shows "history (ls @ [L_drop (timer_id e)]) s'"
  using h history_pop [OF assms] unfolding history_def by simp

lemma history_fire:
  assumes h: "history ls s" and t: "is_top (heap s) e" and it: "thread_iter s e = Some (s', Some ev)"
  shows "history (ls @ [L_fire (timer_id e) ev (clock s)]) s'"
  using h history_pop [OF assms] unfolding history_def by simp

lemma history_other:
  assumes "history ls s"
  shows "history (ls @ [L_cancel tid]) (cancel_timer s tid)"
    "history (ls @ [L_run]) (tm_run s)" "history (ls @ [L_stop]) (tm_stop s)"
    "history (ls @ [L_tick d]) (s\<lparr>clock := clock s + d\<rparr>)"
  using assms by (auto simp: history_def cancel_timer_def tm_run_def tm_stop_def)

lemma history_trace:
  "tm_trace s ls t \<Longrightarrow> s = tm_init \<Longrightarrow> length (starts ls) < 2 ^ 64 \<Longrightarrow> history ls t"
proof (induction rule: tm_trace.induct)
  case (trace_snoc s ls t l u)
  then have h: "history ls t" by simp
  from trace_snoc(2) show ?case
  proof cases
    case (start timeout event tid)
    with history_start [OF h _ start(2)] trace_snoc show ?thesis by simp
  qed (auto simp: history_drop [OF h] history_fire [OF h] history_other [OF h])
qed (simp add: history_nil)

lemma trace_split:
  "tm_trace s ls t \<Longrightarrow> ls = pre @ l # post \<Longrightarrow> \<exists>u v. tm_trace s pre u \<and> tm_step u l v"
proof (induction arbitrary: post rule: tm_trace.induct)
  case (trace_snoc s ls t k u)
  then show ?case by (cases post rule: rev_cases) auto
qed simp

section \<open>The thread when nothing else runs\<close>

definition due :: "timer_manager \<Rightarrow> timer_entry list" where
  "due s = filter (\<lambda>e. expiry e \<le> clock s) (heap s)"

definition thread_label :: "label \<Rightarrow> bool" where
  "thread_label l \<longleftrightarrow> (case l of L_drop _ \<Rightarrow> True | L_fire _ _ _ \<Rightarrow> True | _ \<Rightarrow> False)"

lemma top_exists: "h \<noteq> [] \<Longrightarrow> \<exists>e. is_top h e"
  unfolding is_top_def using ex_is_arg_min_if_finite [of "set h" expiry]
  by (auto simp: is_arg_min_def not_less)

lemma thread_step_enabled:
  assumes "running s" "due s \<noteq> []"
  shows "\<exists>l t. thread_label l \<and> tm_step s l t"
proof -
  have ne: "heap s \<noteq> []" using assms(2) by (auto simp: due_def)
  then obtain e where e: "is_top (heap s) e" using top_exists by blast
  have "expiry e \<le> clock s"
    using assms(2) e by (auto simp: due_def filter_empty_conv is_top_def dest: order_trans)
  then obtain s' r where it: "thread_iter s e = Some (s', r)"
    using assms(1) ne by (cases "timer_id e \<in> cancelled s") (auto simp: thread_iter_def Let_def)
  show ?thesis
  proof (cases r)
    case None
    with it have "tm_step s (L_drop (timer_id e)) s'" using tm_step.drop [OF e] by simp
    moreover have "thread_label (L_drop (timer_id e))" by (simp add: thread_label_def)
    ultimately show ?thesis by blast
  next
    case (Some ev)
    with it have "tm_step s (L_fire (timer_id e) ev (clock s)) s'" using tm_step.fire [OF e] by simp
    moreover have "thread_label (L_fire (timer_id e) ev (clock s))" by (simp add: thread_label_def)
    ultimately show ?thesis by blast
  qed
qed

lemma filter_remove1: "P e \<Longrightarrow> filter P (remove1 e xs) = remove1 e (filter P xs)"
  by (induction xs) auto

lemma pop_due:
  assumes "is_top (heap s) e" "thread_iter s e = Some (s', r)"
  shows "running s \<and> running s' \<and> Suc (length (due s')) = length (due s)"
proof -
  note c = thread_iter_cases [OF assms(2)]
  then have s': "heap s' = remove1 e (heap s)" "clock s' = clock s" "running s' = running s"
    by (auto split: option.splits)
  have le: "expiry e \<le> clock s" using c by blast
  have "e \<in> set (due s)" using le assms(1) by (simp add: due_def is_top_def)
  moreover have "due s' = remove1 e (due s)" using s' le by (simp add: due_def filter_remove1)
  ultimately show ?thesis using c s'
    using length_pos_if_in_set [of e "due s"] by (simp add: length_remove1)
qed

lemma thread_step_due:
  assumes "tm_step s l t" "thread_label l"
  shows "running s \<and> running t \<and> Suc (length (due t)) = length (due s)"
  using assms by cases (auto simp: thread_label_def dest: pop_due)

section \<open>Properties\<close>

text \<open>C17. In every interleaving of the operations (fewer than 2^64 starts), each timer fires at
  most once, with the event it was started with, not before its expiry, and never after it was
  cancelled.\<close>

theorem timer_safety:
  assumes "tm_trace tm_init ls s" "length (starts ls) < 2 ^ 64"
  shows "distinct (fires ls) \<and> (\<forall>pre tid ev now post. ls = pre @ L_fire tid ev now # post \<longrightarrow>
     (\<exists>x \<le> now. L_start tid ev x \<in> set pre) \<and> L_cancel tid \<notin> set pre)"
proof (intro conjI allI impI)
  show "distinct (fires ls)"
    using history_trace [OF assms(1) refl assms(2)] by (simp add: history_def)
  fix pre tid ev now post assume ls: "ls = pre @ L_fire tid ev now # post"
  obtain u v where u: "tm_trace tm_init pre u" and st: "tm_step u (L_fire tid ev now) v"
    using trace_split [OF assms(1) ls] by blast
  have "length (starts pre) < 2 ^ 64" using assms(2) by (simp add: ls starts_def)
  with u have h: "history pre u" using history_trace by blast
  from st obtain e where e: "is_top (heap u) e" "tid = timer_id e" "now = clock u"
    and it: "thread_iter u e = Some (v, Some ev)" by cases
  have mem: "e \<in> set (heap u)" using e by (simp add: is_top_def)
  have c: "expiry e \<le> now" "tid \<notin> cancelled u" "ev = te_event e"
    using thread_iter_cases [OF it] e by auto
  show "\<exists>x \<le> now. L_start tid ev x \<in> set pre"
    using h mem c e(2) unfolding history_def by blast
  show "L_cancel tid \<notin> set pre"
    using h mem c(2) e(2) unfolding history_def by blast
qed

text \<open>C18. The timer thread makes progress: while it runs and an entry is due it can take an
  iteration that pops one, and when nothing else interferes a run of its iterations processes
  one due entry each, so after as many iterations as entries are due none is left.\<close>

theorem thread_drains:
  assumes "tm_trace s ls t" "list_all thread_label ls" "running s"
  shows "length (due t) + length ls = length (due s)
    \<and> (due t \<noteq> [] \<longrightarrow> (\<exists>l u. thread_label l \<and> tm_step t l u))"
proof -
  have "running t \<and> length (due t) + length ls = length (due s)"
    using assms by (induction rule: tm_trace.induct) (auto dest: thread_step_due)
  then show ?thesis using thread_step_enabled by blast
qed

definition sample_event :: timer_event where
  "sample_event = \<lparr>ev_type = CHECKPOINT, ev_engine_id = 1, ev_session_number = 1, ev_serial_number = 1\<rparr>"

text \<open>Two timers, of 10 and 20 units, on a running manager.\<close>

definition two_timers :: timer_manager where
  "two_timers = snd (start_timer (snd (start_timer (tm_run tm_init) 10 sample_event)) 20 sample_event)"

definition first_entry :: timer_entry where
  "first_entry = \<lparr>timer_id = 1, expiry = 10, te_event = sample_event\<rparr>"

definition two_labels :: "label list" where
  "two_labels = [L_run, L_start 1 sample_event 10, L_start 2 sample_event 20, L_tick 12]"

abbreviation "two_late \<equiv> two_timers\<lparr>clock := clock two_timers + 12\<rparr>"
abbreviation "two_fired \<equiv> two_late\<lparr>heap := remove1 first_entry (heap two_late)\<rparr>"

lemmas two_defs = two_timers_def tm_run_def tm_init_def start_timer_def Let_def first_entry_def

lemma two_trace: "tm_trace tm_init two_labels two_late"
proof -
  let ?a = "tm_run tm_init"
  let ?b = "snd (start_timer ?a 10 sample_event)"
  have "tm_trace tm_init ([] @ [L_run]) ?a" by (rule trace_snoc [OF trace_nil tm_step.run])
  moreover have "tm_step ?a (L_start 1 sample_event 10) ?b"
    using start [of ?a 10 sample_event 1 ?b] by (simp add: two_defs)
  moreover have "tm_step ?b (L_start 2 sample_event 20) two_timers"
    using start [of ?b 20 sample_event 2 two_timers] by (simp add: two_defs)
  ultimately have "tm_trace tm_init ((([] @ [L_run]) @ [L_start 1 sample_event 10])
      @ [L_start 2 sample_event 20]) two_timers" by (blast intro: trace_snoc)
  from trace_snoc [OF this tick [of _ 12]] show ?thesis by (simp add: two_labels_def)
qed

lemma two_fire: "tm_step two_late (L_fire 1 sample_event 12) two_fired"
  using fire [of two_late first_entry two_fired sample_event]
  by (simp add: two_defs thread_iter_def is_top_def)

theorem timer_safety_witness:
  "distinct (fires (two_labels @ [L_fire 1 sample_event 12]))
   \<and> (\<exists>x \<le> 12. L_start 1 sample_event x \<in> set two_labels)"
  using timer_safety [OF trace_snoc [OF two_trace two_fire]]
  by (simp add: two_labels_def starts_def)

theorem thread_drains_witness:
  "length (due two_fired) + length [L_fire 1 sample_event 12] = length (due two_late)"
  using thread_drains [OF trace_snoc [OF trace_nil two_fire]]
  by (simp add: thread_label_def two_defs)

text \<open>\<open>pending_count\<close> is exact as long as only timers still in the heap are marked as
  cancelled: it is the number of entries that will fire.\<close>

theorem pending_count_exact:
  assumes "distinct (map timer_id (heap s))" "cancelled s \<subseteq> timer_id ` set (heap s)"
  shows "pending_count s = length (filter (\<lambda>e. timer_id e \<notin> cancelled s) (heap s))"
proof -
  let ?c = "filter (\<lambda>e. timer_id e \<in> cancelled s) (heap s)"
  have "timer_id ` set ?c = cancelled s" using assms(2) by auto
  moreover have "distinct (map timer_id ?c)" using assms(1) by (simp add: distinct_map_filter)
  ultimately have "card (cancelled s) = length ?c"
    by (metis distinct_card length_map list.set_map)
  then show ?thesis
    using sum_length_filter_compl [of "\<lambda>e. timer_id e \<in> cancelled s" "heap s"]
    unfolding pending_count_def by presburger
qed

theorem pending_count_exact_witness:
  "pending_count (cancel_timer two_timers 1)
    = length (filter (\<lambda>e. timer_id e \<notin> {1}) (heap two_timers))"
  using pending_count_exact [of "cancel_timer two_timers 1"]
  by (simp add: cancel_timer_def two_defs)

text \<open>Cancelling a timer that already fired is not the no-op it is documented to be: its
  identifier stays in the cancelled set forever, no timer is affected, and every later
  \<open>pending_count\<close> is one too small (here 0 with a live timer in the heap).\<close>

theorem cancel_after_fire_undercounts:
  "tm_step two_late (L_fire 1 sample_event 12) two_fired
   \<and> pending_count two_fired = 1
   \<and> pending_count (cancel_timer two_fired 1) = 0
   \<and> length (filter (\<lambda>e. timer_id e \<notin> cancelled (cancel_timer two_fired 1)) (heap two_fired)) = 1"
  using two_fire by (simp add: two_defs pending_count_def cancel_timer_def)

end
