(* ===== verification/Engine.thy ===== *)
theory Engine
  imports Segment Tracker Timers "HOL-Library.Finite_Map"
begin

text \<open>
  The LTP protocol engine, \<^verbatim>\<open>src/ltp_cla/ltp_engine.cpp\<close> with
  \<^verbatim>\<open>ltp_session.h\<close>: sessions, segmentation, the handlers of every segment type and of
  timer expiry, and the segment callback that \<^verbatim>\<open>main.cpp\<close> installs. The engine is a
  record passed through its operations; what the installed callbacks are given is appended to
  \<open>events\<close> (they hand the data to other threads and do not call back into the engine). A
  session reference of the code is the key of the session and the value read from the map,
  stored back before the map is looked at again. Log lines are left out.
\<close>

section \<open>Sessions and configuration\<close>

datatype session_role = ORIGINATOR | RECEIVER
datatype session_state = ACTIVE | COMPLETED | CANCELLED

record ltp_session =
  s_engine_id :: u64
  s_session_number :: u64
  role :: session_role
  state :: session_state
  client_data :: bytes
  total_data_length :: u64
  is_red_session :: bool
  reception_tracker :: ranges
  checkpoint_serial_counter :: u64
  report_serial_counter :: u64
  retransmission_count :: u8

definition default_session :: ltp_session where
  "default_session = \<lparr>s_engine_id = 0, s_session_number = 0, role = ORIGINATOR, state = ACTIVE,
     client_data = [], total_data_length = 0, is_red_session = True, reception_tracker = [],
     checkpoint_serial_counter = 0, report_serial_counter = 0, retransmission_count = 0\<rparr>"

type_synonym session_key = "u64 \<times> u64"

record engine_config =
  local_engine_id :: u64
  remote_engine_id :: u64
  max_segment_size :: u32
  retransmission_timeout_ms :: u32
  max_retransmissions :: u8
  max_concurrent_sessions :: u32

definition default_engine_config :: engine_config where
  "default_engine_config = \<lparr>local_engine_id = 1, remote_engine_id = 2, max_segment_size = 1400,
     retransmission_timeout_ms = 30000, max_retransmissions = 10, max_concurrent_sessions = 100\<rparr>"

record diagnostics =
  sessions_originated :: u64
  sessions_received :: u64
  sessions_completed :: u64
  sessions_cancelled :: u64
  red_segments_sent :: u64
  red_segments_received :: u64
  green_segments_sent :: u64
  green_segments_received :: u64
  checkpoints_sent :: u64
  reports_received :: u64
  reports_sent :: u64
  report_acks_sent :: u64
  report_acks_received :: u64
  retransmissions :: u64
  cancel_segments_sent :: u64
  cancel_segments_received :: u64

definition no_diagnostics :: diagnostics where
  "no_diagnostics = \<lparr>sessions_originated = 0, sessions_received = 0, sessions_completed = 0,
     sessions_cancelled = 0, red_segments_sent = 0, red_segments_received = 0,
     green_segments_sent = 0, green_segments_received = 0, checkpoints_sent = 0,
     reports_received = 0, reports_sent = 0, report_acks_sent = 0, report_acks_received = 0,
     retransmissions = 0, cancel_segments_sent = 0, cancel_segments_received = 0\<rparr>"

text \<open>What the callbacks were given, oldest first.\<close>

datatype engine_event =
    Sent bytes
  | Arrived bytes
  | Session_Complete u64
  | Session_Failed u64 u8

record engine =
  config :: engine_config
  session_counter :: u64
  sessions :: "(session_key, ltp_session) fmap"
  diag :: diagnostics
  timers :: "timer_manager option"
  checkpoint_timers :: "(u64, u64) fmap"
  report_timers :: "(u64, u64) fmap"
  on_data_arrival :: bool          \<comment> \<open>whether the callback is set\<close>
  on_session_complete :: bool
  on_session_failure :: bool
  on_send_segment :: bool
  events :: "engine_event list"

definition new_engine :: "engine_config \<Rightarrow> engine" where
  "new_engine c = \<lparr>config = c, session_counter = 0, sessions = fmempty, diag = no_diagnostics,
     timers = None, checkpoint_timers = fmempty, report_timers = fmempty,
     on_data_arrival = False, on_session_complete = False, on_session_failure = False,
     on_send_segment = False, events = []\<rparr>"

definition timer_key :: "u64 \<Rightarrow> u64 \<Rightarrow> u64" where
  "timer_key session_number serial = push_bit 32 session_number OR (serial AND 0xFFFFFFFF)"

definition active_session_count :: "engine \<Rightarrow> nat" where
  "active_session_count e = fcard (fmdom (sessions e))"

definition get_session :: "engine \<Rightarrow> u64 \<Rightarrow> u64 \<Rightarrow> ltp_session option" where
  "get_session e engine_id session_number = fmlookup (sessions e) (engine_id, session_number)"

text \<open>\<open>diagnostics_.field++\<close>; calling a callback that may not be set; storing a session.\<close>

definition tally :: "((u64 \<Rightarrow> u64) \<Rightarrow> diagnostics \<Rightarrow> diagnostics) \<Rightarrow> engine \<Rightarrow> engine" where
  "tally field e = e\<lparr>diag := field (\<lambda>n. n + 1) (diag e)\<rparr>"

definition emit :: "bool \<Rightarrow> engine_event \<Rightarrow> engine \<Rightarrow> engine" where
  "emit present ev e = (if present then e\<lparr>events := events e @ [ev]\<rparr> else e)"

definition put_session :: "session_key \<Rightarrow> ltp_session \<Rightarrow> engine \<Rightarrow> engine" where
  "put_session key session e = e\<lparr>sessions := fmupd key session (sessions e)\<rparr>"

definition erase_session :: "session_key \<Rightarrow> engine \<Rightarrow> engine" where
  "erase_session key e = e\<lparr>sessions := fmdrop key (sessions e)\<rparr>"

text \<open>\<open>unordered_map::emplace\<close> leaves an existing entry alone.\<close>

definition emplace_session :: "session_key \<Rightarrow> ltp_session \<Rightarrow> engine \<Rightarrow> engine" where
  "emplace_session key session e =
     (case fmlookup (sessions e) key of None \<Rightarrow> put_session key session e | Some _ \<Rightarrow> e)"

definition default_segment :: ltp_segment where
  "default_segment = \<lparr>version = 0, segment_type = 0, seg_engine_id = 0, seg_session_number = 0,
     header_ext_count = 0, trailer_ext_count = 0, header_extensions = [], trailer_extensions = [],
     content = Data_Seg \<lparr>client_service_id = 1, ds_offset = 0, ds_length = 0,
       ds_checkpoint_serial = None, ds_report_serial = None, ds_data = []\<rparr>\<rparr>"

section \<open>Sending\<close>

definition arm_timer :: "timer_type \<Rightarrow> ltp_segment \<Rightarrow> u64 \<Rightarrow> timer_manager \<Rightarrow> engine
    \<Rightarrow> u64 \<times> engine" where
  "arm_timer type seg serial tm e =
    (let evt = \<lparr>ev_type = type, ev_engine_id = seg_engine_id seg,
                ev_session_number = seg_session_number seg, ev_serial_number = serial\<rparr>;
         (tid, tm) = start_timer tm (unat (retransmission_timeout_ms (config e))) evt
     in (tid, e\<lparr>timers := Some tm\<rparr>))"

definition arm_checkpoint_timer :: "ltp_segment \<Rightarrow> engine \<Rightarrow> engine res" where
  "arm_checkpoint_timer seg e =
    (case timers e of
       None \<Rightarrow> Inr e
     | Some tm \<Rightarrow>
         rbind (get_data (content seg)) (\<lambda>ds.
         case ds_checkpoint_serial ds of
           None \<Rightarrow> Inr e
         | Some serial \<Rightarrow>
             let (tid, e) = arm_timer CHECKPOINT seg serial tm e
             in Inr (e\<lparr>checkpoint_timers :=
                  fmupd (timer_key (seg_session_number seg) serial) tid (checkpoint_timers e)\<rparr>)))"

definition arm_report_timer :: "ltp_segment \<Rightarrow> engine \<Rightarrow> engine res" where
  "arm_report_timer seg e =
    (case timers e of
       None \<Rightarrow> Inr e
     | Some tm \<Rightarrow>
         rbind (get_report (content seg)) (\<lambda>rs.
         let (tid, e) = arm_timer REPORT_TIMER seg (rs_report_serial rs) tm e
         in Inr (e\<lparr>report_timers :=
              fmupd (timer_key (seg_session_number seg) (rs_report_serial rs)) tid (report_timers e)\<rparr>)))"

definition note_sent :: "engine \<Rightarrow> ltp_segment \<Rightarrow> engine res" where
  "note_sent e seg =
    (if is_red (segment_type seg) then
       let e = tally red_segments_sent_update e in
       if has_checkpoint (segment_type seg)
       then arm_checkpoint_timer seg (tally checkpoints_sent_update e)
       else Inr e
     else if is_green (segment_type seg) then Inr (tally green_segments_sent_update e)
     else if segment_type seg = REPORT_SEGMENT
     then arm_report_timer seg (tally reports_sent_update e)
     else if segment_type seg = REPORT_ACK then Inr (tally report_acks_sent_update e)
     else if segment_type seg = CANCEL_BY_SENDER \<or> segment_type seg = CANCEL_BY_RECEIVER
     then Inr (tally cancel_segments_sent_update e)
     else Inr e)"

definition send_segment :: "engine \<Rightarrow> ltp_segment \<Rightarrow> engine res" where
  "send_segment e seg =
    rbind (note_sent e seg) (\<lambda>e.
    if on_send_segment e
    then rbind (segment_encode seg) (\<lambda>bs. Inr (emit True (Sent bs) e))
    else Inr e)"

fun send_all :: "engine \<Rightarrow> ltp_segment list \<Rightarrow> engine res" where
  "send_all e [] = Inr e"
| "send_all e (seg # segs) = rbind (send_segment e seg) (\<lambda>e. send_all e segs)"

section \<open>Segmentation\<close>

definition data_segment :: "ltp_session \<Rightarrow> u8 \<Rightarrow> data_seg_content \<Rightarrow> ltp_segment" where
  "data_segment session type ds = default_segment
     \<lparr>segment_type := type, seg_engine_id := s_engine_id session,
      seg_session_number := s_session_number session, content := Data_Seg ds\<rparr>"

text \<open>The chunk loop of \<open>segment_data_impl\<close>; with a segment size of 0 it does not end.\<close>

partial_function (option) segment_loop :: "ltp_session \<Rightarrow> u32 \<Rightarrow> nat \<Rightarrow> nat \<Rightarrow> u64
    \<Rightarrow> ltp_segment list \<Rightarrow> (ltp_segment list \<times> u64) option" where
  "segment_loop session max_seg offset remaining cp_serial segments =
    (if remaining > 0 then
       let chunk = min (unat max_seg) remaining;
           is_last = (chunk = remaining);
           ds = \<lparr>client_service_id = 1, ds_offset = of_nat offset, ds_length = of_nat chunk,
                 ds_checkpoint_serial = None, ds_report_serial = None,
                 ds_data = take chunk (drop offset (client_data session))\<rparr>;
           (type, ds, cp_serial) =
             (if is_red_session session then
                if is_last
                then (RED_DATA_CP_EORP_EOB,
                      ds\<lparr>ds_checkpoint_serial := Some (cp_serial + 1), ds_report_serial := Some 0\<rparr>,
                      cp_serial + 1)
                else (RED_DATA, ds, cp_serial)
              else (if is_last then GREEN_DATA_EOB else GREEN_DATA, ds, cp_serial))
       in segment_loop session max_seg (offset + chunk) (remaining - chunk) cp_serial
            (segments @ [data_segment session type ds])
     else Some (segments, cp_serial))"

definition segment_data_impl :: "ltp_session \<Rightarrow> u32 \<Rightarrow> u64 \<Rightarrow> (ltp_segment list \<times> u64) res" where
  "segment_data_impl session max_seg cp_serial =
    (if client_data session = [] then
       let ds = \<lparr>client_service_id = 1, ds_offset = 0, ds_length = 0, ds_checkpoint_serial = None,
                 ds_report_serial = None, ds_data = []\<rparr>
       in if is_red_session session
          then Inr ([data_segment session RED_DATA_CP_EORP_EOB
                 (ds\<lparr>ds_checkpoint_serial := Some (cp_serial + 1), ds_report_serial := Some 0\<rparr>)],
                 cp_serial + 1)
          else Inr ([data_segment session GREEN_DATA_EOB ds], cp_serial)
     else case segment_loop session max_seg 0 (length (client_data session)) cp_serial [] of
            None \<Rightarrow> Inl Diverges
          | Some r \<Rightarrow> Inr r)"

definition segment_data :: "engine \<Rightarrow> ltp_session \<Rightarrow> (ltp_segment list \<times> ltp_session) res" where
  "segment_data e session =
    rbind (segment_data_impl session (max_segment_size (config e)) (checkpoint_serial_counter session))
      (\<lambda>(segs, cp). Inr (segs, session\<lparr>checkpoint_serial_counter := cp\<rparr>))"

definition segment_data_readonly :: "engine \<Rightarrow> ltp_session \<Rightarrow> ltp_segment list res" where
  "segment_data_readonly e session =
    rbind (segment_data_impl session (max_segment_size (config e)) (checkpoint_serial_counter session))
      (\<lambda>(segs, cp). Inr segs)"

definition start_session :: "engine \<Rightarrow> bytes \<Rightarrow> bool \<Rightarrow> (u64 \<times> engine) res" where
  "start_session e data reliable =
    (if active_session_count e \<ge> unat (max_concurrent_sessions (config e)) then Inr (0, e)
     else
       let sn = session_counter e + 1;
           e = e\<lparr>session_counter := sn\<rparr>;
           key = (local_engine_id (config e), sn);
           session = default_session
             \<lparr>s_engine_id := local_engine_id (config e), s_session_number := sn, role := ORIGINATOR,
              state := ACTIVE, total_data_length := of_nat (length data),
              is_red_session := reliable, client_data := data\<rparr>;
           e = emplace_session key session e;
           e = tally sessions_originated_update e
       in case fmlookup (sessions e) key of
            None \<Rightarrow> Inl Undefined_Behaviour
          | Some sess_ref \<Rightarrow>
              rbind (segment_data e sess_ref) (\<lambda>(segments, sess_ref).
              rbind (send_all (put_session key sess_ref e) segments) (\<lambda>e.
              if \<not> reliable
              then Inr (sn, tally sessions_completed_update (erase_session key e))
              else Inr (sn, e))))"

section \<open>Receiving data\<close>

text \<open>The most elements a \<^verbatim>\<open>std::vector<uint8_t>\<close> holds; \<open>resize\<close> and \<open>std::copy\<close>.\<close>

definition VECTOR_MAX :: nat where
  "VECTOR_MAX = 9223372036854775807"

definition grow :: "bytes \<Rightarrow> u64 \<Rightarrow> bytes res" where
  "grow buf n =
    (if unat n > length buf then
       if unat n > VECTOR_MAX then Inl Length_Error
       else if unat n \<ge> ALLOC_LIMIT then Inl Bad_Alloc
       else Inr (buf @ replicate (unat n - length buf) 0)
     else Inr buf)"

definition copy_to :: "bytes \<Rightarrow> nat \<Rightarrow> bytes \<Rightarrow> bytes res" where
  "copy_to buf off src =
    (if off + length src \<le> length buf
     then Inr (take off buf @ src @ drop (off + length src) buf)
     else Inl Undefined_Behaviour)"

definition generate_report :: "engine \<Rightarrow> ltp_session \<Rightarrow> u64 \<Rightarrow> u64 \<Rightarrow> (engine \<times> ltp_session) res" where
  "generate_report e session checkpoint_serial upper_bound =
    (let session = session\<lparr>report_serial_counter := report_serial_counter session + 1\<rparr>;
         rs = \<lparr>rs_report_serial = report_serial_counter session,
               rs_checkpoint_serial = checkpoint_serial, rs_upper_bound = upper_bound,
               rs_lower_bound = 0, rs_claims = reception_tracker session\<rparr>;
         report = default_segment
           \<lparr>segment_type := REPORT_SEGMENT, seg_engine_id := s_engine_id session,
            seg_session_number := s_session_number session, content := Report_Seg rs\<rparr>
     in rbind (send_segment e report) (\<lambda>e. Inr (e, session)))"

text \<open>The vector handed to the data callback: \<open>client_data\<close> up to \<open>total_data_length\<close>.\<close>

definition deliver_data :: "engine \<Rightarrow> ltp_session \<Rightarrow> engine res" where
  "deliver_data e session =
    (if on_data_arrival e
     then rbind (read_range (client_data session) 0 (total_data_length session)) (\<lambda>delivered.
          Inr (emit True (Arrived delivered) e))
     else Inr e)"

text \<open>Finding the session of a data segment, or creating it as a receiver session; \<open>None\<close>
  when the table is full.\<close>

definition new_receiver :: "ltp_segment \<Rightarrow> ltp_session" where
  "new_receiver segment = default_session
     \<lparr>s_engine_id := seg_engine_id segment, s_session_number := seg_session_number segment,
      role := RECEIVER, state := ACTIVE, is_red_session := is_red (segment_type segment)\<rparr>"

definition open_receiver :: "engine \<Rightarrow> ltp_segment \<Rightarrow> (ltp_session \<times> engine) option" where
  "open_receiver e segment =
    (let key = (seg_engine_id segment, seg_session_number segment) in
     case fmlookup (sessions e) key of
       Some session \<Rightarrow> Some (session, e)
     | None \<Rightarrow>
         if active_session_count e \<ge> unat (max_concurrent_sessions (config e)) then None
         else
           let session = new_receiver segment
           in Some (session, tally sessions_received_update (emplace_session key session e)))"

text \<open>The reassembly buffer, the tracker and the total length.\<close>

definition store_segment_data :: "u8 \<Rightarrow> data_seg_content \<Rightarrow> ltp_session \<Rightarrow> ltp_session res" where
  "store_segment_data type ds session =
    (let seg_end = ds_offset ds + ds_length ds in
     rbind (grow (client_data session) seg_end) (\<lambda>buf.
     rbind (if ds_length ds > 0 then copy_to buf (unat (ds_offset ds)) (ds_data ds) else Inr buf) (\<lambda>buf.
     let session = session\<lparr>client_data := buf,
           reception_tracker := add_range (reception_tracker session) (ds_offset ds) (ds_length ds)\<rparr>
     in Inr (if has_eob type then session\<lparr>total_data_length := seg_end\<rparr> else session))))"

definition answer_checkpoint :: "engine \<Rightarrow> u8 \<Rightarrow> data_seg_content \<Rightarrow> ltp_session
    \<Rightarrow> (engine \<times> ltp_session) res" where
  "answer_checkpoint e type ds session =
    (if has_checkpoint type then
       case ds_checkpoint_serial ds of
         Some serial \<Rightarrow> generate_report e session serial (ds_offset ds + ds_length ds)
       | None \<Rightarrow> Inr (e, session)
     else Inr (e, session))"

text \<open>Closing a session whose block is handed to the data callback.\<close>

definition complete_receiver :: "engine \<Rightarrow> session_key \<Rightarrow> ltp_session \<Rightarrow> engine res" where
  "complete_receiver e key session =
    (let session = session\<lparr>state := COMPLETED\<rparr>;
         e = tally sessions_completed_update (put_session key session e)
     in rbind (deliver_data e session) (\<lambda>e. Inr (erase_session key e)))"

definition receive_data_segment :: "engine \<Rightarrow> ltp_segment \<Rightarrow> engine res" where
  "receive_data_segment e segment =
    rbind (get_data (content segment)) (\<lambda>ds.
    let key = (seg_engine_id segment, seg_session_number segment);
        type = segment_type segment in
    case open_receiver e segment of
      None \<Rightarrow> Inr e
    | Some (session, e) \<Rightarrow>
        if state session \<noteq> ACTIVE then Inr e
        else
          let e = (if is_red type then tally red_segments_received_update e
                   else tally green_segments_received_update e)
          in rbind (store_segment_data type ds session) (\<lambda>session.
             rbind (answer_checkpoint e type ds session) (\<lambda>(e, session).
             if is_green type \<and> has_eob type then complete_receiver e key session
             else Inr (put_session key session e))))"

section \<open>Cancelling\<close>

definition cancel_session :: "engine \<Rightarrow> u64 \<Rightarrow> u64 \<Rightarrow> u8 \<Rightarrow> engine res" where
  "cancel_session e engine_id session_number reason =
    (let key = (engine_id, session_number) in
     case fmlookup (sessions e) key of
       None \<Rightarrow> Inr e
     | Some session \<Rightarrow>
         let cancel_seg = default_segment
               \<lparr>seg_engine_id := engine_id, seg_session_number := session_number,
                segment_type := (if role session = ORIGINATOR then CANCEL_BY_SENDER
                                 else CANCEL_BY_RECEIVER),
                content := Cancel_Seg \<lparr>reason_code = reason\<rparr>\<rparr>
         in rbind (send_segment e cancel_seg) (\<lambda>e.
            let e = put_session key (session\<lparr>state := CANCELLED\<rparr>) e;
                e = tally sessions_cancelled_update e;
                e = emit (on_session_failure e) (Session_Failed session_number reason) e
            in Inr (erase_session key e)))"

text \<open>The part of \<open>receive_cancel_segment\<close> after the acknowledgment.\<close>

definition close_cancelled :: "session_key \<Rightarrow> u8 \<Rightarrow> engine \<Rightarrow> engine" where
  "close_cancelled key reason e =
    (case fmlookup (sessions e) key of
       None \<Rightarrow> e
     | Some session \<Rightarrow>
         let e = put_session key (session\<lparr>state := CANCELLED\<rparr>) e;
             e = tally sessions_cancelled_update e;
             e = emit (on_session_failure e) (Session_Failed (s_session_number session) reason) e
         in erase_session key e)"

definition receive_cancel_segment :: "engine \<Rightarrow> ltp_segment \<Rightarrow> engine res" where
  "receive_cancel_segment e segment =
    (let e = tally cancel_segments_received_update e in
     rbind (get_cancel (content segment)) (\<lambda>cc.
     let ack = default_segment
           \<lparr>seg_engine_id := seg_engine_id segment,
            seg_session_number := seg_session_number segment,
            segment_type := (if segment_type segment = CANCEL_BY_SENDER then CANCEL_ACK_TO_SENDER
                             else CANCEL_ACK_TO_RECEIVER),
            content := Cancel_Seg \<lparr>reason_code = 0\<rparr>\<rparr>
     in rbind (send_segment e ack) (\<lambda>e.
        Inr (close_cancelled (seg_engine_id segment, seg_session_number segment)
               (reason_code cc) e))))"

definition receive_cancel_ack :: "engine \<Rightarrow> ltp_segment \<Rightarrow> engine res" where
  "receive_cancel_ack e segment =
    (let key = (seg_engine_id segment, seg_session_number segment) in
     case fmlookup (sessions e) key of
       None \<Rightarrow> Inr e
     | Some session \<Rightarrow> if state session = CANCELLED then Inr (erase_session key e) else Inr e)"

section \<open>Reports\<close>

definition send_report_ack :: "engine \<Rightarrow> u64 \<Rightarrow> u64 \<Rightarrow> u64 \<Rightarrow> engine res" where
  "send_report_ack e engine_id session_number report_serial =
    send_segment e (default_segment
      \<lparr>segment_type := REPORT_ACK, seg_engine_id := engine_id,
       seg_session_number := session_number,
       content := Rpt_Ack \<lparr>ra_report_serial = report_serial\<rparr>\<rparr>)"

fun compute_gaps_loop :: "u64 \<Rightarrow> u64 \<Rightarrow> ranges \<Rightarrow> ranges \<Rightarrow> ranges \<times> u64" where
  "compute_gaps_loop cursor upper gaps [] = (gaps, cursor)"
| "compute_gaps_loop cursor upper gaps (c # cs) =
     (if cursor \<ge> upper then (gaps, cursor)
      else
        let c_end = claim_offset c + claim_length c
        in if c_end \<le> cursor then compute_gaps_loop cursor upper gaps cs
           else
             let gaps = (if claim_offset c > cursor
                   then let gap_end = min (claim_offset c) upper
                        in gaps @ [\<lparr>claim_offset = cursor, claim_length = gap_end - cursor\<rparr>]
                   else gaps)
             in compute_gaps_loop (max cursor c_end) upper gaps cs)"

definition compute_gaps :: "ranges \<Rightarrow> u64 \<Rightarrow> u64 \<Rightarrow> ranges" where
  "compute_gaps claims lower upper =
    (let (gaps, cursor) = compute_gaps_loop lower upper [] claims
     in if cursor < upper
        then gaps @ [\<lparr>claim_offset = cursor, claim_length = upper - cursor\<rparr>] else gaps)"

text \<open>The chunk loop over one gap, on 64-bit offsets from the report.\<close>

partial_function (option) gap_loop :: "ltp_session \<Rightarrow> u32 \<Rightarrow> u64 \<Rightarrow> u64 \<Rightarrow> ltp_segment list
    \<Rightarrow> ltp_segment list res option" where
  "gap_loop session max_seg offset remaining segments =
    (if remaining > 0 then
       let chunk = min (ucast max_seg) remaining
       in case read_range (client_data session) (unat offset) chunk of
            Inl err \<Rightarrow> Some (Inl err)
          | Inr d \<Rightarrow>
              gap_loop session max_seg (offset + chunk) (remaining - chunk)
                (segments @ [data_segment session RED_DATA
                   \<lparr>client_service_id = 1, ds_offset = offset, ds_length = chunk,
                    ds_checkpoint_serial = None, ds_report_serial = None, ds_data = d\<rparr>])
     else Some (Inr segments))"

fun collect_gaps :: "ltp_session \<Rightarrow> u32 \<Rightarrow> ranges \<Rightarrow> ltp_segment list \<Rightarrow> ltp_segment list res" where
  "collect_gaps session max_seg [] segments = Inr segments"
| "collect_gaps session max_seg (gap # gaps) segments =
     (case gap_loop session max_seg (claim_offset gap) (claim_length gap) segments of
        None \<Rightarrow> Inl Diverges
      | Some r \<Rightarrow> rbind r (collect_gaps session max_seg gaps))"

definition mark_checkpoint :: "u64 \<Rightarrow> ltp_segment \<Rightarrow> ltp_segment res" where
  "mark_checkpoint serial seg =
    rbind (get_data (content seg)) (\<lambda>ds.
    Inr (seg\<lparr>segment_type := RED_DATA_CP,
             content := Data_Seg (ds\<lparr>ds_checkpoint_serial := Some serial,
                                     ds_report_serial := Some 0\<rparr>)\<rparr>))"

definition retransmit_gaps :: "engine \<Rightarrow> ltp_session \<Rightarrow> ranges \<Rightarrow> (engine \<times> ltp_session) res" where
  "retransmit_gaps e session gaps =
    rbind (collect_gaps session (max_segment_size (config e)) gaps []) (\<lambda>segments.
    if segments \<noteq> [] then
      let session = session\<lparr>checkpoint_serial_counter := checkpoint_serial_counter session + 1\<rparr>
      in rbind (mark_checkpoint (checkpoint_serial_counter session) (last segments)) (\<lambda>cp_seg.
         rbind (send_all e (butlast segments @ [cp_seg])) (\<lambda>e. Inr (e, session)))
    else Inr (e, session))"

definition disarm_checkpoint :: "u64 \<Rightarrow> engine \<Rightarrow> engine" where
  "disarm_checkpoint key e =
    (case fmlookup (checkpoint_timers e) key of
       None \<Rightarrow> e
     | Some tid \<Rightarrow> e\<lparr>timers := map_option (\<lambda>tm. cancel_timer tm tid) (timers e),
                     checkpoint_timers := fmdrop key (checkpoint_timers e)\<rparr>)"

definition disarm_report :: "u64 \<Rightarrow> engine \<Rightarrow> engine" where
  "disarm_report key e =
    (case fmlookup (report_timers e) key of
       None \<Rightarrow> e
     | Some tid \<Rightarrow> e\<lparr>timers := map_option (\<lambda>tm. cancel_timer tm tid) (timers e),
                     report_timers := fmdrop key (report_timers e)\<rparr>)"

definition fully_reported :: "ltp_session \<Rightarrow> report_seg_content \<Rightarrow> bool" where
  "fully_reported session rs =
    (if total_data_length session = 0 then True
     else length (rs_claims rs) = 1 \<and> claim_offset (rs_claims rs ! 0) = 0
          \<and> claim_length (rs_claims rs ! 0) \<ge> total_data_length session)"

definition receive_report_segment :: "engine \<Rightarrow> ltp_segment \<Rightarrow> engine res" where
  "receive_report_segment e segment =
    (let e = tally reports_received_update e in
     rbind (get_report (content segment)) (\<lambda>rs.
     let key = (local_engine_id (config e), seg_session_number segment) in
     case fmlookup (sessions e) key of
       None \<Rightarrow> send_report_ack e (seg_engine_id segment) (seg_session_number segment)
                 (rs_report_serial rs)
     | Some session \<Rightarrow>
         if role session \<noteq> ORIGINATOR then Inr e
         else if state session \<noteq> ACTIVE then Inr e
         else
           rbind (send_report_ack e (seg_engine_id segment) (seg_session_number segment)
                   (rs_report_serial rs)) (\<lambda>e.
           let e = disarm_checkpoint (timer_key (seg_session_number segment) (rs_checkpoint_serial rs)) e
           in if fully_reported session rs then
                let e = put_session key (session\<lparr>state := COMPLETED\<rparr>) e;
                    e = tally sessions_completed_update e;
                    e = emit (on_session_complete e) (Session_Complete (s_session_number session)) e
                in Inr (erase_session key e)
              else
                let gaps = compute_gaps (rs_claims rs) (rs_lower_bound rs) (rs_upper_bound rs) in
                if gaps = [] then Inr e
                else
                  let session = session\<lparr>retransmission_count := retransmission_count session + 1\<rparr>;
                      e = put_session key session e
                  in if retransmission_count session > max_retransmissions (config e)
                     then cancel_session e (s_engine_id session) (s_session_number session) 1
                     else rbind (retransmit_gaps (tally retransmissions_update e) session gaps)
                            (\<lambda>(e, session). Inr (put_session key session e)))))"

definition receive_report_ack :: "engine \<Rightarrow> ltp_segment \<Rightarrow> engine res" where
  "receive_report_ack e segment =
    (let e = tally report_acks_received_update e in
     rbind (get_rpt_ack (content segment)) (\<lambda>ra.
     let key = (seg_engine_id segment, seg_session_number segment) in
     case fmlookup (sessions e) key of
       None \<Rightarrow> Inr e
     | Some session \<Rightarrow>
         if role session \<noteq> RECEIVER then Inr e
         else
           let e = disarm_report (timer_key (seg_session_number segment) (ra_report_serial ra)) e
           in if is_complete (reception_tracker session) (total_data_length session)
              then complete_receiver e key session
              else Inr e))"

section \<open>Dispatch, timers and the wire\<close>

definition receive_segment :: "engine \<Rightarrow> ltp_segment \<Rightarrow> engine res" where
  "receive_segment e segment =
    (if is_data (segment_type segment) then receive_data_segment e segment
     else if segment_type segment = REPORT_SEGMENT then receive_report_segment e segment
     else if segment_type segment = REPORT_ACK then receive_report_ack e segment
     else if segment_type segment = CANCEL_BY_SENDER \<or> segment_type segment = CANCEL_BY_RECEIVER
     then receive_cancel_segment e segment
     else if segment_type segment = CANCEL_ACK_TO_SENDER
          \<or> segment_type segment = CANCEL_ACK_TO_RECEIVER
     then receive_cancel_ack e segment
     else Inr e)"

definition handle_timer_expiry :: "engine \<Rightarrow> timer_event \<Rightarrow> engine res" where
  "handle_timer_expiry e event =
    (if ev_type event = CHECKPOINT then
       let key = (local_engine_id (config e), ev_session_number event) in
       case fmlookup (sessions e) key of
         None \<Rightarrow> Inr e
       | Some session \<Rightarrow>
           if state session \<noteq> ACTIVE then Inr e
           else if role session \<noteq> ORIGINATOR then Inr e
           else
             let session = session\<lparr>retransmission_count := retransmission_count session + 1\<rparr>;
                 e = put_session key session e
             in if retransmission_count session > max_retransmissions (config e)
                then cancel_session e (s_engine_id session) (s_session_number session) 1
                else
                  let e = tally retransmissions_update e
                  in rbind (segment_data e session) (\<lambda>(segments, session).
                     send_all (put_session key session e) segments)
     else if ev_type event = REPORT_TIMER then
       let key = (ev_engine_id event, ev_session_number event) in
       case fmlookup (sessions e) key of
         None \<Rightarrow> Inr e
       | Some session \<Rightarrow>
           if state session \<noteq> ACTIVE then Inr e
           else if role session \<noteq> RECEIVER then Inr e
           else
             let e = tally retransmissions_update e
             in if total_data_length session > 0
                then rbind (generate_report e session (ev_serial_number event)
                             (total_data_length session))
                       (\<lambda>(e, session). Inr (put_session key session e))
                else Inr e
     else Inr e)"

text \<open>The segment callback of \<^verbatim>\<open>main.cpp\<close>: malformed segments are dropped.\<close>

definition on_wire :: "engine \<Rightarrow> bytes \<Rightarrow> engine res" where
  "on_wire e data =
    rbind (segment_decode data) (\<lambda>seg.
    case seg of None \<Rightarrow> Inr e | Some seg \<Rightarrow> receive_segment e seg)"

end
