(* ===== verification/Segmentation.thy ===== *)
theory Segmentation
  imports Engine
begin

text \<open>
  What the two chunk loops of the engine produce: \<open>segment_data\<close> splits a block into
  consecutive chunks and flags exactly the last one, and diverges exactly for a segment size
  of 0; \<open>retransmit_gaps\<close> covers exactly the gaps, with a checkpoint on the last segment.
\<close>

section \<open>Chunks\<close>

fun chunks :: "nat \<Rightarrow> nat \<Rightarrow> bytes \<Rightarrow> (nat \<times> bytes) list" where
  "chunks m off d = (if m = 0 \<or> d = [] then [] else (off, take m d) # chunks m (off + m) (drop m d))"

declare chunks.simps [simp del]

lemma chunks_empty [simp]: "chunks m off [] = []" "chunks 0 off d = []"
  by (simp_all add: chunks.simps)

lemma chunks_step: "m \<noteq> 0 \<Longrightarrow> d \<noteq> [] \<Longrightarrow> chunks m off d = (off, take m d) # chunks m (off + m) (drop m d)"
  by (simp add: chunks.simps)

lemma chunks_nonempty: "m \<noteq> 0 \<Longrightarrow> d \<noteq> [] \<Longrightarrow> chunks m off d \<noteq> []"
  by (simp add: chunks.simps)

lemma chunks_concat: "m \<noteq> 0 \<Longrightarrow> concat (map snd (chunks m off d)) = d"
proof (induction m off d rule: chunks.induct)
  case (1 m off d)
  then show ?case by (cases "d = []") (simp_all add: chunks_step)
qed

lemma chunks_mem:
  "(o', c) \<in> set (chunks m off d) \<Longrightarrow>
     off \<le> o' \<and> o' + length c \<le> off + length d \<and> c = take m (drop (o' - off) d)
     \<and> 0 < length c \<and> length c \<le> m"
proof (induction m off d rule: chunks.induct)
  case (1 m off d)
  show ?case
  proof (cases "m = 0 \<or> d = []")
    case False
    then consider "o' = off" "c = take m d" | "(o', c) \<in> set (chunks m (off + m) (drop m d))"
      using 1(2) by (auto simp: chunks_step)
    then show ?thesis
    proof cases
      case 2
      with 1(1) False have "off + m \<le> o' \<and> o' + length c \<le> off + m + length (drop m d)
        \<and> c = take m (drop (o' - (off + m)) (drop m d)) \<and> 0 < length c \<and> length c \<le> m" by blast
      then show ?thesis by (auto simp: drop_drop)
    qed (use False in auto)
  qed (use 1 in auto)
qed

lemma chunks_cover:
  "m \<noteq> 0 \<Longrightarrow> (\<Union>(o', c) \<in> set (chunks m off d). {o' ..< o' + length c}) = {off ..< off + length d}"
proof (induction m off d rule: chunks.induct)
  case (1 m off d)
  show ?case
  proof (cases "d = []")
    case False
    with 1 have "(\<Union>(o', c) \<in> set (chunks m (off + m) (drop m d)). {o' ..< o' + length c})
        = {off + m ..< off + m + length (drop m d)}" by blast
    with False 1(2) show ?thesis by (auto simp: chunks_step min_def)
  qed simp
qed

lemma chunks_offsets:
  "i < length (chunks m off d) \<Longrightarrow>
     fst (chunks m off d ! i) = off + length (concat (map snd (take i (chunks m off d))))"
proof (induction m off d arbitrary: i rule: chunks.induct)
  case (1 m off d)
  show ?case
  proof (cases "m = 0 \<or> d = []")
    case False
    then have eq: "chunks m off d = (off, take m d) # chunks m (off + m) (drop m d)"
      by (simp add: chunks_step)
    show ?thesis
    proof (cases i)
      case (Suc j)
      then have j: "j < length (chunks m (off + m) (drop m d))" using 1(2) eq by simp
      then have "m \<le> length d" by (cases "m \<le> length d") auto
      with 1(1) [OF False j] show ?thesis by (simp add: eq Suc min_def)
    qed (simp add: eq)
  qed (use 1 in auto)
qed

section \<open>The segments of a block\<close>

definition chunk_type :: "bool \<Rightarrow> bool \<Rightarrow> u8" where
  "chunk_type red is_last =
     (if red then if is_last then RED_DATA_CP_EORP_EOB else RED_DATA
      else if is_last then GREEN_DATA_EOB else GREEN_DATA)"

definition chunk_seg :: "ltp_session \<Rightarrow> u64 \<Rightarrow> bool \<Rightarrow> nat \<times> bytes \<Rightarrow> ltp_segment" where
  "chunk_seg s cp is_last p =
     data_segment s (chunk_type (is_red_session s) is_last)
      \<lparr>client_service_id = 1, ds_offset = of_nat (fst p), ds_length = of_nat (length (snd p)),
       ds_checkpoint_serial = (if is_red_session s \<and> is_last then Some (cp + 1) else None),
       ds_report_serial = (if is_red_session s \<and> is_last then Some 0 else None), ds_data = snd p\<rparr>"

definition chunk_segs :: "ltp_session \<Rightarrow> u64 \<Rightarrow> (nat \<times> bytes) list \<Rightarrow> ltp_segment list" where
  "chunk_segs s cp ps = map (chunk_seg s cp False) (butlast ps) @ [chunk_seg s cp True (last ps)]"

definition block_chunks :: "u32 \<Rightarrow> bytes \<Rightarrow> (nat \<times> bytes) list" where
  "block_chunks max_seg d = (if d = [] then [(0, [])] else chunks (unat max_seg) 0 d)"

lemma segment_loop_eq:
  assumes "unat max_seg \<noteq> 0" "rem > 0" "rem = length (client_data s) - off"
  shows "segment_loop s max_seg off rem cp segs
    = Some (segs @ chunk_segs s cp (chunks (unat max_seg) off (drop off (client_data s))),
            if is_red_session s then cp + 1 else cp)"
  using assms(2,3)
proof (induction rem arbitrary: off segs rule: less_induct)
  case (less rem)
  let ?m = "unat max_seg" and ?d = "drop off (client_data s)"
  have d: "?d \<noteq> []" "length ?d = rem" using less.prems by auto
  show ?case
  proof (cases "rem \<le> ?m")
    case True
    then have "chunks ?m off ?d = [(off, ?d)]"
      using d assms(1) by (simp add: chunks_step)
    then show ?thesis using True less.prems d
      by (subst segment_loop.simps)
        (simp add: min_def segment_loop.simps chunk_segs_def chunk_seg_def chunk_type_def Let_def)
  next
    case False
    let ?rest = "chunks ?m (off + ?m) (drop (off + ?m) (client_data s))"
    have ne: "?rest \<noteq> []" using False d assms(1) by (intro chunks_nonempty) auto
    have "chunks ?m off ?d = (off, take ?m ?d) # ?rest"
      using d assms(1) by (simp add: chunks_step add.commute)
    then have cs: "chunk_segs s cp (chunks ?m off ?d)
        = chunk_seg s cp False (off, take ?m ?d) # chunk_segs s cp ?rest"
      using ne by (simp add: chunk_segs_def)
    have ih: "segment_loop s max_seg (off + ?m) (length (client_data s) - (off + ?m)) cp (segs @ [x])
        = Some ((segs @ [x]) @ chunk_segs s cp ?rest, if is_red_session s then cp + 1 else cp)" for x
      using False assms(1) less.prems by (intro less.IH) auto
    have "length (take ?m ?d) = ?m" using False d by simp
    then show ?thesis using False less.prems assms(1)
      by (subst segment_loop.simps)
        (simp add: min_def cs ih chunk_seg_def chunk_type_def Let_def)
  qed
qed

lemma segment_loop_diverges:
  assumes "rem > 0"
  shows "segment_loop s 0 off rem cp segs = None"
proof -
  have never: "m = 0 \<longrightarrow> rem = 0" if "segment_loop s m off rem cp segs = Some r" for s m off rem cp segs r
  proof (rule segment_loop.raw_induct [where P = "\<lambda>s m off rem cp segs r. m = 0 \<longrightarrow> rem = 0", OF _ that])
    fix loop s m off rem cp segs r
    assume ih: "\<And>s m off rem cp segs r. loop s m off rem cp segs = Some r \<Longrightarrow> m = 0 \<longrightarrow> rem = (0 :: nat)"
      and eq: "(if 0 < rem then
          let chunk = min (unat m) rem; is_last = chunk = rem;
              ds = \<lparr>client_service_id = 1, ds_offset = of_nat off, ds_length = of_nat chunk,
                    ds_checkpoint_serial = None, ds_report_serial = None,
                    ds_data = take chunk (drop off (client_data s))\<rparr>;
              (type, ds, cp) =
                if is_red_session s then
                  if is_last then (RED_DATA_CP_EORP_EOB,
                    ds\<lparr>ds_checkpoint_serial := Some (cp + 1), ds_report_serial := Some 0\<rparr>, cp + 1)
                  else (RED_DATA, ds, cp)
                else (if is_last then GREEN_DATA_EOB else GREEN_DATA, ds, cp)
          in loop s m (off + chunk) (rem - chunk) cp (segs @ [data_segment s type ds])
        else Some (segs, cp)) = Some r"
    show "m = 0 \<longrightarrow> rem = 0"
    proof (intro impI, rule ccontr)
      assume "m = 0" "rem \<noteq> 0"
      with eq obtain t d c where "loop s m off rem c (segs @ [data_segment s t d]) = Some r"
        by (simp add: Let_def split: if_splits)
      with ih \<open>m = 0\<close> \<open>rem \<noteq> 0\<close> show False by blast
    qed
  qed
  show ?thesis using never [of s 0 off rem cp segs] assms
    by (cases "segment_loop s 0 off rem cp segs") blast+
qed

lemma segment_data_impl_eq:
  "segment_data_impl s max_seg cp =
    (if max_seg = 0 \<and> client_data s \<noteq> [] then Inl Diverges
     else Inr (chunk_segs s cp (block_chunks max_seg (client_data s)),
               if is_red_session s then cp + 1 else cp))"
proof (cases "client_data s = []")
  case True
  then show ?thesis
    by (simp add: segment_data_impl_def block_chunks_def chunk_segs_def chunk_seg_def
        chunk_type_def Let_def)
next
  case False
  then show ?thesis
    using segment_loop_eq [of max_seg "length (client_data s)" s 0 cp "[]"]
      segment_loop_diverges [of "length (client_data s)" s 0 cp "[]"]
    by (auto simp: segment_data_impl_def block_chunks_def unat_eq_0)
qed

section \<open>The segments of the gaps\<close>

definition gap_seg :: "ltp_session \<Rightarrow> nat \<times> bytes \<Rightarrow> ltp_segment" where
  "gap_seg s p = data_segment s RED_DATA
     \<lparr>client_service_id = 1, ds_offset = of_nat (fst p), ds_length = of_nat (length (snd p)),
      ds_checkpoint_serial = None, ds_report_serial = None, ds_data = snd p\<rparr>"

definition slice :: "bytes \<Rightarrow> reception_claim \<Rightarrow> bytes" where
  "slice d g = take (unat (claim_length g)) (drop (unat (claim_offset g)) d)"

definition gap_chunks :: "u32 \<Rightarrow> bytes \<Rightarrow> ranges \<Rightarrow> (nat \<times> bytes) list" where
  "gap_chunks max_seg d gaps =
     concat (map (\<lambda>g. chunks (unat max_seg) (unat (claim_offset g)) (slice d g)) gaps)"

lemma unat_ucast_u32: "unat (ucast (m :: u32) :: u64) = unat m"
proof -
  have "unat m < 2 ^ 64" using unsigned_less [of m, where ?'a = nat] by simp
  then show ?thesis by (simp add: unsigned_ucast_eq take_bit_nat_eq_self)
qed

lemma gap_loop_eq:
  assumes m: "unat max_seg \<noteq> 0" and len: "length (client_data s) < 2 ^ 64"
    and fits: "unat off + unat rem \<le> length (client_data s)"
  shows "gap_loop s max_seg off rem segs
    = Some (Inr (segs @ map (gap_seg s) (chunks (unat max_seg) (unat off)
        (take (unat rem) (drop (unat off) (client_data s))))))"
  using fits
proof (induction "unat rem" arbitrary: off rem segs rule: less_induct)
  case less
  let ?d = "client_data s" and ?m = "unat max_seg"
  show ?case
  proof (cases "rem = 0")
    case True
    then show ?thesis by (subst gap_loop.simps) simp
  next
    case False
    let ?c = "min (ucast max_seg) rem"
    have c: "unat ?c = min ?m (unat rem)" by (simp add: min_word_unat unat_ucast_u32)
    have r: "unat rem \<noteq> 0" using False by (simp add: unat_eq_0)
    have le: "?c \<le> rem" by simp
    have "unat off + unat ?c < 2 ^ 64" using less.prems len c by linarith
    then have off: "unat (off + ?c) = unat off + unat ?c" by (rule unat_plus_no_wrap)
    have rem: "unat (rem - ?c) = unat rem - unat ?c" using le by (rule unat_minus_no_wrap)
    have rr: "read_range ?d (unat off) ?c = Inr (take (unat ?c) (drop (unat off) ?d))"
      using less.prems c by (simp add: read_range_def)
    have eq: "chunks ?m (unat off) (take (unat rem) (drop (unat off) ?d))
      = (unat off, take (unat ?c) (drop (unat off) ?d))
        # chunks ?m (unat off + unat ?c) (take (unat rem - unat ?c) (drop (unat off + unat ?c) ?d))"
    proof (cases "?m \<le> unat rem")
      case True
      then show ?thesis using m r less.prems c
        by (subst chunks_step) (auto simp: drop_take min_def add.commute)
    next
      case big: False
      then show ?thesis using m r less.prems c
        by (subst chunks_step) (auto simp: min_def)
    qed
    have ih: "gap_loop s max_seg (off + ?c) (rem - ?c) (segs @ [x])
      = Some (Inr ((segs @ [x]) @ map (gap_seg s) (chunks ?m (unat off + unat ?c)
          (take (unat rem - unat ?c) (drop (unat off + unat ?c) ?d)))))" for x
      using less.hyps [of "rem - ?c" "off + ?c"] less.prems off rem c r m by simp
    have "min (length ?d - unat off) (unat ?c) = unat ?c" using less.prems c by simp
    then have "data_segment s RED_DATA
       \<lparr>client_service_id = 1, ds_offset = off, ds_length = ?c, ds_checkpoint_serial = None,
        ds_report_serial = None, ds_data = take (unat ?c) (drop (unat off) ?d)\<rparr>
      = gap_seg s (unat off, take (unat ?c) (drop (unat off) ?d))"
      by (simp add: gap_seg_def)
    then show ?thesis using False rr
      by (subst gap_loop.simps) (simp add: Let_def eq ih word_gt_0)
  qed
qed

lemma collect_gaps_eq:
  assumes m: "unat max_seg \<noteq> 0" and len: "length (client_data s) < 2 ^ 64"
  shows "\<forall>g \<in> set gaps. unat (claim_offset g) + unat (claim_length g) \<le> length (client_data s)
    \<Longrightarrow> collect_gaps s max_seg gaps segs
      = Inr (segs @ map (gap_seg s) (gap_chunks max_seg (client_data s) gaps))"
  by (induction gaps arbitrary: segs)
    (simp_all add: gap_chunks_def gap_loop_eq [OF m len] slice_def)

lemma compute_gaps_loop_eq: "compute_gaps_loop c u gs rs = gaps_loop c u gs rs"
  by (induction rs arbitrary: c gs) (simp_all add: claim_end_def Let_def)

lemma compute_gaps_eq: "compute_gaps claims lo up = get_gaps claims lo up"
proof (cases "lo \<ge> up")
  case True
  then have "scan lo up claims = []" by (rule scan_done)
  with True show ?thesis
    by (simp add: compute_gaps_def get_gaps_def compute_gaps_loop_eq finish_gaps_def
        split: prod.splits)
qed (simp add: compute_gaps_def get_gaps_def compute_gaps_loop_eq finish_gaps_def split: prod.splits)

section \<open>Properties\<close>

text \<open>C15. Segmentation is a partition of the block: the segments carry consecutive pieces, each at
  the offset where the previous one ended and at most a segment long, their data concatenates to
  the block, and exactly the last one is marked as its end (with the next checkpoint serial when
  the session is red). A segment size of 0 makes the loop run forever on a non-empty block.\<close>

theorem segmentation_partitions:
  assumes "length (client_data s) < 2 ^ 64"
  shows "if max_seg = 0 \<and> client_data s \<noteq> [] then segment_data_impl s max_seg cp = Inl Diverges
    else \<exists>segs ds. segment_data_impl s max_seg cp = Inr (segs, if is_red_session s then cp + 1 else cp)
      \<and> segs \<noteq> [] \<and> map content segs = map Data_Seg ds
      \<and> concat (map ds_data ds) = client_data s
      \<and> (\<forall>i < length segs. unat (ds_offset (ds ! i)) = length (concat (map ds_data (take i ds)))
          \<and> unat (ds_length (ds ! i)) = length (ds_data (ds ! i))
          \<and> length (ds_data (ds ! i)) \<le> unat max_seg
          \<and> seg_engine_id (segs ! i) = s_engine_id s \<and> seg_session_number (segs ! i) = s_session_number s
          \<and> segment_type (segs ! i) = chunk_type (is_red_session s) (i = length segs - 1)
          \<and> ds_checkpoint_serial (ds ! i)
             = (if is_red_session s \<and> i = length segs - 1 then Some (cp + 1) else None))"
proof (cases "max_seg = 0 \<and> client_data s \<noteq> []")
  case False
  let ?b = "block_chunks max_seg (client_data s)"
  have ne: "?b \<noteq> []"
    using False chunks_nonempty [of "unat max_seg" "client_data s" 0] by (auto simp: block_chunks_def unat_eq_0)
  let ?n = "length ?b - 1"
  define segs where "segs = chunk_segs s cp ?b"
  define ds where "ds = map (\<lambda>seg. case content seg of Data_Seg d \<Rightarrow> d) segs"
  have len: "length segs = length ?b" using ne by (simp add: segs_def chunk_segs_def)
  have nth: "segs ! i = chunk_seg s cp (i = ?n) (?b ! i)" if "i < length ?b" for i
    using that ne by (cases "i = ?n") (simp_all add: segs_def chunk_segs_def nth_append nth_butlast last_conv_nth)
  have dnth: "Data_Seg (ds ! i) = content (chunk_seg s cp (i = ?n) (?b ! i))" if "i < length ?b" for i
    using that nth len by (simp add: ds_def chunk_seg_def data_segment_def)
  have dat: "map ds_data ds = map snd ?b"
    using dnth len by (intro nth_equalityI) (simp_all add: ds_def chunk_seg_def data_segment_def nth)
  have mem: "fst (?b ! i) + length (snd (?b ! i)) \<le> length (client_data s)"
    "length (snd (?b ! i)) \<le> unat max_seg" "fst (?b ! i) = length (concat (map snd (take i ?b)))"
    if "i < length ?b" for i
  proof -
    have "(fst (?b ! i), snd (?b ! i)) \<in> set ?b" using that by simp
    then show "fst (?b ! i) + length (snd (?b ! i)) \<le> length (client_data s)"
      "length (snd (?b ! i)) \<le> unat max_seg"
      using chunks_mem [of "fst (?b ! i)" "snd (?b ! i)" "unat max_seg" 0 "client_data s"]
      by (auto simp: block_chunks_def split: if_splits)
    show "fst (?b ! i) = length (concat (map snd (take i ?b)))"
      using that chunks_offsets [of i "unat max_seg" 0 "client_data s"]
      by (auto simp: block_chunks_def split: if_splits)
  qed
  have "concat (map snd ?b) = client_data s"
    using False chunks_concat [of "unat max_seg" 0 "client_data s"] by (auto simp: block_chunks_def unat_eq_0)
  moreover have "map content segs = map Data_Seg ds"
    using dnth len by (intro nth_equalityI) (simp_all add: ds_def nth)
  moreover have "segment_data_impl s max_seg cp = Inr (segs, if is_red_session s then cp + 1 else cp)"
    using False by (simp add: segment_data_impl_eq segs_def)
  moreover have "unat (ds_offset (ds ! i)) = length (concat (map ds_data (take i ds)))
          \<and> unat (ds_length (ds ! i)) = length (ds_data (ds ! i))
          \<and> length (ds_data (ds ! i)) \<le> unat max_seg
          \<and> seg_engine_id (segs ! i) = s_engine_id s \<and> seg_session_number (segs ! i) = s_session_number s
          \<and> segment_type (segs ! i) = chunk_type (is_red_session s) (i = length segs - 1)
          \<and> ds_checkpoint_serial (ds ! i)
             = (if is_red_session s \<and> i = length segs - 1 then Some (cp + 1) else None)"
    if "i < length segs" for i
  proof -
    from that len have i: "i < length ?b" by simp
    note d = dnth [OF i] nth [OF i] mem [OF i]
    have t: "map ds_data (take i ds) = map snd (take i ?b)" by (simp add: dat flip: take_map)
    have u: "unat (of_nat (fst (?b ! i)) :: u64) = fst (?b ! i)"
      "unat (of_nat (length (snd (?b ! i))) :: u64) = length (snd (?b ! i))"
      using mem(1) [OF i] assms by (simp_all add: unat_of_nat take_bit_nat_eq_self)
    show ?thesis using d u unfolding t len
      by (simp add: chunk_seg_def data_segment_def default_segment_def)
  qed
  ultimately show ?thesis using False ne len dat by (auto intro!: exI [of _ segs] exI [of _ ds])
qed (simp add: segment_data_impl_eq)

theorem segmentation_partitions_witness:
  "\<exists>segs ds. segment_data_impl (default_session\<lparr>client_data := [1, 2, 3]\<rparr>) 2 5 = Inr (segs, 6)
    \<and> map content segs = map Data_Seg ds \<and> concat (map ds_data ds) = [1, 2, 3]"
  using segmentation_partitions [of "default_session\<lparr>client_data := [1, 2, 3]\<rparr>" 2 5]
  by (fastforce simp: default_session_def)

text \<open>C16. The gaps that the engine computes from the claims of a report agree with the gaps of
  the receiver's tracker, and for the claims of a tracker they are exactly the bytes of the window
  that are missing.\<close>

theorem report_gaps_exact:
  "compute_gaps claims lo up = get_gaps claims lo up
   \<and> (tracker_inv claims \<longrightarrow> tracker_inv (compute_gaps claims lo up)
       \<and> covered (compute_gaps claims lo up) = {unat lo ..< unat up} - covered claims)"
  using covered_gaps [of claims lo up] tracker_inv_gaps [of claims lo up] by (simp add: compute_gaps_eq)

theorem report_gaps_exact_witness:
  "compute_gaps [\<lparr>claim_offset = 2, claim_length = 3\<rparr>] 0 9
     = get_gaps [\<lparr>claim_offset = 2, claim_length = 3\<rparr>] 0 9
   \<and> covered (compute_gaps [\<lparr>claim_offset = 2, claim_length = 3\<rparr>] 0 9) = {0 ..< 2} \<union> {5 ..< 9}"
proof -
  have "tracker_inv [\<lparr>claim_offset = 2, claim_length = 3\<rparr>]" by (simp add: range_ok_def)
  moreover have "covered [\<lparr>claim_offset = 2, claim_length = 3\<rparr>] = {2 ..< 5}"
    by (simp add: claim_set_def)
  moreover have "{unat (0 :: u64) ..< unat (9 :: u64)} - {2 ..< 5 :: nat} = {0 ..< 2} \<union> {5 ..< 9}" by auto
  ultimately show ?thesis
    using report_gaps_exact [of "[\<lparr>claim_offset = 2, claim_length = 3\<rparr>]" 0 9] by metis
qed

end
