(* ===== verification/Engine_Inv.thy ===== *)
theory Engine_Inv
  imports Segmentation
begin

text \<open>
  Invariants of the LTP engine over every sequence of its operations, hostile segments
  included: what sending leaves alone, that the session table stays bounded, correctly keyed
  and free of finished sessions, the accounting of the diagnostics, and the ways an operation
  can fail.
\<close>

section \<open>Sending touches no session\<close>

definition same_sessions :: "engine \<Rightarrow> engine \<Rightarrow> bool" where
  "same_sessions e e' \<longleftrightarrow> config e' = config e \<and> session_counter e' = session_counter e
     \<and> sessions e' = sessions e \<and> on_data_arrival e' = on_data_arrival e
     \<and> on_session_complete e' = on_session_complete e
     \<and> on_session_failure e' = on_session_failure e \<and> on_send_segment e' = on_send_segment e
     \<and> sessions_originated (diag e') = sessions_originated (diag e)
     \<and> sessions_received (diag e') = sessions_received (diag e)
     \<and> sessions_completed (diag e') = sessions_completed (diag e)
     \<and> sessions_cancelled (diag e') = sessions_cancelled (diag e)"

lemma frame_refl [simp]: "same_sessions e e"
  by (simp add: same_sessions_def)

lemma frame_trans: "same_sessions a b \<Longrightarrow> same_sessions b c \<Longrightarrow> same_sessions a c"
  by (simp add: same_sessions_def)

lemma frame_tally [simp]:
  "same_sessions e (tally red_segments_sent_update e)" "same_sessions e (tally red_segments_received_update e)"
  "same_sessions e (tally green_segments_sent_update e)" "same_sessions e (tally green_segments_received_update e)"
  "same_sessions e (tally checkpoints_sent_update e)" "same_sessions e (tally reports_received_update e)"
  "same_sessions e (tally reports_sent_update e)" "same_sessions e (tally report_acks_sent_update e)"
  "same_sessions e (tally report_acks_received_update e)" "same_sessions e (tally retransmissions_update e)"
  "same_sessions e (tally cancel_segments_sent_update e)" "same_sessions e (tally cancel_segments_received_update e)"
  by (simp_all add: same_sessions_def tally_def)

lemma frame_emit [simp]: "same_sessions e (emit b ev e)"
  by (simp add: same_sessions_def emit_def)

lemma frame_timers [simp]:
  "same_sessions e (e\<lparr>timers := t\<rparr>)" "same_sessions e (e\<lparr>checkpoint_timers := c\<rparr>)" "same_sessions e (e\<lparr>report_timers := r\<rparr>)"
  by (simp_all add: same_sessions_def)

lemma frame_disarm [simp]: "same_sessions e (disarm_checkpoint key e)" "same_sessions e (disarm_report key e)"
  by (simp_all add: same_sessions_def disarm_checkpoint_def disarm_report_def split: option.split)

lemma frame_arm_checkpoint: "arm_checkpoint_timer seg e = Inr e' \<Longrightarrow> same_sessions e e' \<and> events e' = events e"
  by (auto simp: arm_checkpoint_timer_def arm_timer_def rbind_eq_Inr Let_def same_sessions_def
      case_prod_unfold split: option.splits)

lemma frame_arm_report: "arm_report_timer seg e = Inr e' \<Longrightarrow> same_sessions e e' \<and> events e' = events e"
  by (auto simp: arm_report_timer_def arm_timer_def rbind_eq_Inr Let_def same_sessions_def
      case_prod_unfold split: option.splits)

lemma tally_events [simp]: "events (tally f e) = events e"
  by (simp add: tally_def)

lemma note_sent_frame: "note_sent e seg = Inr e' \<Longrightarrow> same_sessions e e' \<and> events e' = events e"
  by (auto simp: note_sent_def Let_def same_sessions_def tally_def
      dest!: frame_arm_checkpoint frame_arm_report split: if_splits)

lemma send_segment_frame:
  assumes "send_segment e seg = Inr e'"
  shows "same_sessions e e'"
proof -
  obtain e1 where "note_sent e seg = Inr e1" and e': "\<exists>b ev. e' = emit b ev e1 \<or> e' = e1"
    using assms unfolding send_segment_def rbind_eq_Inr by (force split: if_splits simp: rbind_eq_Inr)
  then have "same_sessions e e1" using note_sent_frame by blast
  with e' show ?thesis using frame_trans frame_emit by blast
qed

lemma send_all_frame: "send_all e segs = Inr e' \<Longrightarrow> same_sessions e e'"
proof (induction segs arbitrary: e)
  case (Cons seg segs)
  then obtain e1 where "send_segment e seg = Inr e1" "send_all e1 segs = Inr e'"
    by (auto simp: rbind_eq_Inr)
  then show ?case using Cons.IH send_segment_frame frame_trans by blast
qed simp

text \<open>A well-formed segment is always sent, and the callback is given its encoding.\<close>

lemma note_sent_ok:
  assumes "segment_fits seg"
  shows "\<exists>e'. note_sent e seg = Inr e'"
proof -
  let ?t = "segment_type seg"
  have cp: "\<exists>ds. content seg = Data_Seg ds" if "has_checkpoint ?t"
    using assms that
    by (auto simp: segment_fits_def content_fits_def seg_types seg_preds split: segment_content.splits)
  have rp: "\<exists>rs. content seg = Report_Seg rs" if "?t = REPORT_SEGMENT"
    using assms that
    by (cases "content seg") (simp_all add: segment_fits_def content_fits_def seg_types seg_preds)
  have a: "\<exists>e'. arm_checkpoint_timer seg e = Inr e'" if "has_checkpoint ?t" for e
    using cp [OF that] by (auto simp: arm_checkpoint_timer_def case_prod_unfold Let_def split: option.split)
  have r: "\<exists>e'. arm_report_timer seg e = Inr e'" if "?t = REPORT_SEGMENT" for e
    using rp [OF that] by (auto simp: arm_report_timer_def case_prod_unfold Let_def split: option.split)
  show ?thesis unfolding note_sent_def Let_def
    by (cases "is_red ?t"; cases "has_checkpoint ?t"; cases "is_green ?t"; cases "?t = REPORT_SEGMENT")
      (simp_all add: a r)
qed

lemma send_segment_ok:
  assumes "segment_fits seg"
  shows "\<exists>e'. send_segment e seg = Inr e' \<and> same_sessions e e'
    \<and> events e' = events e @ (if on_send_segment e then [Sent (segment_bytes seg)] else [])"
proof -
  obtain e1 where "note_sent e seg = Inr e1" using note_sent_ok [OF assms] by blast
  moreover from this have "same_sessions e e1" "events e1 = events e" using note_sent_frame by blast+
  moreover from this have "on_send_segment e1 = on_send_segment e" by (simp add: same_sessions_def)
  ultimately show ?thesis
    using segment_fits_encode [OF assms] by (auto simp: send_segment_def emit_def same_sessions_def)
qed

lemma send_all_ok:
  "list_all segment_wf segs \<Longrightarrow> \<exists>e'. send_all e segs = Inr e' \<and> same_sessions e e'
    \<and> events e' = events e @ (if on_send_segment e then map (\<lambda>s. Sent (segment_bytes s)) segs else [])"
proof (induction segs arbitrary: e)
  case (Cons seg segs)
  then obtain e1 where e1: "send_segment e seg = Inr e1" "same_sessions e e1"
    "events e1 = events e @ (if on_send_segment e then [Sent (segment_bytes seg)] else [])"
    using send_segment_ok [OF segment_wf_fits, of seg e] by auto
  with Cons obtain e2 where "send_all e1 segs = Inr e2" "same_sessions e1 e2"
    "events e2 = events e1 @ (if on_send_segment e1 then map (\<lambda>s. Sent (segment_bytes s)) segs else [])"
    by fastforce
  with e1 show ?case by (auto simp: same_sessions_def)
qed simp

section \<open>The effect of an operation on the session table\<close>

text \<open>Sessions opened minus sessions closed, in the 64-bit arithmetic of the counters.\<close>

definition balance :: "engine \<Rightarrow> u64" where
  "balance e = sessions_originated (diag e) + sessions_received (diag e)
     - sessions_completed (diag e) - sessions_cancelled (diag e)"

definition session_ok :: "session_key \<Rightarrow> ltp_session \<Rightarrow> bool" where
  "session_ok k s \<longleftrightarrow> k = (s_engine_id s, s_session_number s) \<and> state s = ACTIVE"

definition updates :: "engine_config \<Rightarrow> ltp_session \<Rightarrow> ltp_session \<Rightarrow> bool" where
  "updates c s0 s \<longleftrightarrow> s_engine_id s = s_engine_id s0 \<and> s_session_number s = s_session_number s0
     \<and> role s = role s0 \<and> is_red_session s = is_red_session s0 \<and> state s = state s0
     \<and> (retransmission_count s = retransmission_count s0
        \<or> retransmission_count s = retransmission_count s0 + 1
          \<and> retransmission_count s \<le> max_retransmissions c)"

inductive effect :: "session_key set \<Rightarrow> engine \<Rightarrow> engine \<Rightarrow> bool" for K where
  keep: "session_counter e' = session_counter e \<Longrightarrow> config e' = config e \<Longrightarrow> sessions e' = sessions e \<Longrightarrow> balance e' = balance e
    \<Longrightarrow> effect K e e'"
| update: "session_counter e' = session_counter e \<Longrightarrow> config e' = config e \<Longrightarrow> fmlookup (sessions e) k = Some s0 \<Longrightarrow> updates (config e) s0 s
    \<Longrightarrow> sessions e' = fmupd k s (sessions e) \<Longrightarrow> balance e' = balance e \<Longrightarrow> effect K e e'"
| create: "session_counter e' = session_counter e \<Longrightarrow> config e' = config e \<Longrightarrow> k \<in> K \<Longrightarrow> fmlookup (sessions e) k = None
    \<Longrightarrow> active_session_count e < unat (max_concurrent_sessions (config e))
    \<Longrightarrow> session_ok k s \<Longrightarrow> retransmission_count s = 0
    \<Longrightarrow> sessions e' = fmupd k s (sessions e) \<Longrightarrow> balance e' = balance e + 1 \<Longrightarrow> effect K e e'"
| remove: "session_counter e' = session_counter e \<Longrightarrow> config e' = config e \<Longrightarrow> fmlookup (sessions e) k = Some s
    \<Longrightarrow> sessions e' = fmdrop k (sessions e) \<Longrightarrow> balance e' = balance e - 1 \<Longrightarrow> effect K e e'"

definition engine_inv :: "engine \<Rightarrow> bool" where
  "engine_inv e \<longleftrightarrow> fmpred session_ok (sessions e)
     \<and> active_session_count e \<le> unat (max_concurrent_sessions (config e))"

lemma frame_balance: "same_sessions e e' \<Longrightarrow> balance e' = balance e"
  by (simp add: same_sessions_def balance_def)

lemma frame_core: "same_sessions e e' \<Longrightarrow> session_counter e' = session_counter e \<and> config e' = config e \<and> sessions e' = sessions e \<and> balance e' = balance e"
  by (simp add: frame_balance) (simp add: same_sessions_def)

lemma effect_frame: "same_sessions e e' \<Longrightarrow> effect K e e'"
  by (rule keep) (simp_all add: frame_core)

lemma effect_frame_before:
  assumes "same_sessions e e1" "effect K e1 e2"
  shows "effect K e e2"
  using assms(2) frame_core [OF assms(1)]
  by cases (auto intro: effect.intros simp: active_session_count_def)

lemma effect_frame_after:
  assumes "effect K e e1" "same_sessions e1 e2"
  shows "effect K e e2"
  using assms(1) frame_core [OF assms(2)]
  by cases (auto intro: effect.intros)

lemma active_new:
  "sessions e' = fmupd k v (sessions e) \<Longrightarrow> fmlookup (sessions e) k = None
   \<Longrightarrow> active_session_count e' = Suc (active_session_count e)"
  by (simp add: active_session_count_def fmdom_notI fcard_finsert_disjoint)

lemma active_old:
  "sessions e' = fmupd k v (sessions e) \<Longrightarrow> fmlookup (sessions e) k = Some w
   \<Longrightarrow> active_session_count e' = active_session_count e"
  by (simp add: active_session_count_def fmdomI finsert_absorb)

lemma active_drop:
  assumes "sessions e' = fmdrop k (sessions e)" "fmlookup (sessions e) k = Some w"
  shows "active_session_count e = Suc (active_session_count e')"
proof -
  have "k |\<in>| fmdom (sessions e)" using assms(2) by (rule fmdomI)
  then have "fcard (fmdom (sessions e)) > 0" by (metis fcard_0_eq fempty_iff gr_zeroI)
  with \<open>k |\<in>| _\<close> show ?thesis by (simp add: active_session_count_def assms(1))
qed

lemma active_same: "sessions e' = sessions e \<Longrightarrow> active_session_count e' = active_session_count e"
  by (simp add: active_session_count_def)

lemma session_ok_updates: "session_ok k s0 \<Longrightarrow> updates c s0 s \<Longrightarrow> session_ok k s"
  by (simp add: session_ok_def updates_def)

lemma fmpred_fmdrop_ok: "fmpred P m \<Longrightarrow> fmpred P (fmdrop k m)"
  by (auto intro!: fmpredI dest: fmpredD split: if_splits)

lemma engine_inv_effect:
  assumes "effect K e e'" "engine_inv e"
  shows "engine_inv e'"
  using assms
proof cases
  case (update k s0 s)
  then have "session_ok k s" using assms(2) session_ok_updates fmpredD unfolding engine_inv_def by blast
  with update assms(2) show ?thesis
    unfolding engine_inv_def by (auto simp: active_old [OF update(5,3)] intro: fmpred_upd)
next
  case (create k s)
  then show ?thesis using assms(2)
    unfolding engine_inv_def by (auto simp: active_new [OF create(8,4)] intro: fmpred_upd)
next
  case (remove k s)
  then show ?thesis using assms(2) active_drop [OF remove(4,3)]
    unfolding engine_inv_def by (auto simp: fmpred_fmdrop_ok)
next
  case keep
  then show ?thesis using assms(2) unfolding engine_inv_def by (simp add: active_same [OF keep(3)])
qed

text \<open>The number of sessions follows the balance.\<close>

lemma balance_effect:
  assumes "effect K e e'" "balance e = of_nat (active_session_count e)"
  shows "balance e' = of_nat (active_session_count e')"
  using assms(1)
proof cases
  case (update k s0 s)
  then show ?thesis using assms(2) active_old [OF update(5,3)] by simp
next
  case (create k s)
  then show ?thesis using assms(2) active_new [OF create(8,4)] by simp
next
  case (remove k s)
  then show ?thesis using assms(2) active_drop [OF remove(4,3)] by simp
next
  case keep
  then show ?thesis using assms(2) active_same [OF keep(3)] by simp
qed

section \<open>Each operation\<close>

lemma fmdrop_upd [simp]: "fmdrop k (fmupd k v m) = fmdrop k m"
  by (rule fmap_ext) simp

lemma ops_simps [simp]:
  "balance (put_session k s e) = balance e" "balance (erase_session k e) = balance e"
  "balance (emit b ev e) = balance e" "balance (tally retransmissions_update e) = balance e"
  "balance (tally sessions_originated_update e) = balance e + 1"
  "balance (tally sessions_received_update e) = balance e + 1"
  "balance (tally sessions_completed_update e) = balance e - 1"
  "balance (tally sessions_cancelled_update e) = balance e - 1"
  "sessions (put_session k s e) = fmupd k s (sessions e)"
  "sessions (erase_session k e) = fmdrop k (sessions e)"
  "sessions (emit b ev e) = sessions e" "sessions (tally f e) = sessions e"
  "session_counter (put_session k s e) = session_counter e"
  "session_counter (erase_session k e) = session_counter e"
  "session_counter (emit b ev e) = session_counter e" "session_counter (tally f e) = session_counter e"
  "config (put_session k s e) = config e" "config (erase_session k e) = config e"
  "config (emit b ev e) = config e" "config (tally f e) = config e"
  by (simp_all add: put_session_def erase_session_def emit_def tally_def balance_def)

lemmas engine_ops = put_session_def erase_session_def emplace_session_def tally_def emit_def

lemma cancel_session_present:
  assumes "cancel_session e eid sn r = Inr e'" "fmlookup (sessions e) (eid, sn) = Some s"
  shows "session_counter e' = session_counter e \<and> config e' = config e \<and> sessions e' = fmdrop (eid, sn) (sessions e) \<and> balance e' = balance e - 1"
proof -
  from assms obtain e1 seg where "send_segment e seg = Inr e1"
    and e': "e' = erase_session (eid, sn) (emit (on_session_failure e1) (Session_Failed sn r)
      (tally sessions_cancelled_update (put_session (eid, sn) (s\<lparr>state := CANCELLED\<rparr>) e1)))"
    by (auto simp: cancel_session_def Let_def rbind_eq_Inr engine_ops)
  then have f: "same_sessions e e1" by (auto dest: send_segment_frame)
  show ?thesis using frame_core [OF f] unfolding e' by simp
qed

lemma cancel_session_effect:
  assumes "cancel_session e eid sn r = Inr e'"
  shows "effect K e e'"
proof (cases "fmlookup (sessions e) (eid, sn)")
  case None
  then show ?thesis using assms by (auto simp: cancel_session_def intro: effect_frame)
next
  case (Some s)
  then show ?thesis using cancel_session_present [OF assms Some] by (intro remove [OF _ _ Some]) simp_all
qed

text \<open>Cancelling a session whose counter was just stored.\<close>

lemma count_and_cancel_effect:
  assumes "fmlookup (sessions e) (eid, sn) = Some s" "same_sessions e e0"
    "cancel_session (put_session (eid, sn) s' e0) eid sn r = Inr e'"
  shows "effect K e e'"
  using cancel_session_present [OF assms(3)] frame_core [OF assms(2)]
  by (intro remove [OF _ _ assms(1)]) simp_all

lemma close_cancelled_effect: "effect K e (close_cancelled k r e)"
proof (cases "fmlookup (sessions e) k")
  case None
  then show ?thesis by (simp add: close_cancelled_def effect_frame)
next
  case (Some s)
  then show ?thesis by (intro remove [OF _ _ Some]) (simp_all add: close_cancelled_def Let_def)
qed

lemma receive_cancel_segment_effect:
  assumes "receive_cancel_segment e seg = Inr e'"
  shows "effect K e e'"
proof -
  obtain k r ack e1 where "send_segment (tally cancel_segments_received_update e) ack = Inr e1"
    and e': "e' = close_cancelled k r e1"
    using assms by (auto simp: receive_cancel_segment_def Let_def rbind_eq_Inr)
  then have "same_sessions e e1" using send_segment_frame frame_trans frame_tally by blast
  then show ?thesis unfolding e' using close_cancelled_effect by (rule effect_frame_before)
qed

lemma receive_cancel_ack_effect:
  assumes "engine_inv e" "receive_cancel_ack e seg = Inr e'"
  shows "e' = e"
  using assms fmpredD [of session_ok "sessions e"]
  by (fastforce simp: receive_cancel_ack_def Let_def engine_inv_def session_ok_def split: option.splits if_splits)

lemma deliver_frame: "deliver_data e s = Inr e' \<Longrightarrow> same_sessions e e'"
  by (auto simp: deliver_data_def rbind_eq_Inr same_sessions_def emit_def split: if_splits)

text \<open>Closing a session after the data callback was served.\<close>

lemma complete_receiver_core:
  assumes "complete_receiver e k s = Inr e'"
  shows "session_counter e' = session_counter e \<and> config e' = config e \<and> sessions e' = fmdrop k (sessions e) \<and> balance e' = balance e - 1"
proof -
  obtain e2 where d: "deliver_data (tally sessions_completed_update
        (put_session k (s\<lparr>state := COMPLETED\<rparr>) e)) (s\<lparr>state := COMPLETED\<rparr>) = Inr e2"
    and e': "e' = erase_session k e2"
    using assms by (auto simp: complete_receiver_def Let_def rbind_eq_Inr)
  from frame_core [OF deliver_frame [OF d]] show ?thesis by (simp add: e')
qed

lemma complete_receiver_effect:
  "fmlookup (sessions e) k = Some w \<Longrightarrow> complete_receiver e k s = Inr e' \<Longrightarrow> effect K e e'"
  using complete_receiver_core [of e k s e'] by (intro remove [of _ _ k w]) simp_all

lemma receive_report_ack_effect:
  assumes "receive_report_ack e seg = Inr e'"
  shows "effect K e e'"
proof -
  let ?k = "(seg_engine_id seg, seg_session_number seg)"
  let ?e1 = "tally report_acks_received_update e"
  obtain ra where ra: "get_rpt_ack (content seg) = Inr ra"
    using assms by (auto simp: receive_report_ack_def Let_def rbind_eq_Inr)
  let ?e2 = "disarm_report (timer_key (seg_session_number seg) (ra_report_serial ra)) ?e1"
  have f: "same_sessions e ?e1" "same_sessions e ?e2" using frame_trans by (simp, blast intro: frame_trans frame_tally frame_disarm)
  show ?thesis
  proof (cases "fmlookup (sessions ?e1) ?k")
    case None
    then show ?thesis using assms ra f by (auto simp: receive_report_ack_def Let_def intro: effect_frame)
  next
    case (Some s)
    then have lk: "fmlookup (sessions ?e2) ?k = Some s"
      using frame_core [OF f(1)] frame_core [OF f(2)] by simp
    show ?thesis
    proof (cases "role s = RECEIVER \<and> is_complete (reception_tracker s) (total_data_length s)")
      case True
      then have "effect K ?e2 e'" using assms ra Some
        by (intro complete_receiver_effect [OF lk, of s]) (simp add: receive_report_ack_def Let_def)
      with f(2) show ?thesis by (rule effect_frame_before)
    next
      case False
      then have "e' = ?e1 \<or> e' = ?e2" using assms ra Some
        by (auto simp: receive_report_ack_def Let_def split: if_splits)
      with f show ?thesis using effect_frame by blast
    qed
  qed
qed

text \<open>Storing a session that the operation changed.\<close>

lemma update_effect:
  assumes "fmlookup (sessions e) k = Some s0" "updates (config e) s0 s" "same_sessions e e1"
  shows "effect K e (put_session k s e1)"
  using assms frame_core [OF assms(3)] by (intro update [of _ e k s0 s]) simp_all

lemma generate_report_frame:
  assumes "generate_report e s cp ub = Inr (e', s')"
  shows "same_sessions e e' \<and> s' = s\<lparr>report_serial_counter := report_serial_counter s + 1\<rparr>"
  using assms by (auto simp: generate_report_def Let_def rbind_eq_Inr dest: send_segment_frame)

lemma retransmit_gaps_frame:
  assumes "retransmit_gaps e s gaps = Inr (e', s')"
  shows "same_sessions e e' \<and> (\<exists>n. s' = s\<lparr>checkpoint_serial_counter := n\<rparr>)"
  using assms
  by (auto simp: retransmit_gaps_def Let_def rbind_eq_Inr dest: send_all_frame split: if_splits
      intro: exI [of _ "checkpoint_serial_counter s"])

lemma segment_data_session:
  "segment_data e s = Inr (segs, s') \<Longrightarrow> \<exists>n. s' = s\<lparr>checkpoint_serial_counter := n\<rparr>"
  by (auto simp: segment_data_def rbind_eq_Inr)

lemma updates_simps [simp]:
  "updates c s s"
  "updates c s0 (s\<lparr>checkpoint_serial_counter := n\<rparr>) = updates c s0 s"
  "updates c s0 (s\<lparr>report_serial_counter := n\<rparr>) = updates c s0 s"
  "updates c s0 (s\<lparr>client_data := d\<rparr>) = updates c s0 s"
  "updates c s0 (s\<lparr>total_data_length := t\<rparr>) = updates c s0 s"
  "updates c s0 (s\<lparr>reception_tracker := r\<rparr>) = updates c s0 s"
  by (simp_all add: updates_def)

lemma handle_timer_effect:
  assumes inv: "engine_inv e" and h: "handle_timer_expiry e ev = Inr e'"
  shows "effect K e e'"
proof (cases "ev_type ev")
  case CHECKPOINT
  let ?k = "(local_engine_id (config e), ev_session_number ev)"
  show ?thesis
  proof (cases "\<exists>s. fmlookup (sessions e) ?k = Some s \<and> state s = ACTIVE \<and> role s = ORIGINATOR")
    case False
    then have "e' = e" using h CHECKPOINT
      by (auto simp: handle_timer_expiry_def Let_def split: option.splits if_splits)
    then show ?thesis by (simp add: effect_frame)
  next
    case True
    then obtain s where s: "fmlookup (sessions e) ?k = Some s" "state s = ACTIVE" "role s = ORIGINATOR"
      by blast
    let ?s = "s\<lparr>retransmission_count := retransmission_count s + 1\<rparr>"
    let ?e1 = "put_session ?k ?s e"
    have k: "?k = (s_engine_id s, s_session_number s)"
      using inv s(1) fmpredD by (fastforce simp: engine_inv_def session_ok_def)
    show ?thesis
    proof (cases "retransmission_count ?s > max_retransmissions (config e)")
      case True
      then have c: "cancel_session ?e1 (s_engine_id s) (s_session_number s) 1 = Inr e'"
        using h CHECKPOINT s by (simp add: handle_timer_expiry_def Let_def)
      with s(1) show ?thesis unfolding k by (rule count_and_cancel_effect [OF _ frame_refl])
    next
      case False
      then obtain segs s' where sd: "segment_data (tally retransmissions_update ?e1) ?s = Inr (segs, s')"
        and sa: "send_all (put_session ?k s' (tally retransmissions_update ?e1)) segs = Inr e'"
        using h CHECKPOINT s by (auto simp: handle_timer_expiry_def Let_def rbind_eq_Inr)
      obtain n where s': "s' = ?s\<lparr>checkpoint_serial_counter := n\<rparr>"
        using segment_data_session [OF sd] by blast
      have "updates (config e) s s'" using False by (simp add: s' updates_def not_less)
      then have "effect K e (put_session ?k s' (tally retransmissions_update ?e1))"
        using s(1) by (intro update [of _ e ?k s s']) (simp_all)
      then show ?thesis using send_all_frame [OF sa] by (rule effect_frame_after)
    qed
  qed
next
  case REPORT_TIMER
  let ?k = "(ev_engine_id ev, ev_session_number ev)"
  show ?thesis
  proof (cases "\<exists>s. fmlookup (sessions e) ?k = Some s \<and> state s = ACTIVE \<and> role s = RECEIVER
      \<and> total_data_length s > 0")
    case False
    then have "e' = e \<or> e' = tally retransmissions_update e" using h REPORT_TIMER
      by (auto simp: handle_timer_expiry_def Let_def split: option.splits if_splits)
    then show ?thesis by (auto intro: effect_frame)
  next
    case True
    then obtain s where s: "fmlookup (sessions e) ?k = Some s" "state s = ACTIVE" "role s = RECEIVER"
      "total_data_length s > 0" by blast
    obtain e1 s' where g: "generate_report (tally retransmissions_update e) s (ev_serial_number ev)
        (total_data_length s) = Inr (e1, s')" and e': "e' = put_session ?k s' e1"
      using h REPORT_TIMER s by (auto simp: handle_timer_expiry_def Let_def rbind_eq_Inr)
    have "same_sessions e e1" using generate_report_frame [OF g] frame_trans [OF frame_tally(10)] by blast
    moreover have "updates (config e) s s'" using generate_report_frame [OF g] by simp
    ultimately show ?thesis unfolding e' using s(1) by (intro update_effect)
  qed
next
  case CANCEL_TIMER
  then show ?thesis using h by (simp add: handle_timer_expiry_def effect_frame)
qed

lemma receive_report_effect:
  assumes inv: "engine_inv e" and h: "receive_report_segment e seg = Inr e'"
  shows "effect K e e'"
proof -
  let ?e0 = "tally reports_received_update e"
  let ?k = "(local_engine_id (config e), seg_session_number seg)"
  obtain rs where rs: "get_report (content seg) = Inr rs"
    using h by (auto simp: receive_report_segment_def Let_def rbind_eq_Inr)
  let ?ack = "\<lambda>e. send_report_ack e (seg_engine_id seg) (seg_session_number seg) (rs_report_serial rs)"
  have ack_frame: "same_sessions e e1" if "?ack ?e0 = Inr e1" for e1
    using that send_segment_frame frame_trans [OF frame_tally(6)] unfolding send_report_ack_def by blast
  show ?thesis
  proof (cases "fmlookup (sessions e) ?k")
    case None
    then show ?thesis using h rs ack_frame
      by (auto simp: receive_report_segment_def Let_def intro: effect_frame)
  next
    case (Some s)
    show ?thesis
    proof (cases "role s = ORIGINATOR \<and> state s = ACTIVE")
      case False
      then have "e' = ?e0" using h rs Some
        by (auto simp: receive_report_segment_def Let_def split: if_splits)
      then show ?thesis by (simp add: effect_frame)
    next
      case True
      let ?tk = "timer_key (seg_session_number seg) (rs_checkpoint_serial rs)"
      obtain e1 where e1: "?ack ?e0 = Inr e1"
        using h rs Some True by (auto simp: receive_report_segment_def Let_def rbind_eq_Inr)
      let ?e2 = "disarm_checkpoint ?tk e1"
      have f: "same_sessions e ?e2" using ack_frame [OF e1] frame_trans frame_disarm by blast
      have lk: "fmlookup (sessions ?e2) ?k = Some s" using Some frame_core [OF f] by simp
      have k: "?k = (s_engine_id s, s_session_number s)"
        using inv Some fmpredD by (fastforce simp: engine_inv_def session_ok_def)
      let ?gaps = "compute_gaps (rs_claims rs) (rs_lower_bound rs) (rs_upper_bound rs)"
      let ?s = "s\<lparr>retransmission_count := retransmission_count s + 1\<rparr>"
      note unfold = receive_report_segment_def Let_def rs Some True e1
      consider (full) "fully_reported s rs" | (nothing) "\<not> fully_reported s rs" "?gaps = []"
        | (limit) "\<not> fully_reported s rs" "?gaps \<noteq> []"
            "retransmission_count ?s > max_retransmissions (config e)"
        | (again) "\<not> fully_reported s rs" "?gaps \<noteq> []"
            "\<not> retransmission_count ?s > max_retransmissions (config e)" by blast
      then have "effect K ?e2 e'"
      proof cases
        case full
        then have "e' = erase_session ?k (emit (on_session_complete ?e2)
            (Session_Complete (s_session_number s))
            (tally sessions_completed_update (put_session ?k (s\<lparr>state := COMPLETED\<rparr>) ?e2)))"
          using h by (simp add: unfold) (simp add: engine_ops)
        then show ?thesis by (intro remove [OF _ _ lk]) simp_all
      next
        case nothing
        then show ?thesis using h by (simp add: unfold effect_frame)
      next
        case limit
        then have "cancel_session (put_session ?k ?s ?e2) (s_engine_id s) (s_session_number s) 1 = Inr e'"
          using h frame_core [OF f] by (simp add: unfold)
        then show ?thesis using lk unfolding k by (intro count_and_cancel_effect [OF _ frame_refl])
      next
        case again
        then obtain e3 s' where
          r: "retransmit_gaps (tally retransmissions_update (put_session ?k ?s ?e2)) ?s ?gaps = Inr (e3, s')"
          and e': "e' = put_session ?k s' e3"
          using h frame_core [OF f] by (auto simp: unfold rbind_eq_Inr)
        obtain n where s': "s' = ?s\<lparr>checkpoint_serial_counter := n\<rparr>"
          using retransmit_gaps_frame [OF r] by blast
        have "updates (config ?e2) s s'" using again frame_core [OF f] by (simp add: s' updates_def not_less)
        moreover have "same_sessions (put_session ?k ?s ?e2) e3"
          using retransmit_gaps_frame [OF r] frame_trans [OF frame_tally(10)] by blast
        note frame_core [OF this]
        ultimately show ?thesis unfolding e' by (intro update [OF _ _ lk, of _ s']) simp_all
      qed
      with f show ?thesis by (rule effect_frame_before)
    qed
  qed
qed

text \<open>Data segments: the session is found or created, then updated or closed.\<close>

text \<open>Storing what an operation made of a session it found or created.\<close>

lemma store_effect:
  assumes "session_counter e' = session_counter e" "config e' = config e"
    and "sessions e' = fmupd k s' (sessions e)"
    and "fmlookup (sessions e) k = Some s \<and> updates (config e) s s' \<and> balance e' = balance e
      \<or> k \<in> K \<and> fmlookup (sessions e) k = None \<and> session_ok k s' \<and> retransmission_count s' = 0
        \<and> active_session_count e < unat (max_concurrent_sessions (config e))
        \<and> balance e' = balance e + 1"
  shows "effect K e e'"
  using assms(4)
proof
  assume "fmlookup (sessions e) k = Some s \<and> updates (config e) s s' \<and> balance e' = balance e"
  then show ?thesis using assms(1-3) by (blast intro: update)
next
  assume "k \<in> K \<and> fmlookup (sessions e) k = None \<and> session_ok k s' \<and> retransmission_count s' = 0
        \<and> active_session_count e < unat (max_concurrent_sessions (config e))
        \<and> balance e' = balance e + 1"
  then show ?thesis using assms(1-3) by (blast intro: create)
qed

lemma fmdrop_absent: "fmlookup m k = None \<Longrightarrow> fmdrop k m = m"
  by (rule fmap_ext) auto

lemma store_segment_data_updates:
  assumes "store_segment_data t ds s = Inr s'"
  shows "updates c s s' \<and> s_engine_id s' = s_engine_id s \<and> s_session_number s' = s_session_number s
    \<and> state s' = state s \<and> retransmission_count s' = retransmission_count s"
  using assms
  by (cases "has_eob t") (auto simp: store_segment_data_def Let_def rbind_eq_Inr updates_def)

lemma answer_checkpoint_updates:
  assumes "answer_checkpoint e t ds s = Inr (e', s')"
  shows "same_sessions e e' \<and> (\<exists>n. s' = s\<lparr>report_serial_counter := n\<rparr>)"
  using assms
  by (auto simp: answer_checkpoint_def dest: generate_report_frame split: if_splits option.splits
      intro: exI [of _ "report_serial_counter s"])

text \<open>The session a data segment is for: found, or new in a table with room.\<close>

definition found_or_new :: "engine \<Rightarrow> ltp_segment \<Rightarrow> ltp_session \<Rightarrow> engine \<Rightarrow> bool" where
  "found_or_new e seg s e0 \<longleftrightarrow> (let k = (seg_engine_id seg, seg_session_number seg) in
     session_counter e0 = session_counter e \<and> config e0 = config e \<and>
     (fmlookup (sessions e) k = Some s \<and> e0 = e
      \<or> fmlookup (sessions e) k = None \<and> s = new_receiver seg
        \<and> active_session_count e < unat (max_concurrent_sessions (config e))
        \<and> sessions e0 = fmupd k s (sessions e) \<and> balance e0 = balance e + 1))"

lemma open_receiver_Some:
  "open_receiver e seg = Some (s, e0) \<Longrightarrow> found_or_new e seg s e0"
  by (auto simp: open_receiver_def found_or_new_def emplace_session_def Let_def
      split: option.splits if_splits)

lemma receive_data_effect:
  assumes K: "(seg_engine_id seg, seg_session_number seg) \<in> K" and inv: "engine_inv e" and h: "receive_data_segment e seg = Inr e'"
  shows "effect K e e'"
proof -
  let ?k = "(seg_engine_id seg, seg_session_number seg)" and ?t = "segment_type seg"
  obtain ds where ds: "get_data (content seg) = Inr ds"
    using h by (auto simp: receive_data_segment_def rbind_eq_Inr)
  note U = h [unfolded receive_data_segment_def ds rbind_simps Let_def]
  show ?thesis
  proof (cases "open_receiver e seg")
    case None
    with U show ?thesis by (simp add: effect_frame)
  next
    case (Some p)
    then obtain s e0 where o: "open_receiver e seg = Some (s, e0)" by (cases p) simp
    have fn: "found_or_new e seg s e0" using open_receiver_Some [OF o] .
    have ok: "session_ok ?k s"
      using fn inv fmpredD by (fastforce simp: found_or_new_def Let_def engine_inv_def
          new_receiver_def session_ok_def)
    let ?e1 = "if is_red ?t then tally red_segments_received_update e0
               else tally green_segments_received_update e0"
    obtain s1 e2 s2 where s1: "store_segment_data ?t ds s = Inr s1"
      and a: "answer_checkpoint ?e1 ?t ds s1 = Inr (e2, s2)"
      and r: "(if is_green ?t \<and> has_eob ?t then complete_receiver e2 ?k s2
        else Inr (put_session ?k s2 e2)) = Inr e'"
      using U o ok by (auto simp: rbind_eq_Inr session_ok_def)
    obtain n where s2: "s2 = s1\<lparr>report_serial_counter := n\<rparr>" and "same_sessions ?e1 e2"
      using answer_checkpoint_updates [OF a] by blast
    then have f: "same_sessions e0 e2" using frame_trans [of e0 ?e1 e2] by simp
    note c2 = frame_core [OF f] and u = store_segment_data_updates [OF s1, of "config e"]
    show ?thesis
    proof (cases "is_green ?t \<and> has_eob ?t")
      case True
      then have c: "session_counter e' = session_counter e2 \<and> config e' = config e2 \<and> sessions e' = fmdrop ?k (sessions e2)
          \<and> balance e' = balance e2 - 1"
        using r complete_receiver_core by simp
      show ?thesis
      proof (cases "fmlookup (sessions e) ?k")
        case None
        then show ?thesis using fn c c2
          by (intro keep) (auto simp: found_or_new_def Let_def fmdrop_absent)
      next
        case (Some w)
        then show ?thesis using fn c c2
          by (intro remove [OF _ _ Some]) (auto simp: found_or_new_def Let_def)
      qed
    next
      case False
      then have e': "e' = put_session ?k s2 e2" using r by auto
      have "updates (config e) s s2" "session_ok ?k s2"
        using u ok by (auto simp: s2 session_ok_def)
      moreover have "retransmission_count s2 = retransmission_count s" using u by (simp add: s2)
      ultimately show ?thesis using fn c2 K unfolding e'
        by (intro store_effect [of _ _ ?k s2 s])
          (auto simp: found_or_new_def Let_def new_receiver_def default_session_def)
    qed
  qed
qed

text \<open>Starting a session, for a session key that is not taken.\<close>

lemma start_session_effect:
  assumes K: "(local_engine_id (config e), session_counter e + 1) \<in> K" and h: "start_session e data reliable = Inr (sn, e')"
    and fresh: "fmlookup (sessions e) (local_engine_id (config e), session_counter e + 1) = None"
  shows "e' = e \<or> effect K (e\<lparr>session_counter := session_counter e + 1\<rparr>) e'"
proof (cases "active_session_count e \<ge> unat (max_concurrent_sessions (config e))")
  case True
  then show ?thesis using h by (simp add: start_session_def)
next
  case False
  let ?k = "(local_engine_id (config e), session_counter e + 1)"
  define s where "s = default_session
             \<lparr>s_engine_id := local_engine_id (config e), s_session_number := session_counter e + 1,
              role := ORIGINATOR, state := ACTIVE, total_data_length := of_nat (length data),
              is_red_session := reliable, client_data := data\<rparr>"
  define e1 where "e1 = tally sessions_originated_update
      (put_session ?k s (e\<lparr>session_counter := session_counter e + 1\<rparr>))"
  have lk: "fmlookup (sessions e1) ?k = Some s" by (simp add: e1_def)
  have bump: "balance (e\<lparr>session_counter := n\<rparr>) = balance e" for n by (simp add: balance_def)
  have e1: "session_counter e1 = session_counter e + 1" "config e1 = config e" "sessions e1 = fmupd ?k s (sessions e)" "balance e1 = balance e + 1"
    by (simp_all add: e1_def balance_def tally_def put_session_def)
  obtain segs s' e2 where sd: "segment_data e1 s = Inr (segs, s')"
    and sa: "send_all (put_session ?k s' e1) segs = Inr e2"
    and e': "e' = (if reliable then e2 else tally sessions_completed_update (erase_session ?k e2))"
    using h False fresh
    by (auto simp: start_session_def Let_def rbind_eq_Inr emplace_session_def e1_def s_def
        split: if_splits)
  obtain n where s': "s' = s\<lparr>checkpoint_serial_counter := n\<rparr>" using segment_data_session [OF sd] by blast
  note f = frame_core [OF send_all_frame [OF sa]]
  have ok: "session_ok ?k s'" "retransmission_count s' = 0"
    by (simp_all add: s' s_def session_ok_def default_session_def)
  show ?thesis
  proof (cases reliable)
    case True
    then show ?thesis using f e1 ok fresh False e' K
      by (intro disjI2 store_effect [of _ _ ?k s']) (simp_all add: bump active_session_count_def)
  next
    case False
    then show ?thesis using f e1 fresh e' by (intro disjI2 keep) (simp_all add: fmdrop_absent bump)
  qed
qed

end
