(* ===== verification/Engine_Safety.thy ===== *)
theory Engine_Safety
  imports Engine_Inv
begin

text \<open>
  Runs of the engine: sequences of its public operations with any arguments, the bytes on the
  wire included. The table invariant and the accounting hold along every run, retransmission is
  bounded, and the only ways an operation fails are those the hostile inputs below reach.
\<close>

section \<open>Runs\<close>

datatype engine_op =
    Op_Start bytes bool
  | Op_Wire bytes
  | Op_Timer timer_event
  | Op_Cancel u64 u64 u8

fun exec :: "engine \<Rightarrow> engine_op \<Rightarrow> engine res" where
  "exec e (Op_Start data reliable) = rbind (start_session e data reliable) (\<lambda>(sn, e). Inr e)"
| "exec e (Op_Wire bs) = on_wire e bs"
| "exec e (Op_Timer ev) = handle_timer_expiry e ev"
| "exec e (Op_Cancel eid sn reason) = cancel_session e eid sn reason"

inductive reaches :: "engine \<Rightarrow> engine_op list \<Rightarrow> engine \<Rightarrow> bool" where
  reach_refl: "reaches e [] e"
| reach_step: "reaches e ops e1 \<Longrightarrow> exec e1 op = Inr e2 \<Longrightarrow> reaches e (ops @ [op]) e2"

inductive_cases reaches_nilE: "reaches e [] e'"

lemma effect_config: "effect K e e' \<Longrightarrow> config e' = config e \<and> session_counter e' = session_counter e"
  by (induction rule: effect.induct) simp_all

text \<open>The key a segment may open a session under.\<close>

definition segment_keys :: "ltp_segment \<Rightarrow> session_key set" where
  "segment_keys seg =
     (if is_data (segment_type seg) then {(seg_engine_id seg, seg_session_number seg)} else {})"

definition wire_keys :: "bytes \<Rightarrow> session_key set" where
  "wire_keys bs = (case segment_decode bs of Inr (Some seg) \<Rightarrow> segment_keys seg | _ \<Rightarrow> {})"

lemma receive_segment_effect:
  assumes inv: "engine_inv e" and r: "receive_segment e seg = Inr e'"
  shows "effect (segment_keys seg) e e'"
proof (cases "is_data (segment_type seg)")
  case True
  then show ?thesis using r receive_data_effect [OF _ inv, of seg _ e']
    by (simp add: receive_segment_def segment_keys_def)
next
  case False
  with r show ?thesis
    by (auto simp: receive_segment_def split: if_splits intro: receive_report_effect [OF inv]
        receive_report_ack_effect receive_cancel_segment_effect effect_frame
        dest!: receive_cancel_ack_effect [OF inv])
qed

lemma on_wire_effect:
  assumes "engine_inv e" "on_wire e bs = Inr e'"
  shows "effect (wire_keys bs) e e'"
  using assms
  by (auto simp: on_wire_def rbind_eq_Inr wire_keys_def intro: receive_segment_effect effect_frame
      split: option.splits)

text \<open>A start whose session number is already a key of the table reuses that session.\<close>

lemma start_session_inv:
  assumes inv: "engine_inv e" and h: "start_session e data reliable = Inr (sn, e')"
  shows "engine_inv e' \<and> config e' = config e"
proof (cases "fmlookup (sessions e) (local_engine_id (config e), session_counter e + 1)")
  case None
  let ?b = "e\<lparr>session_counter := session_counter e + 1\<rparr>"
  have "engine_inv ?b" using inv by (simp add: engine_inv_def active_session_count_def)
  moreover have "e' = e \<or> effect UNIV ?b e'" using start_session_effect [OF _ h None] by simp
  ultimately show ?thesis using inv engine_inv_effect effect_config [of UNIV ?b e'] by auto
next
  case (Some s)
  let ?k = "(local_engine_id (config e), session_counter e + 1)"
  define e1 where "e1 = tally sessions_originated_update (e\<lparr>session_counter := session_counter e + 1\<rparr>)"
  have e1: "config e1 = config e" "sessions e1 = sessions e" by (simp_all add: e1_def tally_def)
  have inv1: "engine_inv e1" using inv by (simp add: engine_inv_def e1 active_session_count_def)
  show ?thesis
  proof (cases "active_session_count e \<ge> unat (max_concurrent_sessions (config e))")
    case True
    then show ?thesis using h inv by (simp add: start_session_def)
  next
    case False
    then obtain segs s' e2 where sd: "segment_data e1 s = Inr (segs, s')"
      and sa: "send_all (put_session ?k s' e1) segs = Inr e2"
      and e': "e' = (if reliable then e2 else tally sessions_completed_update (erase_session ?k e2))"
      using h Some
      by (auto simp: start_session_def Let_def rbind_eq_Inr emplace_session_def e1_def
          split: if_splits)
    obtain n where s': "s' = s\<lparr>checkpoint_serial_counter := n\<rparr>" using segment_data_session [OF sd] by blast
    have "effect UNIV e1 e2"
      using Some e1 frame_core [OF send_all_frame [OF sa]] by (intro update [of _ _ ?k s s']) (simp_all add: s')
    then have inv2: "engine_inv e2" and lk: "fmlookup (sessions e2) ?k \<noteq> None"
      using engine_inv_effect inv1 frame_core [OF send_all_frame [OF sa]] by simp_all
    then obtain w where w: "fmlookup (sessions e2) ?k = Some w" by blast
    define e3 where "e3 = tally sessions_completed_update (erase_session ?k e2)"
    have "effect UNIV e2 e3" unfolding e3_def using w by (intro remove) simp_all
    then have "engine_inv e3" using inv2 engine_inv_effect by blast
    then show ?thesis using inv2 e' e1 frame_core [OF send_all_frame [OF sa]]
      by (simp add: e3_def split: if_splits)
  qed
qed

lemma exec_inv [inv_rules]:
  assumes "engine_inv e" "exec e op = Inr e'"
  shows "engine_inv e' \<and> config e' = config e"
proof (cases op)
  case (Op_Start data reliable)
  then obtain sn where "start_session e data reliable = Inr (sn, e')"
    using assms(2) by (auto simp: rbind_eq_Inr)
  with start_session_inv [OF assms(1)] show ?thesis by blast
next
  case (Op_Wire bs)
  then have "effect (wire_keys bs) e e'" using assms(2) on_wire_effect [OF assms(1)] by simp
  then show ?thesis using engine_inv_effect effect_config assms(1) by blast
next
  case (Op_Timer ev)
  then have "effect {} e e'" using assms(2) handle_timer_effect [OF assms(1)] by simp
  then show ?thesis using engine_inv_effect effect_config assms(1) by blast
next
  case (Op_Cancel eid sn r)
  then have "effect {} e e'" using assms(2) cancel_session_effect by simp
  then show ?thesis using engine_inv_effect effect_config assms(1) by blast
qed

lemma reaches_inv:
  "reaches e ops e' \<Longrightarrow> engine_inv e \<Longrightarrow> engine_inv e' \<and> config e' = config e"
  by (induction rule: reaches.induct) (auto dest: exec_inv)

lemma engine_inv_empty: "sessions e = fmempty \<Longrightarrow> engine_inv e"
  by (simp add: engine_inv_def active_session_count_def fcard_fempty)

section \<open>Accounting\<close>

text \<open>The environment does not forge data segments under the local engine identifier; then no
  key of a session to come is taken.\<close>

definition foreign_op :: "u64 \<Rightarrow> engine_op \<Rightarrow> bool" where
  "foreign_op local op \<longleftrightarrow> (case op of
     Op_Wire bs \<Rightarrow> (case segment_decode bs of
         Inr (Some seg) \<Rightarrow> \<not> is_data (segment_type seg) \<or> seg_engine_id seg \<noteq> local
       | _ \<Rightarrow> True)
   | _ \<Rightarrow> True)"

definition local_keys_used :: "engine \<Rightarrow> bool" where
  "local_keys_used e \<longleftrightarrow> (\<forall>sn. fmlookup (sessions e) (local_engine_id (config e), sn) \<noteq> None
      \<longrightarrow> unat sn \<le> unat (session_counter e))"

lemma effect_keys:
  "effect K e e' \<Longrightarrow> fmlookup (sessions e') k \<noteq> None \<Longrightarrow> fmlookup (sessions e) k = None \<Longrightarrow> k \<in> K"
  by (erule effect.cases) (auto split: if_splits)

lemma local_keys_effect:
  assumes ef: "effect K e e'" and loc: "local_keys_used e"
    and new: "\<And>sn. (local_engine_id (config e), sn) \<in> K \<Longrightarrow> unat sn \<le> unat (session_counter e)"
  shows "local_keys_used e'"
proof -
  have "unat sn \<le> unat (session_counter e)"
    if "fmlookup (sessions e') (local_engine_id (config e), sn) \<noteq> None" for sn
  proof (cases "fmlookup (sessions e) (local_engine_id (config e), sn) = None")
    case True
    with effect_keys [OF ef that] new show ?thesis by blast
  qed (use loc in \<open>auto simp: local_keys_used_def\<close>)
  then show ?thesis using effect_config [OF ef] by (simp add: local_keys_used_def)
qed

definition balanced :: "engine \<Rightarrow> bool" where
  "balanced e \<longleftrightarrow> engine_inv e \<and> local_keys_used e \<and> balance e = of_nat (active_session_count e)"

lemma balanced_effect:
  assumes "effect K e e'" "balanced e"
    and "\<And>sn. (local_engine_id (config e), sn) \<in> K \<Longrightarrow> unat sn \<le> unat (session_counter e)"
  shows "balanced e' \<and> config e' = config e \<and> session_counter e' = session_counter e"
  using assms local_keys_effect [OF assms(1) _ assms(3)] engine_inv_effect balance_effect effect_config
  unfolding balanced_def by blast

lemma exec_balanced:
  assumes b: "balanced e" and op: "foreign_op (local_engine_id (config e)) op"
    and ctr: "unat (session_counter e) + 1 < 2 ^ 64" and x: "exec e op = Inr e'"
  shows "balanced e' \<and> config e' = config e \<and> unat (session_counter e') \<le> unat (session_counter e) + 1"
proof (cases op)
  case (Op_Start data reliable)
  let ?b = "e\<lparr>session_counter := session_counter e + 1\<rparr>"
  let ?k = "(local_engine_id (config e), session_counter e + 1)"
  obtain sn where h: "start_session e data reliable = Inr (sn, e')"
    using x Op_Start by (auto simp: rbind_eq_Inr)
  have inc: "unat (session_counter e + 1) = unat (session_counter e) + 1"
    using ctr unat_plus_no_wrap [of "session_counter e" 1] by simp
  then have fresh: "fmlookup (sessions e) ?k = None"
    using b by (fastforce simp: balanced_def local_keys_used_def)
  have bb: "balanced ?b"
    using b inc by (fastforce simp: balanced_def engine_inv_def active_session_count_def
        local_keys_used_def balance_def)
  from start_session_effect [OF _ h fresh, of "{?k}"]
  consider "e' = e" | "effect {?k} ?b e'" by auto
  then show ?thesis
  proof cases
    case 2
    from balanced_effect [OF this bb] inc show ?thesis by simp
  qed (use b in simp)
next
  case (Op_Wire bs)
  have ef: "effect (wire_keys bs) e e'" using b x Op_Wire on_wire_effect by (simp add: balanced_def)
  have "(local_engine_id (config e), sn) \<notin> wire_keys bs" for sn
    using op by (auto simp: foreign_op_def Op_Wire wire_keys_def segment_keys_def
        split: sum.splits option.splits)
  then show ?thesis using balanced_effect [OF ef b] by simp
next
  case (Op_Timer ev)
  then have ef: "effect {} e e'" using b x handle_timer_effect by (simp add: balanced_def)
  then show ?thesis using balanced_effect [OF ef b] by simp
next
  case (Op_Cancel eid sn r)
  then have ef: "effect {} e e'" using x cancel_session_effect by simp
  then show ?thesis using balanced_effect [OF ef b] by simp
qed

lemma reaches_balanced:
  "reaches e ops e' \<Longrightarrow> balanced e \<Longrightarrow> list_all (foreign_op (local_engine_id (config e))) ops
   \<Longrightarrow> unat (session_counter e) + length ops < 2 ^ 64
   \<Longrightarrow> balanced e' \<and> config e' = config e
     \<and> unat (session_counter e') \<le> unat (session_counter e) + length ops"
proof (induction rule: reaches.induct)
  case (reach_step e ops e1 op e2)
  then have ih: "balanced e1" "config e1 = config e"
    "unat (session_counter e1) \<le> unat (session_counter e) + length ops" by auto
  with reach_step show ?case using exec_balanced [of e1 op e2] by auto
qed simp

section \<open>How an operation can fail\<close>

definition fails_only :: "cxx_error set \<Rightarrow> 'a res \<Rightarrow> bool" where
  "fails_only E r \<longleftrightarrow> (\<forall>err. r = Inl err \<longrightarrow> err \<in> E)"

named_theorems fails_intros "which failures a call can have"

lemma fails_only_Inr [simp]: "fails_only E (Inr x)"
  by (simp add: fails_only_def)

lemma fails_only_Inl [simp]: "fails_only E (Inl err) \<longleftrightarrow> err \<in> E"
  by (auto simp: fails_only_def)

lemma fails_only_rbind [fails_intros]:
  "fails_only E r \<Longrightarrow> (\<And>x. r = Inr x \<Longrightarrow> fails_only E (f x)) \<Longrightarrow> fails_only E (rbind r f)"
  by (cases r) simp_all

text \<open>A segment whose content is the alternative its type asks for can always be sent.\<close>

definition sendable :: "ltp_segment \<Rightarrow> bool" where
  "sendable seg \<longleftrightarrow> (let t = segment_type seg in
     if is_data t then \<exists>ds. content seg = Data_Seg ds
     else if t = REPORT_SEGMENT then \<exists>rs. content seg = Report_Seg rs
     else if t = REPORT_ACK then \<exists>ra. content seg = Rpt_Ack ra
     else if t = CANCEL_BY_SENDER \<or> t = CANCEL_BY_RECEIVER then \<exists>cc. content seg = Cancel_Seg cc
     else True)"

lemma checkpoint_is_data: "has_checkpoint t \<Longrightarrow> is_data t"
  using order_trans [of t 3 5] by (simp add: seg_preds)

lemma report_not_data: "\<not> is_data REPORT_SEGMENT" "\<not> has_checkpoint REPORT_SEGMENT"
  by (simp_all add: seg_preds seg_types)

lemma send_segment_fails [fails_intros]:
  assumes "sendable seg"
  shows "fails_only {} (send_segment e seg)"
proof -
  let ?t = "segment_type seg"
  have a: "fails_only {} (arm_checkpoint_timer seg e)" if "has_checkpoint ?t" for e
    using assms checkpoint_is_data [OF that]
    by (auto simp: sendable_def arm_checkpoint_timer_def case_prod_unfold Let_def split: option.split)
  have r: "fails_only {} (arm_report_timer seg e)" if "?t = REPORT_SEGMENT" for e
    using assms that report_not_data
    by (auto simp: sendable_def arm_report_timer_def case_prod_unfold Let_def split: option.split)
  have n: "fails_only {} (note_sent e seg)"
    unfolding note_sent_def Let_def
    by (cases "is_red ?t"; cases "has_checkpoint ?t"; cases "is_green ?t"; cases "?t = REPORT_SEGMENT")
      (simp_all add: a r)
  have "fails_only {} (encode_content ?t (content seg) out)" for out
    using assms by (auto simp: sendable_def encode_content_def Let_def)
  then have "fails_only {} (segment_encode seg)"
    by (auto simp: segment_encode_def Let_def intro: fails_intros)
  with n show ?thesis unfolding send_segment_def
    by (intro fails_only_rbind) (simp_all add: fails_only_rbind)
qed

lemma fails_only_mono: "fails_only E r \<Longrightarrow> E \<subseteq> F \<Longrightarrow> fails_only F r"
  by (auto simp: fails_only_def)

lemma send_all_fails: "list_all sendable segs \<Longrightarrow> fails_only {} (send_all e segs)"
  by (induction segs arbitrary: e) (simp_all add: fails_only_rbind send_segment_fails)

text \<open>The failures of the operations, for a positive segment size.\<close>

abbreviation hostile :: "cxx_error set" where
  "hostile \<equiv> {Undefined_Behaviour, Length_Error, Bad_Alloc}"

lemma send_hostile: "sendable seg \<Longrightarrow> fails_only hostile (send_segment e seg)"
  using fails_only_mono send_segment_fails by blast

lemma send_all_hostile: "list_all sendable segs \<Longrightarrow> fails_only hostile (send_all e segs)"
  using fails_only_mono send_all_fails by blast

lemma sendable_segs:
  "sendable (default_segment\<lparr>segment_type := REPORT_SEGMENT, seg_engine_id := i,
     seg_session_number := n, content := Report_Seg rs\<rparr>)"
  "sendable (default_segment\<lparr>segment_type := REPORT_ACK, seg_engine_id := i,
     seg_session_number := n, content := Rpt_Ack ra\<rparr>)"
  "t = CANCEL_BY_SENDER \<or> t = CANCEL_BY_RECEIVER \<or> t = CANCEL_ACK_TO_SENDER
     \<or> t = CANCEL_ACK_TO_RECEIVER \<Longrightarrow>
   sendable (default_segment\<lparr>seg_engine_id := i, seg_session_number := n, segment_type := t,
     content := Cancel_Seg cc\<rparr>)"
  "is_data t \<Longrightarrow> sendable (data_segment s t ds)"
  by (auto simp: sendable_def Let_def report_not_data data_segment_def is_data_def seg_types)

lemma chunk_segs_sendable: "list_all sendable (chunk_segs s cp ps)"
proof -
  have "is_data (chunk_type r l)" for r l
    by (simp add: chunk_type_def is_data_def seg_types)
  then have "sendable (chunk_seg s cp l p)" for l p
    unfolding chunk_seg_def using sendable_segs(4) by blast
  then show ?thesis by (auto simp: chunk_segs_def list_all_iff)
qed

lemma gap_loop_returns:
  assumes "max_seg \<noteq> 0"
  shows "\<exists>r. gap_loop s max_seg off rem segs = Some r \<and> fails_only hostile r
    \<and> (list_all sendable segs \<longrightarrow> (\<forall>out. r = Inr out \<longrightarrow> list_all sendable out))"
proof (induction "unat rem" arbitrary: off rem segs rule: less_induct)
  case less
  let ?c = "min (ucast max_seg) rem"
  show ?case
  proof (cases "rem = 0 \<or> unat off + unat ?c > length (client_data s)")
    case True
    then show ?thesis
      by (subst gap_loop.simps) (auto simp: Let_def read_range_def word_gt_0)
  next
    case False
    have "unat (ucast max_seg :: u64) \<noteq> 0" using assms by (simp add: unat_ucast_u32 unat_eq_0)
    then have "unat ?c \<noteq> 0" "?c \<le> rem" using False by (simp_all add: min_word_unat unat_eq_0 unat_gt_0)
    then have "unat (rem - ?c) < unat rem" using False by (simp add: unat_minus_no_wrap word_le_nat_alt)
    note ih = less.hyps [OF this]
    have "sendable (data_segment s RED_DATA ds)" for ds
      by (rule sendable_segs(4)) (simp add: is_data_def seg_types)
    then have "\<exists>r. gap_loop s max_seg (off + ?c) (rem - ?c) (segs @ [data_segment s RED_DATA ds]) = Some r
        \<and> fails_only hostile r
        \<and> (list_all sendable segs \<longrightarrow> (\<forall>out. r = Inr out \<longrightarrow> list_all sendable out))" for ds
      using ih [of "off + ?c" "segs @ [data_segment s RED_DATA ds]"] by simp
    then show ?thesis using False
      by (subst gap_loop.simps) (simp add: Let_def read_range_def word_gt_0)
  qed
qed

lemma collect_gaps_fails:
  assumes "max_seg \<noteq> 0"
  shows "list_all sendable segs \<Longrightarrow> fails_only hostile (collect_gaps s max_seg gaps segs)
    \<and> (\<forall>out. collect_gaps s max_seg gaps segs = Inr out \<longrightarrow> list_all sendable out)"
proof (induction gaps arbitrary: segs)
  case (Cons g gaps)
  obtain r where r: "gap_loop s max_seg (claim_offset g) (claim_length g) segs = Some r"
    "fails_only hostile r" "\<forall>out. r = Inr out \<longrightarrow> list_all sendable out"
    using gap_loop_returns [OF assms] Cons.prems by blast
  then show ?case using Cons.IH by (auto simp: rbind_eq_Inr intro: fails_only_rbind)
qed simp

text \<open>Every segment of a gap is a data segment, so the last one can be marked.\<close>

definition has_data :: "ltp_segment \<Rightarrow> bool" where
  "has_data seg \<longleftrightarrow> (\<exists>ds. content seg = Data_Seg ds)"

lemma gap_loop_data:
  assumes "gap_loop s max_seg off rem segs = Some (Inr out)" "list_all has_data segs"
  shows "list_all has_data out"
proof -
  have "list_all has_data segs \<longrightarrow> (\<forall>out. r = Inr out \<longrightarrow> list_all has_data out)"
    if "gap_loop s max_seg off rem segs = Some r" for s max_seg off rem segs r
  proof (rule gap_loop.raw_induct [where P = "\<lambda>s max_seg off rem segs r.
      list_all has_data segs \<longrightarrow> (\<forall>out. r = Inr out \<longrightarrow> list_all has_data out)", OF _ that])
    fix loop s max_seg off rem segs r
    assume ih: "\<And>s m off rem segs r. loop s m off rem segs = Some r
        \<Longrightarrow> list_all has_data segs \<longrightarrow> (\<forall>out. r = Inr out \<longrightarrow> list_all has_data out)"
      and eq: "(if 0 < rem then
          let chunk = min (ucast (max_seg :: u32)) rem
          in case read_range (client_data s) (unat off) chunk of Inl err \<Rightarrow> Some (Inl err)
             | Inr d \<Rightarrow> loop s max_seg (off + chunk) (rem - chunk)
                 (segs @ [data_segment s RED_DATA
                    \<lparr>client_service_id = 1, ds_offset = off, ds_length = chunk,
                     ds_checkpoint_serial = None, ds_report_serial = None, ds_data = d\<rparr>])
        else Some (Inr segs)) = Some r"
    have d: "has_data (data_segment s t ds)" for t ds by (simp add: has_data_def data_segment_def)
    show "list_all has_data segs \<longrightarrow> (\<forall>out. r = Inr out \<longrightarrow> list_all has_data out)"
      using eq by (auto simp: Let_def d dest!: ih split: if_splits sum.splits)
  qed
  with assms show ?thesis by blast
qed

lemma collect_gaps_data:
  "collect_gaps s max_seg gaps segs = Inr out \<Longrightarrow> list_all has_data segs \<Longrightarrow> list_all has_data out"
  by (induction gaps arbitrary: segs)
    (auto simp: rbind_eq_Inr split: option.splits dest: gap_loop_data)

lemma retransmit_gaps_fails:
  assumes "max_segment_size (config e) \<noteq> 0"
  shows "fails_only hostile (retransmit_gaps e s gaps)"
proof -
  let ?c = "collect_gaps s (max_segment_size (config e)) gaps []"
  have c: "fails_only hostile ?c" using collect_gaps_fails [OF assms, of "[]"] by simp
  show ?thesis
  proof (cases ?c)
    case (Inl err)
    with c show ?thesis by (simp add: retransmit_gaps_def)
  next
    case (Inr out)
    then have out: "list_all sendable out" "list_all has_data out"
      using collect_gaps_fails [OF assms, of "[]"] collect_gaps_data [of _ _ _ "[]"] by auto
    show ?thesis
    proof (cases "out = []")
      case False
      then have "last out \<in> set out" by simp
      then obtain ds where ds: "content (last out) = Data_Seg ds"
        using out(2) unfolding list_all_iff has_data_def by blast
      let ?n = "checkpoint_serial_counter s + 1"
      obtain cp where cp: "mark_checkpoint ?n (last out) = Inr cp" "sendable cp"
        by (simp add: mark_checkpoint_def ds sendable_def Let_def is_data_def seg_types)
      have "list_all sendable (butlast out @ [cp])"
        using out(1) cp by (auto simp: list_all_iff dest: in_set_butlastD)
      then have "fails_only hostile (send_all e (butlast out @ [cp]))" by (rule send_all_hostile)
      then show ?thesis using False Inr cp(1)
        by (simp add: retransmit_gaps_def Let_def fails_only_rbind)
    qed (use Inr in \<open>simp add: retransmit_gaps_def\<close>)
  qed
qed

lemma segment_data_fails:
  assumes "max_segment_size (config e) \<noteq> 0"
  shows "\<exists>segs s'. segment_data e s = Inr (segs, s') \<and> list_all sendable segs"
  using assms chunk_segs_sendable by (simp add: segment_data_def segment_data_impl_eq)

lemma cancel_session_fails: "fails_only {} (cancel_session e eid sn r)"
  by (auto simp: cancel_session_def Let_def split: option.split
      intro!: fails_only_rbind send_segment_fails sendable_segs)

lemma generate_report_fails: "fails_only {} (generate_report e s cp ub)"
  unfolding generate_report_def Let_def
  by (intro fails_only_rbind send_segment_fails sendable_segs fails_only_Inr)

lemma handle_timer_fails:
  assumes "max_segment_size (config e) \<noteq> 0"
  shows "fails_only {} (handle_timer_expiry e ev)"
proof -
  have sd: "fails_only {} (rbind (segment_data e1 s) (\<lambda>(segs, s'). send_all (f s') segs))"
    if "config e1 = config e" for e1 s f
    using segment_data_fails [of e1 s] send_all_fails assms that by auto
  show ?thesis
    unfolding handle_timer_expiry_def Let_def
    by (auto split: option.split intro!: cancel_session_fails sd fails_only_rbind generate_report_fails
        simp: put_session_def tally_def split del: if_split split: if_split)
qed

lemma read_range_fails: "fails_only hostile (read_range d off n)"
  by (simp add: read_range_def)

lemma complete_receiver_fails: "fails_only hostile (complete_receiver e k s)"
  by (auto simp: complete_receiver_def deliver_data_def Let_def
      intro!: fails_only_rbind read_range_fails)

lemma receive_data_fails:
  assumes "get_data (content seg) = Inr ds"
  shows "fails_only hostile (receive_data_segment e seg)"
proof -
  have s: "fails_only hostile (store_segment_data t ds s)" for t s
    by (auto simp: store_segment_data_def grow_def copy_to_def Let_def intro!: fails_only_rbind)
  have a: "fails_only hostile (answer_checkpoint e t ds s)" for e t s
    using fails_only_mono [OF generate_report_fails]
    by (auto simp: answer_checkpoint_def split: option.split)
  show ?thesis
    unfolding receive_data_segment_def assms rbind_simps Let_def
    by (auto intro!: fails_only_rbind s a complete_receiver_fails split: option.split prod.split)
qed

lemma receive_report_fails:
  assumes "get_report (content seg) = Inr rs" and m: "max_segment_size (config e) \<noteq> 0"
  shows "fails_only hostile (receive_report_segment e seg)"
proof -
  have ack: "fails_only hostile (send_report_ack e i n r)" for e i n r
    unfolding send_report_ack_def by (intro send_hostile sendable_segs)
  have rt: "fails_only hostile (rbind (retransmit_gaps (tally retransmissions_update (put_session k s
      (disarm_checkpoint tk e1))) s' gaps) (\<lambda>(e, session). Inr (put_session k session e)))"
    if "send_report_ack (tally reports_received_update e) i n r = Inr e1" for k s tk e1 s' gaps i n r
  proof -
    have "config e1 = config e"
      using that send_segment_frame frame_core unfolding send_report_ack_def by fastforce
    then have "max_segment_size (config (disarm_checkpoint tk e1)) \<noteq> 0"
      using m frame_core [OF frame_disarm(1), of tk e1] by simp
    then show ?thesis by (auto intro!: fails_only_rbind retransmit_gaps_fails)
  qed
  show ?thesis
    unfolding receive_report_segment_def assms(1) rbind_simps Let_def
    by (auto intro!: fails_only_rbind [of _ "send_report_ack _ _ _ _"] ack rt
        fails_only_mono [OF cancel_session_fails] split: option.split)
qed

lemma receive_segment_fails:
  assumes wf: "segment_wf seg" and m: "max_segment_size (config e) \<noteq> 0"
  shows "fails_only hostile (receive_segment e seg)"
proof -
  show ?thesis
  proof (cases "content seg")
    case (Data_Seg ds)
    then have "is_data (segment_type seg)" using wf by (simp add: segment_wf_def content_wf_cases content_fits_def)
    then show ?thesis using receive_data_fails [of seg ds e] Data_Seg by (simp add: receive_segment_def)
  next
    case (Report_Seg rs)
    then have "segment_type seg = REPORT_SEGMENT" using wf by (simp add: segment_wf_def content_wf_cases content_fits_def)
    then show ?thesis using receive_report_fails [of seg rs e] Report_Seg m report_not_data
      by (simp add: receive_segment_def)
  next
    case (Rpt_Ack ra)
    then have "segment_type seg = REPORT_ACK" using wf by (simp add: segment_wf_def content_wf_cases content_fits_def)
    then show ?thesis using Rpt_Ack
      by (auto simp: receive_segment_def receive_report_ack_def Let_def is_data_def seg_types
          complete_receiver_fails split: option.split)
  next
    case (Cancel_Seg cc)
    then have "\<not> is_data (segment_type seg)" using wf
      by (auto simp: segment_wf_def content_wf_cases content_fits_def is_data_def seg_types)
    moreover have "segment_type seg \<noteq> REPORT_SEGMENT" "segment_type seg \<noteq> REPORT_ACK" using wf Cancel_Seg
      by (auto simp: segment_wf_def content_wf_cases content_fits_def seg_types)
    moreover have "fails_only hostile (receive_cancel_ack e seg)"
      by (auto simp: receive_cancel_ack_def Let_def split: option.split)
    moreover have "fails_only hostile (receive_cancel_segment e seg)"
      using Cancel_Seg by (auto simp: receive_cancel_segment_def Let_def intro!: fails_only_rbind send_hostile sendable_segs(3))
    ultimately show ?thesis by (simp add: receive_segment_def)
  qed
qed

lemma start_session_fails:
  assumes m: "max_segment_size (config e) \<noteq> 0"
  shows "fails_only {} (start_session e data reliable)"
proof -
  have k: "fmlookup (sessions (emplace_session k s e)) k \<noteq> None" for k s e
    by (simp add: emplace_session_def split: option.split)
  have c: "config (emplace_session k s e) = config e" for k s e
    by (simp add: emplace_session_def split: option.split)
  have sd: "fails_only {} (rbind (segment_data e1 s) f)"
    if "config e1 = config e" "\<And>segs s'. list_all sendable segs \<Longrightarrow> fails_only {} (f (segs, s'))"
    for e1 s and f :: "ltp_segment list \<times> ltp_session \<Rightarrow> 'z res"
    using segment_data_fails [of e1 s] assms that by fastforce
  show ?thesis
    unfolding start_session_def Let_def
    by (auto simp: k c split: option.split intro!: sd fails_only_rbind [of _ "send_all _ _"] send_all_fails)
qed

lemma exec_fails:
  assumes m: "max_segment_size (config e) \<noteq> 0"
  shows "fails_only (case op of Op_Wire _ \<Rightarrow> hostile | _ \<Rightarrow> {}) (exec e op)"
proof (cases op)
  case (Op_Start data reliable)
  then show ?thesis using start_session_fails [OF m] by (auto intro: fails_only_rbind)
next
  case (Op_Wire bs)
  have "fails_only hostile (segment_decode bs)"
    using decode_body_error [of bs]
    by (auto simp: segment_decode_def fails_only_def split: sum.splits cxx_error.splits if_splits)
  then show ?thesis using Op_Wire receive_segment_fails [OF _ m] segment_decode_wf
    by (auto simp: on_wire_def intro!: fails_only_rbind split: option.split)
next
  case (Op_Timer ev)
  then show ?thesis using handle_timer_fails [OF m] by simp
next
  case (Op_Cancel eid sn r)
  then show ?thesis using cancel_session_fails by simp
qed

lemma fails_only_empty: "fails_only {} r \<longleftrightarrow> (\<exists>x. r = Inr x)"
  by (cases r) simp_all

section \<open>Retransmission is bounded\<close>

text \<open>Checkpoint timer expiries in a row for one session.\<close>

fun expiries :: "nat \<Rightarrow> engine \<Rightarrow> timer_event \<Rightarrow> engine res" where
  "expiries 0 e ev = Inr e"
| "expiries (Suc n) e ev = rbind (expiries n e ev) (\<lambda>e. handle_timer_expiry e ev)"

definition sending :: "engine \<Rightarrow> timer_event \<Rightarrow> u8 \<Rightarrow> bool" where
  "sending e ev n \<longleftrightarrow> engine_inv e \<and> ev_type ev = CHECKPOINT \<and> max_segment_size (config e) \<noteq> 0
     \<and> (\<exists>s. fmlookup (sessions e) (local_engine_id (config e), ev_session_number ev) = Some s
        \<and> role s = ORIGINATOR \<and> retransmission_count s = n)"

lemma expiry_step:
  assumes "sending e ev n"
  shows "\<exists>e'. handle_timer_expiry e ev = Inr e' \<and> config e' = config e \<and>
    (if n + 1 > max_retransmissions (config e)
     then fmlookup (sessions e') (local_engine_id (config e), ev_session_number ev) = None
     else sending e' ev (n + 1))"
proof -
  let ?k = "(local_engine_id (config e), ev_session_number ev)"
  obtain s where inv: "engine_inv e" and cp: "ev_type ev = CHECKPOINT"
    and m: "max_segment_size (config e) \<noteq> 0"
    and s: "fmlookup (sessions e) ?k = Some s" "role s = ORIGINATOR" "retransmission_count s = n"
    using assms by (auto simp: sending_def)
  have ok: "session_ok ?k s" using inv s(1) fmpredD by (fastforce simp: engine_inv_def)
  then have act: "state s = ACTIVE" and k: "?k = (s_engine_id s, s_session_number s)"
    by (simp_all add: session_ok_def)
  let ?s = "s\<lparr>retransmission_count := n + 1\<rparr>" and ?e1 = "put_session ?k (s\<lparr>retransmission_count := n + 1\<rparr>) e"
  show ?thesis
  proof (cases "n + 1 > max_retransmissions (config e)")
    case True
    have h: "handle_timer_expiry e ev = cancel_session ?e1 (s_engine_id s) (s_session_number s) 1"
      using True cp s act by (simp add: handle_timer_expiry_def Let_def)
    have lk: "fmlookup (sessions ?e1) (s_engine_id s, s_session_number s) = Some ?s"
      by (simp flip: k)
    have "\<exists>e'. cancel_session ?e1 (s_engine_id s) (s_session_number s) 1 = Inr e'"
    proof -
      have "fails_only {} (send_segment ?e1 (default_segment\<lparr>seg_engine_id := s_engine_id s,
          seg_session_number := s_session_number s, segment_type := CANCEL_BY_SENDER,
          content := Cancel_Seg \<lparr>reason_code = 1\<rparr>\<rparr>))"
        by (intro send_segment_fails sendable_segs(3)) simp
      then show ?thesis using lk s(2)
        by (auto simp: cancel_session_def Let_def fails_only_def rbind_def split: sum.split)
    qed
    then obtain e' where e': "cancel_session ?e1 (s_engine_id s) (s_session_number s) 1 = Inr e'" by blast
    from cancel_session_present [OF this lk] have "config e' = config e"
      "sessions e' = fmdrop ?k (sessions e)" by (simp_all flip: k)
    with h e' True show ?thesis by simp
  next
    case False
    let ?e2 = "tally retransmissions_update ?e1"
    have "max_segment_size (config ?e2) \<noteq> 0" using m by simp
    from segment_data_fails [OF this] obtain segs s' where sd: "segment_data ?e2 ?s = Inr (segs, s')"
      and ok': "list_all sendable segs" by blast
    obtain c where s': "s' = ?s\<lparr>checkpoint_serial_counter := c\<rparr>" using segment_data_session [OF sd] by blast
    obtain e' where sa: "send_all (put_session ?k s' ?e2) segs = Inr e'"
      using send_all_fails [OF ok', of "put_session ?k s' ?e2"]
      by (cases "send_all (put_session ?k s' ?e2) segs") (auto simp: fails_only_def)
    have h: "handle_timer_expiry e ev = Inr e'"
      using False cp s act sd sa by (simp add: handle_timer_expiry_def Let_def)
    note f = frame_core [OF send_all_frame [OF sa]]
    have "engine_inv e'" using handle_timer_effect [OF inv h] inv by (rule engine_inv_effect)
    then show ?thesis using f s cp m h False
      by (simp add: sending_def s')
  qed
qed

lemma expiries_sending:
  assumes "sending e ev 0" "n \<le> unat (max_retransmissions (config e))"
    "max_retransmissions (config e) \<noteq> 255"
  shows "\<exists>e'. expiries n e ev = Inr e' \<and> config e' = config e \<and> sending e' ev (of_nat n)"
  using assms(2)
proof (induction n)
  case 0
  then show ?case using assms(1) by simp
next
  case (Suc n)
  then obtain e1 where e1: "expiries n e ev = Inr e1" "config e1 = config e" "sending e1 ev (of_nat n)"
    by auto
  have b: "unat (max_retransmissions (config e)) < 256"
    using unsigned_less [of "max_retransmissions (config e)", where ?'a = nat] by simp
  then have "unat (of_nat (Suc n) :: u8) = Suc n" using Suc.prems by (simp only: unat_of_nat) (simp add: take_bit_nat_eq_self)
  then have "of_nat n + 1 \<le> max_retransmissions (config e)"
    using Suc.prems by (simp add: word_le_nat_alt add.commute)
  then show ?case using expiry_step [OF e1(3)] e1 by (auto simp: not_less add.commute split: if_splits)
qed

section \<open>Properties\<close>

text \<open>C12. Whatever the engine is asked to do and whatever arrives, the session table never
  holds more than the configured number of sessions, every session is stored under its own
  engine identifier and number, and only active sessions are kept: completed and cancelled ones
  are gone when the operation that closed them returns.\<close>

theorem engine_table_invariant:
  assumes "reaches e ops e'" "sessions e = fmempty"
  shows "active_session_count e' \<le> unat (max_concurrent_sessions (config e))
    \<and> (\<forall>k s. fmlookup (sessions e') k = Some s
        \<longrightarrow> k = (s_engine_id s, s_session_number s) \<and> state s = ACTIVE)"
  using reaches_inv [OF assms(1) engine_inv_empty [OF assms(2)]] fmpredD [of session_ok "sessions e'"]
  by (auto simp: engine_inv_def session_ok_def)

definition sample_engine :: engine where
  "sample_engine = new_engine default_engine_config"

lemma sample_simps:
  "sessions sample_engine = fmempty" "max_segment_size (config sample_engine) = 1400"
  "max_concurrent_sessions (config sample_engine) = 100" "local_engine_id (config sample_engine) = 1"
  "session_counter sample_engine = 0" "balance sample_engine = 0"
  by (simp_all add: sample_engine_def new_engine_def default_engine_config_def balance_def
      no_diagnostics_def)

lemma sample_start: "\<exists>e'. reaches sample_engine [Op_Start [1, 2, 3] True] e'"
proof -
  have "fails_only {} (exec sample_engine (Op_Start [1, 2, 3] True))"
    using exec_fails [of sample_engine "Op_Start [1, 2, 3] True"] by (simp add: sample_simps)
  then obtain e' where "exec sample_engine (Op_Start [1, 2, 3] True) = Inr e'"
    unfolding fails_only_empty by blast
  from reach_step [OF reach_refl this] show ?thesis by auto
qed

theorem engine_table_invariant_witness:
  "\<exists>e'. reaches sample_engine [Op_Start [1, 2, 3] True] e' \<and> active_session_count e' \<le> 100"
  using sample_start engine_table_invariant [of sample_engine] by (fastforce simp: sample_simps)

text \<open>C13. The diagnostics add up: along any run without forged data segments under the local
  engine identifier, the sessions originated and received are exactly the sessions completed,
  cancelled and still in the table.\<close>

theorem engine_accounting:
  assumes "reaches e ops e'" "sessions e = fmempty" "balance e = 0" "session_counter e = 0"
    and "list_all (foreign_op (local_engine_id (config e))) ops" "length ops < 2 ^ 64"
  shows "sessions_originated (diag e') + sessions_received (diag e')
    = sessions_completed (diag e') + sessions_cancelled (diag e') + of_nat (active_session_count e')"
proof -
  have "balanced e"
    using assms by (simp add: balanced_def engine_inv_empty local_keys_used_def
        active_session_count_def fcard_fempty)
  then have "balance e' = of_nat (active_session_count e')"
    using reaches_balanced [OF assms(1)] assms by (simp add: balanced_def)
  then show ?thesis by (simp add: balance_def algebra_simps)
qed

theorem engine_accounting_witness:
  "\<exists>e'. reaches sample_engine [Op_Start [1, 2, 3] True] e' \<and>
     sessions_originated (diag e') + sessions_received (diag e')
     = sessions_completed (diag e') + sessions_cancelled (diag e') + of_nat (active_session_count e')"
  using sample_start engine_accounting [of sample_engine "[Op_Start [1, 2, 3] True]"]
  by (fastforce simp: sample_simps foreign_op_def)

text \<open>C11. With a positive segment size, starting, cancelling and timer expiry always return;
  only bytes from the wire can make the engine fail, and then by undefined behaviour or by an
  escaping \<open>std::length_error\<close> or \<open>std::bad_alloc\<close>: no decoded segment reaches a handler with content of the wrong
  alternative, no loop diverges.\<close>

theorem engine_failures:
  assumes "max_segment_size (config e) \<noteq> 0"
  shows "(\<exists>e'. exec e op = Inr e') \<or> (\<exists>bs. op = Op_Wire bs
    \<and> (exec e op = Inl Undefined_Behaviour \<or> exec e op = Inl Length_Error \<or> exec e op = Inl Bad_Alloc))"
  using exec_fails [OF assms, of op]
  by (cases "exec e op"; cases op) (auto simp: fails_only_def)

theorem engine_failures_witness:
  "\<exists>e'. exec sample_engine (Op_Start [1, 2, 3] True) = Inr e'"
  using engine_failures [of sample_engine "Op_Start [1, 2, 3] True"] by (simp add: sample_simps)

text \<open>C14. A transfer that is never answered ends: with a limit below 255, the checkpoint timer
  of an originator session can expire as often as the limit allows and the session is kept and
  resent, and the next expiry removes it.\<close>

theorem retransmission_limited:
  assumes "sending e ev 0" "max_retransmissions (config e) \<noteq> 255"
  shows "(\<forall>n \<le> unat (max_retransmissions (config e)). \<exists>e'. expiries n e ev = Inr e'
      \<and> fmlookup (sessions e') (local_engine_id (config e), ev_session_number ev) \<noteq> None)
    \<and> (\<exists>e'. expiries (Suc (unat (max_retransmissions (config e)))) e ev = Inr e'
      \<and> fmlookup (sessions e') (local_engine_id (config e), ev_session_number ev) = None)"
proof (intro conjI allI impI)
  fix n assume "n \<le> unat (max_retransmissions (config e))"
  then show "\<exists>e'. expiries n e ev = Inr e'
      \<and> fmlookup (sessions e') (local_engine_id (config e), ev_session_number ev) \<noteq> None"
    using expiries_sending [OF assms(1) _ assms(2)] by (fastforce simp: sending_def)
next
  let ?m = "max_retransmissions (config e)"
  obtain e1 where e1: "expiries (unat ?m) e ev = Inr e1" "config e1 = config e" "sending e1 ev ?m"
    using expiries_sending [OF assms(1) order_refl assms(2)] by auto
  have "unat ?m < 256" using unsigned_less [of ?m, where ?'a = nat] by simp
  moreover have "unat ?m \<noteq> 255" using assms(2) by (simp add: word_unat_eq_iff)
  ultimately have "?m + 1 > ?m" by (simp add: word_less_nat_alt unat_word_ariths)
  then show "\<exists>e'. expiries (Suc (unat ?m)) e ev = Inr e'
      \<and> fmlookup (sessions e') (local_engine_id (config e), ev_session_number ev) = None"
    using expiry_step [OF e1(3)] e1 by auto
qed

definition sample_sending :: engine where
  "sample_sending = put_session (1, 1) (default_session\<lparr>s_engine_id := 1, s_session_number := 1,
     client_data := [1, 2, 3], total_data_length := 3\<rparr>) sample_engine"

definition sample_timeout :: timer_event where
  "sample_timeout = \<lparr>ev_type = CHECKPOINT, ev_engine_id = 1, ev_session_number = 1, ev_serial_number = 1\<rparr>"

lemma sample_is_sending: "sending sample_sending sample_timeout 0"
proof -
  have "effect {(1, 1)} sample_engine
      (tally sessions_originated_update sample_sending)"
    by (rule create [of _ _ "(1, 1)"]) (simp_all add: sample_sending_def sample_simps session_ok_def
        default_session_def active_session_count_def fcard_fempty)
  then have "engine_inv (tally sessions_originated_update sample_sending)"
    using engine_inv_effect engine_inv_empty sample_simps(1) by blast
  then have "engine_inv sample_sending" by (simp add: engine_inv_def active_session_count_def)
  then show ?thesis
    by (simp add: sending_def sample_timeout_def sample_sending_def sample_simps default_session_def)
qed

theorem retransmission_limited_witness:
  "(\<exists>e'. expiries 10 sample_sending sample_timeout = Inr e' \<and> fmlookup (sessions e') (1, 1) \<noteq> None)
   \<and> (\<exists>e'. expiries 11 sample_sending sample_timeout = Inr e' \<and> fmlookup (sessions e') (1, 1) = None)"
proof -
  have c: "max_retransmissions (config sample_sending) = 10" "local_engine_id (config sample_sending) = 1"
    "ev_session_number sample_timeout = 1"
    by (simp_all add: sample_sending_def sample_engine_def new_engine_def default_engine_config_def
        sample_timeout_def)
  have "Suc (unat (10 :: u8)) = 11" by simp
  from retransmission_limited [OF sample_is_sending, unfolded c this] show ?thesis
    using c by auto
qed

text \<open>With the limit 255 the 8-bit counter wraps before it can exceed the limit: however
  often the timer expires, the session is never given up.\<close>

theorem retransmission_unlimited_255:
  assumes "sending e ev n" "max_retransmissions (config e) = 255"
  shows "\<exists>e'. expiries k e ev = Inr e'
    \<and> fmlookup (sessions e') (local_engine_id (config e), ev_session_number ev) \<noteq> None"
proof -
  have "\<exists>e' m. expiries k e ev = Inr e' \<and> config e' = config e \<and> sending e' ev m"
  proof (induction k)
    case 0
    then show ?case using assms(1) by auto
  next
    case (Suc k)
    then obtain e1 m where e1: "expiries k e ev = Inr e1" "config e1 = config e" "sending e1 ev m" by blast
    have "\<not> m + 1 > max_retransmissions (config e1)"
      using unsigned_less [of "m + 1", where ?'a = nat] by (simp add: e1 assms(2) word_less_nat_alt)
    then show ?case using expiry_step [OF e1(3)] e1 by auto
  qed
  then show ?thesis by (fastforce simp: sending_def)
qed

abbreviation sample_255 :: engine where
  "sample_255 \<equiv> sample_sending\<lparr>config := (config sample_sending)\<lparr>max_retransmissions := 255\<rparr>\<rparr>"

theorem retransmission_unlimited_255_witness:
  "\<exists>e'. expiries 1000 sample_255 sample_timeout = Inr e' \<and> fmlookup (sessions e') (1, 1) \<noteq> None"
proof -
  have "sending sample_255 sample_timeout 0"
    using sample_is_sending by (simp add: sending_def engine_inv_def active_session_count_def)
  from retransmission_unlimited_255 [OF this, of 1000] show ?thesis
    by (simp add: sample_sending_def sample_simps sample_timeout_def)
qed

end
