(* ===== verification/Delivery.thy ===== *)
theory Delivery
  imports Engine_Safety
begin

text \<open>
  Transfers: a receiver that is given any pieces of a block, in any order and with repetitions,
  holds exactly those bytes of it and delivers the block once all are there; a report makes the
  originator resend exactly the missing bytes; and two engines joined by a wire complete the
  transfer of any block.
\<close>

section \<open>Pieces of a block\<close>

definition piece :: "bytes \<Rightarrow> data_seg_content \<Rightarrow> bool" where
  "piece d ds \<longleftrightarrow> unat (ds_offset ds) + length (ds_data ds) \<le> length d
     \<and> unat (ds_length ds) = length (ds_data ds)
     \<and> ds_data ds = take (length (ds_data ds)) (drop (unat (ds_offset ds)) d)"

definition piece_set :: "data_seg_content \<Rightarrow> nat set" where
  "piece_set ds = {unat (ds_offset ds) ..< unat (ds_offset ds) + length (ds_data ds)}"

text \<open>A receiver session that holds the bytes \<open>got\<close> of the block \<open>d\<close>.\<close>

definition holds :: "bytes \<Rightarrow> nat set \<Rightarrow> ltp_session \<Rightarrow> bool" where
  "holds d got s \<longleftrightarrow> role s = RECEIVER \<and> state s = ACTIVE
     \<and> tracker_inv (reception_tracker s) \<and> covered (reception_tracker s) = got
     \<and> got \<subseteq> {0 ..< length (client_data s)} \<and> length (client_data s) \<le> length d
     \<and> (\<forall>i \<in> got. client_data s ! i = d ! i)"

lemma piece_nth:
  "piece d ds \<Longrightarrow> i < length (ds_data ds) \<Longrightarrow> ds_data ds ! i = d ! (unat (ds_offset ds) + i)"
proof -
  assume p: "piece d ds" and i: "i < length (ds_data ds)"
  obtain l x where l: "l = length (ds_data ds)" "x = ds_data ds" by blast
  have x: "x = take l (drop (unat (ds_offset ds)) d)" using p l unfolding piece_def by blast
  have "unat (ds_offset ds) \<le> length d" using p unfolding piece_def by linarith
  then show ?thesis using i unfolding l [symmetric] by (simp add: x)
qed

lemma copy_to_nth:
  assumes "copy_to buf off src = Inr out"
  shows "length out = length buf \<and>
    (\<forall>i < length buf. out ! i = (if off \<le> i \<and> i < off + length src then src ! (i - off) else buf ! i))"
proof -
  have o: "out = take off buf @ src @ drop (off + length src) buf" and le: "off + length src \<le> length buf"
    using assms by (simp_all add: copy_to_def split: if_splits)
  have "out ! i = (if off \<le> i \<and> i < off + length src then src ! (i - off) else buf ! i)"
    if "i < length buf" for i
    using that le unfolding o
    by (cases "i < off"; cases "i < off + length src") (simp_all add: nth_append less_diff_conv2)
  moreover have "length out = length buf" using le by (simp add: o)
  ultimately show ?thesis by blast
qed

lemma store_piece:
  assumes h: "holds d got s" and p: "piece d ds" and len: "length d < 2 ^ 62"
  shows "\<exists>s'. store_segment_data t ds s = Inr s' \<and> holds d (got \<union> piece_set ds) s'
    \<and> total_data_length s' = (if has_eob t then ds_offset ds + ds_length ds else total_data_length s)
    \<and> s_engine_id s' = s_engine_id s \<and> s_session_number s' = s_session_number s"
proof -
  let ?o = "unat (ds_offset ds)" and ?l = "length (ds_data ds)" and ?e = "ds_offset ds + ds_length ds"
  have e: "unat ?e = ?o + ?l"
    using p len unat_plus_no_wrap [of "ds_offset ds" "ds_length ds"] by (simp add: piece_def)
  let ?buf = "client_data s @ replicate (?o + ?l - length (client_data s)) 0"
  have g: "grow (client_data s) ?e = Inr ?buf"
    using e p len by (auto simp: grow_def VECTOR_MAX_def ALLOC_LIMIT_def piece_def)
  have bl: "?o + ?l \<le> length ?buf" "length ?buf \<le> length d" "length (client_data s) \<le> length ?buf"
    using h p by (auto simp: holds_def piece_def)
  obtain out where out: "(if ds_length ds > 0 then copy_to ?buf ?o (ds_data ds) else Inr ?buf) = Inr out"
    and nth: "length out = length ?buf"
      "\<forall>i < length ?buf. out ! i = (if ?o \<le> i \<and> i < ?o + ?l then ds_data ds ! (i - ?o) else ?buf ! i)"
  proof (cases "ds_length ds > 0")
    case True
    have "\<exists>out. copy_to ?buf ?o (ds_data ds) = Inr out" using bl(1) by (simp add: copy_to_def)
    then show ?thesis using True that copy_to_nth by fastforce
  next
    case False
    then have "?l = 0" using p by (simp add: piece_def word_gt_0)
    then show ?thesis using False by (intro that [of ?buf]) auto
  qed
  have fits: "?o + unat (ds_length ds) < 2 ^ 64" using p len by (simp add: piece_def)
  let ?t = "add_range (reception_tracker s) (ds_offset ds) (ds_length ds)"
  have t: "tracker_inv ?t" "covered ?t = got \<union> piece_set ds"
    using h add_range_inv [OF _ fits] covered_add_range [OF _ fits] p
    by (auto simp: holds_def piece_set_def piece_def)
  have v: "out ! i = d ! i" if "i \<in> got \<union> piece_set ds" for i
  proof (cases "i \<in> piece_set ds")
    case True
    then show ?thesis using nth bl piece_nth [OF p, of "i - ?o"] by (auto simp: piece_set_def)
  next
    case False
    then have i: "i \<in> got" "i < length (client_data s)" using that h by (auto simp: holds_def)
    with False h nth bl show ?thesis by (auto simp: piece_set_def nth_append holds_def)
  qed
  let ?s = "s\<lparr>client_data := out, reception_tracker := ?t\<rparr>"
  have "holds d (got \<union> piece_set ds) ?s"
    using h t v nth bl by (auto simp: holds_def piece_set_def)
  then show ?thesis
    using g out by (auto simp: store_segment_data_def Let_def holds_def)
qed

section \<open>The receiver\<close>

definition wiring :: "engine \<Rightarrow> engine_config \<times> bool \<times> bool \<times> bool \<times> bool" where
  "wiring e = (config e, on_data_arrival e, on_session_complete e, on_session_failure e, on_send_segment e)"

lemma wiring_frame: "same_sessions e e' \<Longrightarrow> wiring e' = wiring e"
  by (simp add: same_sessions_def wiring_def)

lemma wiring_ops [simp]:
  "wiring (put_session k s e) = wiring e" "wiring (erase_session k e) = wiring e"
  "wiring (emit b ev e) = wiring e" "wiring (tally f e) = wiring e"
  by (simp_all add: wiring_def put_session_def erase_session_def emit_def tally_def)

lemma events_ops [simp]:
  "events (put_session k s e) = events e" "events (erase_session k e) = events e"
  "events (emit b ev e) = events e @ (if b then [ev] else [])"
  by (simp_all add: put_session_def erase_session_def emit_def)

definition report_seg :: "session_key \<Rightarrow> u64 \<Rightarrow> u64 \<Rightarrow> u64 \<Rightarrow> ranges \<Rightarrow> ltp_segment" where
  "report_seg k serial cp upper claims = default_segment
     \<lparr>segment_type := REPORT_SEGMENT, seg_engine_id := fst k, seg_session_number := snd k,
      content := Report_Seg \<lparr>rs_report_serial = serial, rs_checkpoint_serial = cp,
        rs_upper_bound = upper, rs_lower_bound = 0, rs_claims = claims\<rparr>\<rparr>"

lemma report_seg_fits: "segment_fits (report_seg k serial cp upper claims)"
  by (simp add: report_seg_def segment_fits_def content_fits_def default_segment_def is_valid_def seg_types)

lemma report_seg_wf: "length claims < 2 ^ 58 \<Longrightarrow> segment_wf (report_seg k serial cp upper claims)"
  by (simp add: report_seg_def segment_wf_def content_wf_cases ALLOC_LIMIT_def default_segment_def is_valid_def seg_types)

lemma tracker_length: "tracker_inv rs \<Longrightarrow> length rs \<le> card (covered rs)"
proof -
  assume inv: "tracker_inv rs"
  have "\<forall>r \<in> set rs. 1 \<le> unat (claim_length r)"
    using tracker_inv_range_ok [OF inv] by (auto simp: range_ok_def Suc_le_eq unat_gt_0)
  then have "length rs \<le> (\<Sum>r\<leftarrow>rs. unat (claim_length r))" by (induction rs) auto
  then show ?thesis using card_covered [OF inv] by simp
qed

text \<open>The engine has a receiver session for the block, or room to open one.\<close>

definition receiving :: "bytes \<Rightarrow> session_key \<Rightarrow> nat set \<Rightarrow> bool \<Rightarrow> engine \<Rightarrow> bool" where
  "receiving d k got ended e \<longleftrightarrow> (\<exists>s. fmlookup (sessions e) k = Some s \<and> session_ok k s
     \<and> holds d got s \<and> total_data_length s = (if ended then of_nat (length d) else 0))"

definition has_room :: "session_key \<Rightarrow> engine \<Rightarrow> bool" where
  "has_room k e \<longleftrightarrow> fmlookup (sessions e) k = None
     \<and> active_session_count e < unat (max_concurrent_sessions (config e))"

definition red_piece :: "bytes \<Rightarrow> session_key \<Rightarrow> ltp_segment \<Rightarrow> bool" where
  "red_piece d k seg \<longleftrightarrow> is_red (segment_type seg) \<and> k = (seg_engine_id seg, seg_session_number seg)
     \<and> (\<exists>ds. content seg = Data_Seg ds \<and> piece d ds
        \<and> (has_eob (segment_type seg) \<longrightarrow> unat (ds_offset ds) + length (ds_data ds) = length d)
        \<and> (has_checkpoint (segment_type seg) \<longrightarrow> ds_checkpoint_serial ds \<noteq> None))"

fun seg_bytes_at :: "ltp_segment \<Rightarrow> nat set" where
  "seg_bytes_at seg = (case content seg of Data_Seg ds \<Rightarrow> piece_set ds | _ \<Rightarrow> {})"

lemma holds_new: "holds d {} (new_receiver seg)"
  by (simp add: holds_def new_receiver_def default_session_def)

lemma new_receiver_ok:
  "session_ok (seg_engine_id seg, seg_session_number seg) (new_receiver seg)"
  "total_data_length (new_receiver seg) = 0"
  by (simp_all add: new_receiver_def default_session_def session_ok_def)

lemma open_new:
  "has_room k e \<Longrightarrow> k = (seg_engine_id seg, seg_session_number seg) \<Longrightarrow> open_receiver e seg
     = Some (new_receiver seg, tally sessions_received_update (put_session k (new_receiver seg) e))"
  by (simp add: has_room_def open_receiver_def emplace_session_def Let_def)

lemma holds_report: "holds d got (s\<lparr>report_serial_counter := n\<rparr>) = holds d got s"
  by (simp add: holds_def)

lemma red_not_green: "is_red t \<Longrightarrow> \<not> is_green t"
  by (auto simp: seg_preds dest: order_trans)

lemma receive_piece:
  assumes r: "has_room k e \<and> got = {} \<and> \<not> ended \<or> receiving d k got ended e"
    and p: "red_piece d k seg" and len: "length d < 2 ^ 59"
  shows "\<exists>e' s. receive_segment e seg = Inr e' \<and> wiring e' = wiring e
    \<and> sessions e' = fmupd k s (sessions e)
    \<and> receiving d k (got \<union> seg_bytes_at seg) (ended \<or> has_eob (segment_type seg)) e'
    \<and> (\<not> has_checkpoint (segment_type seg) \<longrightarrow> events e' = events e)
    \<and> (has_checkpoint (segment_type seg) \<and> on_send_segment e \<longrightarrow> (\<exists>serial cp ds. content seg = Data_Seg ds
        \<and> events e' = events e @ [Sent (segment_bytes (report_seg k serial cp
            (ds_offset ds + ds_length ds) (reception_tracker s)))]))"
proof -
  let ?t = "segment_type seg"
  obtain ds where red: "is_red ?t" and k: "k = (seg_engine_id seg, seg_session_number seg)"
    and ds: "content seg = Data_Seg ds" and pc: "piece d ds"
    and eob: "has_eob ?t \<Longrightarrow> unat (ds_offset ds) + length (ds_data ds) = length d"
    and cp: "has_checkpoint ?t \<Longrightarrow> ds_checkpoint_serial ds \<noteq> None"
    using p by (auto simp: red_piece_def)
  have data: "is_data ?t" using red order_trans [of ?t 3 5] by (simp add: seg_preds)
  obtain s e0 where o: "open_receiver e seg = Some (s, e0)" "session_ok k s" "holds d got s"
    "total_data_length s = (if ended then of_nat (length d) else 0)"
    "wiring e0 = wiring e" "events e0 = events e"
    "sessions e0 = (if fmlookup (sessions e) k = None then fmupd k s (sessions e) else sessions e)"
    using r
  proof
    assume "has_room k e \<and> got = {} \<and> \<not> ended"
    then show ?thesis using open_new [OF _ k, of e] holds_new new_receiver_ok [of seg] k
      by (intro that [of "new_receiver seg" "tally sessions_received_update (put_session k (new_receiver seg) e)"])
        (simp_all add: has_room_def)
  next
    assume "receiving d k got ended e"
    then show ?thesis using that [of _ e] k by (auto simp: receiving_def open_receiver_def)
  qed
  let ?e1 = "tally red_segments_received_update e0"
  have "length d < 2 ^ 62" using len by simp
  from store_piece [OF o(3) pc this, of ?t] obtain s1 where
    s1: "store_segment_data ?t ds s = Inr s1" "holds d (got \<union> piece_set ds) s1"
      "total_data_length s1 = (if has_eob ?t then ds_offset ds + ds_length ds else total_data_length s)"
      "s_engine_id s1 = s_engine_id s" "s_session_number s1 = s_session_number s" by blast
  have tot: "total_data_length s1 = (if ended \<or> has_eob ?t then of_nat (length d) else 0)"
  proof (cases "has_eob ?t")
    case True
    have "ds_offset ds + ds_length ds = of_nat (unat (ds_offset ds) + unat (ds_length ds))" by simp
    also have "unat (ds_offset ds) + unat (ds_length ds) = length d"
      using eob [OF True] pc by (simp add: piece_def)
    finally show ?thesis using True s1(3) by simp
  qed (use s1(3) o(4) in simp)
  have ok1: "session_ok k s1" using o(2) s1(2,4,5) by (simp add: session_ok_def holds_def)
  have act: "state s = ACTIVE" using o(2) by (simp add: session_ok_def)
  have goal: ?thesis if a: "answer_checkpoint ?e1 ?t ds s1 = Inr (e2, s1\<lparr>report_serial_counter := n\<rparr>)"
    "wiring e2 = wiring ?e1" "sessions e2 = sessions ?e1"
    "\<not> has_checkpoint ?t \<longrightarrow> events e2 = events e"
    "has_checkpoint ?t \<and> on_send_segment e \<longrightarrow> (\<exists>serial cp. events e2 = events e
        @ [Sent (segment_bytes (report_seg k serial cp (ds_offset ds + ds_length ds) (reception_tracker s1)))])"
    for e2 n
  proof -
    let ?s2 = "s1\<lparr>report_serial_counter := n\<rparr>"
    have "receive_segment e seg = Inr (put_session k ?s2 e2)"
      using data o(1) act red s1(1) a(1) red_not_green [OF red]
      by (simp add: receive_segment_def receive_data_segment_def ds k Let_def)
    moreover have "receiving d k (got \<union> seg_bytes_at seg) (ended \<or> has_eob ?t) (put_session k ?s2 e2)"
      using s1(2) tot ok1 by (simp add: receiving_def ds holds_report session_ok_def)
    moreover have "sessions (put_session k ?s2 e2) = fmupd k ?s2 (sessions e)"
      using a(3) o(7) by (auto simp: fmupd_idem intro!: fmap_ext)
    ultimately show ?thesis using a(2,4,5) o(5) by (intro exI [of _ "put_session k ?s2 e2"] exI [of _ ?s2]) (auto simp: ds)
  qed
  show ?thesis
  proof (cases "has_checkpoint ?t")
    case False
    show ?thesis
      by (rule goal [of ?e1 "report_serial_counter s1"]) (use False o(6) in \<open>simp_all add: answer_checkpoint_def\<close>)
  next
    case True
    then obtain c where c: "ds_checkpoint_serial ds = Some c" using cp by blast
    let ?n = "report_serial_counter s1 + 1"
    let ?r = "report_seg k ?n c (ds_offset ds + ds_length ds) (reception_tracker s1)"
    from send_segment_ok [OF report_seg_fits, of ?e1 k ?n c "ds_offset ds + ds_length ds" "reception_tracker s1"] obtain e2 where e2: "send_segment ?e1 ?r = Inr e2" "same_sessions ?e1 e2"
      "events e2 = events ?e1 @ (if on_send_segment ?e1 then [Sent (segment_bytes ?r)] else [])" by blast
    have r: "?r = default_segment
           \<lparr>segment_type := REPORT_SEGMENT, seg_engine_id := s_engine_id s1,
            seg_session_number := s_session_number s1, content := Report_Seg
            \<lparr>rs_report_serial = ?n, rs_checkpoint_serial = c, rs_upper_bound = ds_offset ds + ds_length ds,
             rs_lower_bound = 0, rs_claims = reception_tracker s1\<rparr>\<rparr>"
      using ok1 by (simp add: report_seg_def session_ok_def)
    have "on_send_segment ?e1 = on_send_segment e" using o(5) by (simp add: wiring_def tally_def)
    then show ?thesis
      using True c e2 o(6) frame_core [OF e2(2)] wiring_frame [OF e2(2)] e2(1) [unfolded r]
      by (intro goal [of e2 ?n]) (auto simp: answer_checkpoint_def generate_report_def Let_def)
  qed
qed

fun receive_all :: "engine \<Rightarrow> ltp_segment list \<Rightarrow> engine res" where
  "receive_all e [] = Inr e"
| "receive_all e (seg # segs) = rbind (receive_segment e seg) (\<lambda>e. receive_all e segs)"

lemma receive_all_append:
  "receive_all e (xs @ ys) = rbind (receive_all e xs) (\<lambda>e. receive_all e ys)"
proof (induction xs arbitrary: e)
  case (Cons x xs)
  then show ?case by (cases "receive_segment e x") simp_all
qed simp

lemma receiving_pieces:
  assumes "receiving d k got ended e" "list_all (red_piece d k) segs" "length d < 2 ^ 59"
  shows "\<exists>e'. receive_all e segs = Inr e' \<and> wiring e' = wiring e
    \<and> receiving d k (got \<union> (\<Union>s \<in> set segs. seg_bytes_at s))
        (ended \<or> list_ex (\<lambda>s. has_eob (segment_type s)) segs) e'
    \<and> (list_all (\<lambda>s. \<not> has_checkpoint (segment_type s)) segs \<longrightarrow> events e' = events e)"
  using assms(1,2)
proof (induction segs arbitrary: e got ended)
  case (Cons x xs)
  then obtain e1 where x: "receive_segment e x = Inr e1" "wiring e1 = wiring e"
    "receiving d k (got \<union> seg_bytes_at x) (ended \<or> has_eob (segment_type x)) e1"
    "\<not> has_checkpoint (segment_type x) \<longrightarrow> events e1 = events e"
    using receive_piece [of k e got ended d x] assms(3) by auto
  from Cons.IH [OF x(3)] Cons.prems(2) obtain e2 where "receive_all e1 xs = Inr e2" "wiring e2 = wiring e1"
    "receiving d k (got \<union> seg_bytes_at x \<union> (\<Union>s \<in> set xs. seg_bytes_at s))
        ((ended \<or> has_eob (segment_type x)) \<or> list_ex (\<lambda>s. has_eob (segment_type s)) xs) e2"
    "list_all (\<lambda>s. \<not> has_checkpoint (segment_type s)) xs \<longrightarrow> events e2 = events e1"
    by auto
  with x show ?case by (auto simp: Un_assoc)
qed simp

lemma receive_pieces:
  assumes "has_room k e" "list_all (red_piece d k) segs" "segs \<noteq> []" "length d < 2 ^ 59"
  shows "\<exists>e'. receive_all e segs = Inr e' \<and> wiring e' = wiring e
    \<and> receiving d k (\<Union>s \<in> set segs. seg_bytes_at s)
        (list_ex (\<lambda>s. has_eob (segment_type s)) segs) e'
    \<and> (list_all (\<lambda>s. \<not> has_checkpoint (segment_type s)) segs \<longrightarrow> events e' = events e)"
proof -
  obtain x xs where xs: "segs = x # xs" using assms(3) by (cases segs) auto
  then obtain e1 where x: "receive_segment e x = Inr e1" "wiring e1 = wiring e"
    "receiving d k (seg_bytes_at x) (has_eob (segment_type x)) e1"
    "\<not> has_checkpoint (segment_type x) \<longrightarrow> events e1 = events e"
    using receive_piece [of k e "{}" False d x] assms by auto
  from receiving_pieces [OF x(3), of xs] assms xs obtain e2 where "receive_all e1 xs = Inr e2"
    "wiring e2 = wiring e1"
    "receiving d k (seg_bytes_at x \<union> (\<Union>s \<in> set xs. seg_bytes_at s))
        (has_eob (segment_type x) \<or> list_ex (\<lambda>s. has_eob (segment_type s)) xs) e2"
    "list_all (\<lambda>s. \<not> has_checkpoint (segment_type s)) xs \<longrightarrow> events e2 = events e1"
    by auto
  with x show ?thesis unfolding xs by auto
qed

section \<open>Delivery on a report acknowledgment\<close>

definition ack_seg :: "session_key \<Rightarrow> u64 \<Rightarrow> ltp_segment" where
  "ack_seg k serial = default_segment
     \<lparr>segment_type := REPORT_ACK, seg_engine_id := fst k, seg_session_number := snd k,
      content := Rpt_Ack \<lparr>ra_report_serial = serial\<rparr>\<rparr>"

lemma ack_seg_wf: "segment_wf (ack_seg k serial)"
  by (simp add: ack_seg_def segment_wf_def content_wf_cases content_fits_def default_segment_def is_valid_def seg_types)

lemma holds_all:
  assumes "holds d {0 ..< length d} s"
  shows "client_data s = d"
proof -
  have "length d \<le> length (client_data s)"
    using assms by (cases "length d") (auto simp: holds_def)
  then show ?thesis using assms by (intro nth_equalityI) (auto simp: holds_def)
qed

lemma holds_complete:
  assumes h: "holds d got s" and t: "total_data_length s = (if ended then of_nat (length d) else 0)"
    and len: "length d < 2 ^ 59"
  shows "is_complete (reception_tracker s) (total_data_length s) \<longleftrightarrow> \<not> ended \<or> got = {0 ..< length d}"
proof -
  have inv: "tracker_inv (reception_tracker s)" and c: "covered (reception_tracker s) = got"
    and sub: "got \<subseteq> {0 ..< length d}"
    using h by (auto simp: holds_def)
  have u: "unat (of_nat (length d) :: u64) = length d" using len by (simp add: unat_of_nat take_bit_nat_eq_self)
  have "got = {0 ..< length d}" if "length d \<le> m" "got = {0 ..< m}" for m
  proof -
    have "m \<le> length d" using sub that by (cases m) auto
    with that show ?thesis by simp
  qed
  then have eq: "(\<exists>m \<ge> length d. got = {0 ..< m}) \<longleftrightarrow> got = {0 ..< length d}" by blast
  show ?thesis
  proof (cases ended)
    case True
    have "of_nat (length d) = (0 :: u64) \<longleftrightarrow> length d = 0" by (simp only: word_unat_eq_iff u) simp
    moreover have "got = {0 ..< length d}" if "length d = 0" using sub that by simp
    ultimately show ?thesis
      using is_complete_iff [OF inv, of "of_nat (length d)"] True eq by (simp only: t u c if_True) blast
  next
    case False
    then show ?thesis by (simp add: t is_complete_def)
  qed
qed

lemma receive_ack:
  assumes r: "receiving d k got ended e" and len: "length d < 2 ^ 59"
  shows "\<exists>e'. receive_segment e (ack_seg k serial) = Inr e' \<and> wiring e' = wiring e
    \<and> (if \<not> ended \<or> got = {0 ..< length d}
       then fmlookup (sessions e') k = None \<and> events e' = events e
          @ (if on_data_arrival e then [Arrived (if ended then d else [])] else [])
       else sessions e' = sessions e \<and> events e' = events e)"
proof -
  obtain s where s: "fmlookup (sessions e) k = Some s" "session_ok k s" "holds d got s"
    "total_data_length s = (if ended then of_nat (length d) else 0)"
    using r by (auto simp: receiving_def)
  have role: "role s = RECEIVER" using s(3) by (simp add: holds_def)
  let ?e1 = "disarm_report (timer_key (snd k) serial) (tally report_acks_received_update e)"
  have f: "same_sessions e ?e1" using frame_trans [OF frame_tally(9) frame_disarm(2)] .
  have ev: "events ?e1 = events e" by (simp add: disarm_report_def tally_def split: option.split)
  have step: "receive_segment e (ack_seg k serial)
    = (if is_complete (reception_tracker s) (total_data_length s)
       then complete_receiver ?e1 k s else Inr ?e1)"
    using s(1) role
    by (simp add: receive_segment_def ack_seg_def default_segment_def seg_types is_data_def
        receive_report_ack_def Let_def)
  show ?thesis
  proof (cases "\<not> ended \<or> got = {0 ..< length d}")
    case True
    then have c: "is_complete (reception_tracker s) (total_data_length s)"
      using holds_complete [OF s(3,4) len] by blast
    have rr: "read_range (client_data s) 0 (total_data_length s) = Inr (if ended then d else [])"
      using True s(3,4) holds_all len
      by (auto simp: read_range_def unat_of_nat take_bit_nat_eq_self)
    have "complete_receiver ?e1 k s = Inr (erase_session k (emit (on_data_arrival e)
        (Arrived (if ended then d else []))
        (tally sessions_completed_update (put_session k (s\<lparr>state := COMPLETED\<rparr>) ?e1))))"
      using f rr by (simp add: complete_receiver_def deliver_data_def Let_def same_sessions_def emit_def
          put_session_def tally_def)
    then show ?thesis using True c step ev wiring_frame [OF f] by simp
  next
    case False
    then have "\<not> is_complete (reception_tracker s) (total_data_length s)"
      using holds_complete [OF s(3,4) len] by blast
    then show ?thesis using False step ev frame_core [OF f] wiring_frame [OF f] by simp
  qed
qed

section \<open>The originator\<close>

definition originator :: "session_key \<Rightarrow> bytes \<Rightarrow> bool \<Rightarrow> ltp_session" where
  "originator k d reliable = default_session
     \<lparr>s_engine_id := fst k, s_session_number := snd k, role := ORIGINATOR, state := ACTIVE,
      total_data_length := of_nat (length d), is_red_session := reliable, client_data := d\<rparr>"

lemma originator_simps [simp]:
  "client_data (originator k d r) = d" "is_red_session (originator k d r) = r"
  "s_engine_id (originator k d r) = fst k" "s_session_number (originator k d r) = snd k"
  "role (originator k d r) = ORIGINATOR" "state (originator k d r) = ACTIVE"
  "total_data_length (originator k d r) = of_nat (length d)"
  "checkpoint_serial_counter (originator k d r) = 0" "retransmission_count (originator k d r) = 0"
  by (simp_all add: originator_def default_session_def)

definition block_segs :: "u32 \<Rightarrow> session_key \<Rightarrow> bytes \<Rightarrow> bool \<Rightarrow> ltp_segment list" where
  "block_segs m k d reliable = chunk_segs (originator k d reliable) 0 (block_chunks m d)"

lemma block_chunks_nonempty: "m \<noteq> 0 \<Longrightarrow> block_chunks m d \<noteq> []"
  using chunks_nonempty [of "unat m" d 0] by (auto simp: block_chunks_def unat_eq_0)

lemma block_chunk_mem:
  assumes "(o', c) \<in> set (block_chunks m d)"
  shows "o' + length c \<le> length d" "c = take (length c) (drop o' d)"
proof -
  show "o' + length c \<le> length d"
    using assms chunks_mem [of o' c "unat m" 0 d] by (auto simp: block_chunks_def split: if_splits)
  show "c = take (length c) (drop o' d)"
  proof (cases "d = []")
    case False
    then have "c = take (unat m) (drop o' d)"
      using assms chunks_mem [of o' c "unat m" 0 d] by (auto simp: block_chunks_def)
    then show ?thesis by (metis append_take_drop_id append_eq_conv_conj)
  qed (use assms in \<open>simp add: block_chunks_def\<close>)
qed

lemma block_chunk_last:
  assumes "m \<noteq> 0"
  shows "fst (last (block_chunks m d)) + length (snd (last (block_chunks m d))) = length d"
proof (cases "d = []")
  case False
  let ?cs = "chunks (unat m) 0 d"
  have m: "unat m \<noteq> 0" using assms by (simp add: unat_eq_0)
  have ne: "?cs \<noteq> []" using chunks_nonempty [OF m False] .
  let ?i = "length ?cs - 1"
  have "fst (?cs ! ?i) = length (concat (map snd (take ?i ?cs)))"
    using chunks_offsets [of ?i "unat m" 0 d] ne by simp
  moreover have cs: "take ?i ?cs @ [?cs ! ?i] = ?cs"
    using ne by (metis append_butlast_last_id butlast_conv_take last_conv_nth)
  have "concat (map snd (take ?i ?cs @ [?cs ! ?i])) = d"
    unfolding cs using chunks_concat [OF m] .
  then have "length d = length (concat (map snd (take ?i ?cs)) @ snd (?cs ! ?i))" by simp
  ultimately show ?thesis using False ne by (simp add: block_chunks_def last_conv_nth)
qed (simp add: block_chunks_def)

lemma block_chunks_cover:
  "m \<noteq> 0 \<Longrightarrow> (\<Union>(o', c) \<in> set (block_chunks m d). {o' ..< o' + length c}) = {0 ..< length d}"
  using chunks_cover [of "unat m" 0 d] by (simp add: block_chunks_def unat_eq_0)

lemma of_nat_unat_small: "n < 2 ^ 59 \<Longrightarrow> unat (of_nat n :: u64) = n"
  by (simp add: unat_of_nat take_bit_nat_eq_self)

lemma chunk_type_props:
  "is_valid (chunk_type r l)" "is_data (chunk_type r l)" "has_checkpoint (chunk_type r l) \<longleftrightarrow> r \<and> l"
  "is_red (chunk_type r l) \<longleftrightarrow> r" "has_eob (chunk_type r l) \<longleftrightarrow> l"
  by (simp_all add: chunk_type_def is_valid_def seg_types seg_preds)

lemma data_segment_wf:
  assumes "unat (ds_length ds) = length (ds_data ds)" "is_data t" "is_valid t"
    "ds_checkpoint_serial ds \<noteq> None \<longleftrightarrow> has_checkpoint t" "ds_report_serial ds \<noteq> None \<longleftrightarrow> has_checkpoint t"
  shows "segment_wf (data_segment s t ds)"
  using assms by (auto simp: data_segment_def segment_wf_def content_wf_cases content_fits_def default_segment_def)

lemma chunk_seg_wf:
  assumes "unat (of_nat (length (snd p)) :: u64) = length (snd p)"
  shows "segment_wf (chunk_seg s cp l p)"
  unfolding chunk_seg_def
  by (rule data_segment_wf) (simp_all add: chunk_type_props assms)

lemma block_segs_mem:
  assumes "seg \<in> set (block_segs m k d r)" "m \<noteq> 0"
  shows "\<exists>p l. seg = chunk_seg (originator k d r) 0 l p \<and> p \<in> set (block_chunks m d)
    \<and> (l \<longrightarrow> p = last (block_chunks m d))"
proof -
  have "last (block_chunks m d) \<in> set (block_chunks m d)" using block_chunks_nonempty assms(2) by simp
  moreover have "seg = chunk_seg (originator k d r) 0 True (last (block_chunks m d))
      \<or> (\<exists>p \<in> set (butlast (block_chunks m d)). seg = chunk_seg (originator k d r) 0 False p)"
    using assms(1) by (auto simp: block_segs_def chunk_segs_def)
  ultimately show ?thesis using in_set_butlastD by metis
qed

lemma block_segs_wf:
  assumes "m \<noteq> 0" "length d < 2 ^ 59"
  shows "list_all segment_wf (block_segs m k d r)"
  unfolding list_all_iff
proof
  fix seg assume "seg \<in> set (block_segs m k d r)"
  from block_segs_mem [OF this assms(1)] obtain o' c l where
    "seg = chunk_seg (originator k d r) 0 l (o', c)" "(o', c) \<in> set (block_chunks m d)" by auto
  then show "segment_wf seg"
    using block_chunk_mem(1) [of o' c m d] assms(2) of_nat_unat_small [of "length c"]
    by (simp add: chunk_seg_wf)
qed

lemma block_segs_pieces:
  assumes "m \<noteq> 0" "length d < 2 ^ 59"
  shows "list_all (red_piece d k) (block_segs m k d True)"
  unfolding list_all_iff
proof
  fix seg assume "seg \<in> set (block_segs m k d True)"
  from block_segs_mem [OF this assms(1)] obtain o' c l where
    seg: "seg = chunk_seg (originator k d True) 0 l (o', c)" and m: "(o', c) \<in> set (block_chunks m d)"
    and l: "l \<longrightarrow> (o', c) = last (block_chunks m d)" by auto
  note b = block_chunk_mem [OF m]
  have u: "unat (of_nat o' :: u64) = o'" "unat (of_nat (length c) :: u64) = length c"
    using b(1) assms(2) of_nat_unat_small by auto
  have e: "l \<longrightarrow> o' + length c = length d" using l block_chunk_last [OF assms(1), of d] by (metis fst_conv snd_conv)
  show "red_piece d k seg"
    using b u e unfolding seg
    by (simp add: red_piece_def chunk_seg_def chunk_type_props data_segment_def
        default_segment_def piece_def)
qed

lemma block_segs_shape:
  assumes "m \<noteq> 0" "length d < 2 ^ 59"
  shows "\<exists>xs l. block_segs m k d True = xs @ [l] \<and> has_checkpoint (segment_type l) \<and> has_eob (segment_type l)
    \<and> list_all (\<lambda>s. \<not> has_checkpoint (segment_type s)) xs
    \<and> (\<Union>s \<in> set (xs @ [l]). seg_bytes_at s) = {0 ..< length d}
    \<and> (\<exists>ds. content l = Data_Seg ds \<and> ds_checkpoint_serial ds = Some 1 \<and> ds_offset ds + ds_length ds = of_nat (length d))"
proof -
  let ?s = "originator k d True" and ?b = "block_chunks m d"
  let ?xs = "map (chunk_seg ?s 0 False) (butlast ?b)" and ?l = "chunk_seg ?s 0 True (last ?b)"
  have sb: "seg_bytes_at (chunk_seg ?s 0 l (o', c)) = {o' ..< o' + length c}" if "(o', c) \<in> set ?b" for l o' c
    using that block_chunk_mem(1) [OF that] assms(2) of_nat_unat_small [of o']
    by (simp add: chunk_seg_def data_segment_def piece_set_def)
  have ne: "?b \<noteq> []" using block_chunks_nonempty assms(1) .
  have bl: "butlast ?b @ [last ?b] = ?b" using ne by simp
  have "(\<Union>s \<in> set (?xs @ [?l]). seg_bytes_at s) = (\<Union>p \<in> set (butlast ?b @ [last ?b]). {fst p ..< fst p + length (snd p)})"
  proof -
    have "seg_bytes_at (chunk_seg ?s 0 l p) = {fst p ..< fst p + length (snd p)}" if "p \<in> set ?b" for l p
      using sb [of "fst p" "snd p" l] that by (simp del: seg_bytes_at.simps)
    moreover have "set (butlast ?b) \<subseteq> set ?b" "last ?b \<in> set ?b" using ne by (auto dest: in_set_butlastD)
    ultimately show ?thesis by (simp del: seg_bytes_at.simps) blast
  qed
  also have "\<dots> = {0 ..< length d}"
    unfolding bl using block_chunks_cover [OF assms(1), of d] by (simp add: case_prod_unfold)
  finally have u: "(\<Union>s \<in> set (?xs @ [?l]). seg_bytes_at s) = {0 ..< length d}" .
  have "of_nat (fst (last ?b)) + of_nat (length (snd (last ?b))) = (of_nat (length d) :: u64)"
    using block_chunk_last [OF assms(1), of d] by (metis of_nat_add)
  then have c: "\<exists>ds. content ?l = Data_Seg ds \<and> ds_checkpoint_serial ds = Some 1 \<and> ds_offset ds + ds_length ds = of_nat (length d)"
    by (simp add: chunk_seg_def data_segment_def)
  have t: "has_checkpoint (segment_type ?l)" "has_eob (segment_type ?l)"
    "list_all (\<lambda>s. \<not> has_checkpoint (segment_type s)) ?xs"
    by (simp_all add: chunk_seg_def data_segment_def chunk_type_props list_all_iff)
  have "block_segs m k d True = ?xs @ [?l]" by (simp add: block_segs_def chunk_segs_def)
  with u c t show ?thesis by blast
qed

text \<open>An originator session after its segments were sent.\<close>

definition originating :: "bytes \<Rightarrow> session_key \<Rightarrow> u8 \<Rightarrow> engine \<Rightarrow> bool" where
  "originating d k c e \<longleftrightarrow> fst k = local_engine_id (config e)
     \<and> (\<exists>n. fmlookup (sessions e) k = Some ((originator k d True)
          \<lparr>checkpoint_serial_counter := n, retransmission_count := c\<rparr>))"

lemma start_sends:
  assumes room: "active_session_count e < unat (max_concurrent_sessions (config e))"
    and fresh: "fmlookup (sessions e) k = None" and k: "k = (local_engine_id (config e), session_counter e + 1)"
    and m: "max_segment_size (config e) \<noteq> 0" and len: "length d < 2 ^ 59"
  shows "\<exists>e'. start_session e d True = Inr (snd k, e') \<and> wiring e' = wiring e \<and> originating d k 0 e'
    \<and> events e' = events e @ (if on_send_segment e
        then map (\<lambda>s. Sent (segment_bytes s)) (block_segs (max_segment_size (config e)) k d True) else [])"
proof -
  let ?s = "originator k d True" and ?m = "max_segment_size (config e)"
  let ?e1 = "tally sessions_originated_update (put_session k ?s (e\<lparr>session_counter := session_counter e + 1\<rparr>))"
  let ?s' = "?s\<lparr>checkpoint_serial_counter := 1\<rparr>" and ?segs = "block_segs ?m k d True"
  have sd: "segment_data ?e1 ?s = Inr (?segs, ?s')"
    using m by (simp add: segment_data_def segment_data_impl_eq block_segs_def)
  have sd': "segment_data ?e1 (originator (local_engine_id (config e), session_counter e + 1) d True) = Inr (?segs, ?s')"
    using sd by (simp only: k [symmetric])
  obtain e2 where e2: "send_all (put_session k ?s' ?e1) ?segs = Inr e2" "same_sessions (put_session k ?s' ?e1) e2"
    "events e2 = events (put_session k ?s' ?e1) @ (if on_send_segment (put_session k ?s' ?e1)
      then map (\<lambda>s. Sent (segment_bytes s)) ?segs else [])"
    using send_all_ok [OF block_segs_wf [OF m len]] by blast
  have "start_session e d True = Inr (snd k, e2)"
    using room fresh sd e2(1) unfolding k
    by (simp add: start_session_def Let_def emplace_session_def originator_def)
  moreover have "wiring e2 = wiring e" using wiring_frame [OF e2(2)] by (simp add: wiring_def put_session_def tally_def)
  moreover have "on_send_segment (put_session k ?s' ?e1) = on_send_segment e" "events (put_session k ?s' ?e1) = events e"
    by (simp_all add: put_session_def tally_def)
  moreover have "?s' = ?s\<lparr>checkpoint_serial_counter := 1, retransmission_count := 0\<rparr>"
    by (simp add: originator_def default_session_def)
  then have "\<exists>n. fmlookup (sessions e2) k
      = Some (?s\<lparr>checkpoint_serial_counter := n, retransmission_count := 0\<rparr>)"
    using frame_core [OF e2(2)] by (intro exI [of _ 1]) simp
  then have "originating d k 0 e2"
    using frame_core [OF e2(2)] unfolding originating_def by (simp add: k)
  ultimately show ?thesis using e2(3) by auto
qed

text \<open>The originator answers a report with an acknowledgment under the identifiers of the
  report and, when the claims cover the block, closes the session.\<close>

definition full_claims :: "bytes \<Rightarrow> ranges" where
  "full_claims d = (if d = [] then [] else [\<lparr>claim_offset = 0, claim_length = of_nat (length d)\<rparr>])"

lemma receive_full_report:
  assumes o: "originating d k c e" and len: "length d < 2 ^ 59"
  shows "\<exists>e'. receive_segment e (report_seg k serial cp upper (full_claims d)) = Inr e'
    \<and> wiring e' = wiring e \<and> fmlookup (sessions e') k = None
    \<and> events e' = events e
       @ (if on_send_segment e then [Sent (segment_bytes (ack_seg k serial))] else [])
       @ (if on_session_complete e then [Session_Complete (snd k)] else [])"
proof -
  let ?seg = "report_seg k serial cp upper (full_claims d)"
  let ?e0 = "tally reports_received_update e"
  obtain n where s: "fmlookup (sessions e) k = Some ((originator k d True)
      \<lparr>checkpoint_serial_counter := n, retransmission_count := c\<rparr>)"
    and k: "k = (local_engine_id (config e), snd k)" using o unfolding originating_def
    by (metis prod.collapse)
  let ?s = "(originator k d True)\<lparr>checkpoint_serial_counter := n, retransmission_count := c\<rparr>"
  have lk: "fmlookup (sessions e) (local_engine_id (config e), snd k) = Some ?s" using s k by simp
  from send_segment_ok [OF segment_wf_fits [OF ack_seg_wf], of ?e0 k serial] obtain e1 where
    e1: "send_segment ?e0 (ack_seg k serial) = Inr e1" "same_sessions ?e0 e1"
      "events e1 = events ?e0 @ (if on_send_segment ?e0 then [Sent (segment_bytes (ack_seg k serial))] else [])"
    by blast
  let ?e2 = "disarm_checkpoint (timer_key (snd k) cp) e1"
  have f: "same_sessions e ?e2" using frame_trans [OF frame_tally(6) frame_trans [OF e1(2) frame_disarm(1)]] .
  have full: "fully_reported ?s \<lparr>rs_report_serial = serial, rs_checkpoint_serial = cp,
      rs_upper_bound = upper, rs_lower_bound = 0, rs_claims = full_claims d\<rparr>"
    using len of_nat_unat_small [OF len] by (simp add: fully_reported_def full_claims_def)
  have ack: "send_report_ack ?e0 (fst k) (snd k) serial = Inr e1"
    using e1(1) by (simp add: send_report_ack_def ack_seg_def)
  define e' where "e' = erase_session k (emit (on_session_complete ?e2) (Session_Complete (snd k))
    (tally sessions_completed_update (put_session k (?s\<lparr>state := COMPLETED\<rparr>) ?e2)))"
  have "receive_segment e ?seg = Inr e'"
    using lk ack full k
    by (simp add: receive_segment_def report_seg_def default_segment_def seg_types is_data_def
        receive_report_segment_def Let_def e'_def)
      (simp add: put_session_def tally_def)
  moreover have "wiring e' = wiring e" using wiring_frame [OF f] by (simp add: e'_def)
  moreover have "fmlookup (sessions e') k = None" by (simp add: e'_def)
  moreover have "events ?e2 = events e1" by (simp add: disarm_checkpoint_def split: option.split)
  moreover have "on_session_complete ?e2 = on_session_complete e" "on_send_segment ?e0 = on_send_segment e"
    using f by (simp_all add: same_sessions_def tally_def)
  ultimately show ?thesis using e1(3) by (auto simp: e'_def)
qed

text \<open>What the receiver claims once it holds the whole block.\<close>

lemma full_claims_inv: "length d < 2 ^ 59 \<Longrightarrow> tracker_inv (full_claims d)"
proof -
  assume len: "length d < 2 ^ 59"
  have u: "unat (of_nat (length d) :: u64) = length d" using of_nat_unat_small [OF len] .
  then have "d \<noteq> [] \<Longrightarrow> (of_nat (length d) :: u64) \<noteq> 0" by (metis length_0_conv unat_0)
  then show ?thesis using len u by (simp add: full_claims_def range_ok_def)
qed

lemma covered_full_claims: "length d < 2 ^ 59 \<Longrightarrow> covered (full_claims d) = {0 ..< length d}"
  using of_nat_unat_small [of "length d"] by (simp add: full_claims_def claim_set_def)

text \<open>A report with gaps: the missing bytes are sent again, the last piece as a checkpoint.\<close>

lemma gap_fits:
  assumes inv: "tracker_inv rs" and g: "g \<in> set (get_gaps rs 0 up)" and up: "unat up = length d"
  shows "unat (claim_offset g) + unat (claim_length g) \<le> length d"
proof -
  have "claim_set g \<subseteq> covered (get_gaps rs 0 up)" using g by (auto simp: covered_def)
  then have sub: "claim_set g \<subseteq> {0 ..< length d}" using covered_gaps [OF inv, of 0 up] up by auto
  have "range_ok g" using tracker_inv_range_ok [OF tracker_inv_gaps [OF inv] g] .
  then have "unat (claim_length g) \<noteq> 0" by (simp add: range_ok_def unat_eq_0)
  then have "unat (claim_offset g) + unat (claim_length g) - 1 \<in> claim_set g" by (simp add: claim_set_def)
  then show ?thesis using sub by auto
qed

lemma gap_piece_mem:
  assumes inv: "tracker_inv rs" and p: "(o', c) \<in> set (gap_chunks m d (get_gaps rs 0 up))"
    and up: "unat up = length d"
  shows "o' + length c \<le> length d" "c = take (length c) (drop o' d)"
proof -
  from p obtain g where g: "g \<in> set (get_gaps rs 0 up)"
    and oc: "(o', c) \<in> set (chunks (unat m) (unat (claim_offset g)) (slice d g))"
    by (auto simp: gap_chunks_def)
  have fit: "unat (claim_offset g) + unat (claim_length g) \<le> length d" using gap_fits [OF inv g up] .
  then have sl: "length (slice d g) = unat (claim_length g)" by (simp add: slice_def)
  note mem = chunks_mem [OF oc]
  show "o' + length c \<le> length d" using mem fit sl by linarith
  let ?j = "o' - unat (claim_offset g)"
  have "c = take (unat m) (drop ?j (slice d g))" using mem by blast
  also have "drop ?j (slice d g) = take (unat (claim_length g) - ?j) (drop o' d)"
    using mem by (simp add: slice_def drop_take)
  finally show "c = take (length c) (drop o' d)" by (metis append_take_drop_id append_eq_conv_conj take_take)
qed

lemma gap_chunks_cover:
  assumes inv: "tracker_inv rs" and m: "m \<noteq> 0" and up: "unat up = length d"
  shows "(\<Union>(o', c) \<in> set (gap_chunks m d (get_gaps rs 0 up)). {o' ..< o' + length c})
    = {0 ..< length d} - covered rs"
proof -
  have "(\<Union>(o', c) \<in> set (chunks (unat m) (unat (claim_offset g)) (slice d g)). {o' ..< o' + length c})
      = claim_set g" if g: "g \<in> set (get_gaps rs 0 up)" for g
    using chunks_cover [of "unat m" "unat (claim_offset g)" "slice d g"] m gap_fits [OF inv g up]
    by (simp add: claim_set_def slice_def unat_eq_0)
  then have "(\<Union>(o', c) \<in> set (gap_chunks m d (get_gaps rs 0 up)). {o' ..< o' + length c})
      = (\<Union>g \<in> set (get_gaps rs 0 up). claim_set g)"
    by (simp add: gap_chunks_def)
  also have "\<dots> = {0 ..< length d} - covered rs"
    using covered_gaps [OF inv, of 0 up] up by (simp add: covered_def)
  finally show ?thesis .
qed

definition marked :: "u64 \<Rightarrow> ltp_segment \<Rightarrow> ltp_segment" where
  "marked n seg = (case content seg of Data_Seg ds \<Rightarrow> seg\<lparr>segment_type := RED_DATA_CP,
     content := Data_Seg (ds\<lparr>ds_checkpoint_serial := Some n, ds_report_serial := Some 0\<rparr>)\<rparr> | _ \<Rightarrow> seg)"

definition resent :: "u64 \<Rightarrow> ltp_session \<Rightarrow> (nat \<times> bytes) list \<Rightarrow> ltp_segment list" where
  "resent n s ps = map (gap_seg s) (butlast ps) @ [marked n (gap_seg s (last ps))]"

lemma gap_seg_counters [simp]:
  "gap_seg (s\<lparr>checkpoint_serial_counter := n\<rparr>) = gap_seg s" "gap_seg (s\<lparr>retransmission_count := c\<rparr>) = gap_seg s"
  by (rule ext, simp add: gap_seg_def data_segment_def)+

lemma data_segment_length:
  "length (segment_bytes (data_segment s t ds)) \<le> 100 + length (ds_data ds)"
proof -
  have l: "length (sdnv_bytes v) \<le> 10" for v using length_sdnv_bytes [of v] by (simp add: MAX_BYTES_def)
  show ?thesis
    using l [of "client_service_id ds"] l [of "ds_offset ds"] l [of "ds_length ds"]
      l [of "s_engine_id s"] l [of "s_session_number s"]
      l [of "case ds_checkpoint_serial ds of None \<Rightarrow> 0 | Some s \<Rightarrow> s"]
      l [of "case ds_report_serial ds of None \<Rightarrow> 0 | Some s \<Rightarrow> s"]
    by (simp add: segment_bytes_def data_segment_def default_segment_def content_bytes_def)
qed

lemma gap_seg_piece:
  assumes "o' + length c \<le> length d" "c = take (length c) (drop o' d)" "length d < 2 ^ 59"
    and k: "k = (s_engine_id s, s_session_number s)"
  shows "red_piece d k (gap_seg s (o', c))" "red_piece d k (marked n (gap_seg s (o', c)))"
    "segment_wf (gap_seg s (o', c))" "segment_wf (marked n (gap_seg s (o', c)))"
    "seg_bytes_at (gap_seg s (o', c)) = {o' ..< o' + length c}"
    "seg_bytes_at (marked n (gap_seg s (o', c))) = {o' ..< o' + length c}"
proof -
  let ?ds = "\<lparr>client_service_id = 1, ds_offset = of_nat o', ds_length = of_nat (length c),
      ds_checkpoint_serial = None, ds_report_serial = None, ds_data = c\<rparr>"
  have u: "unat (of_nat o' :: u64) = o'" "unat (of_nat (length c) :: u64) = length c"
    using assms(1,3) of_nat_unat_small by auto
  have p: "piece d ?ds" "piece d (?ds\<lparr>ds_checkpoint_serial := Some n, ds_report_serial := Some 0\<rparr>)"
    using assms(1,2) by (simp_all add: piece_def u)
  have g: "gap_seg s (o', c) = data_segment s RED_DATA ?ds"
    "marked n (gap_seg s (o', c)) = data_segment s RED_DATA_CP
       (?ds\<lparr>ds_checkpoint_serial := Some n, ds_report_serial := Some 0\<rparr>)"
    by (simp_all add: gap_seg_def marked_def data_segment_def)
  have red: "red_piece d k (data_segment s t ds)"
    if "piece d ds" "t = RED_DATA \<or> t = RED_DATA_CP \<and> ds_checkpoint_serial ds \<noteq> None" for t ds
    using that k by (auto simp: red_piece_def data_segment_def default_segment_def seg_types seg_preds)
  have wf: "segment_wf (data_segment s RED_DATA ?ds)" "segment_wf (data_segment s RED_DATA_CP
       (?ds\<lparr>ds_checkpoint_serial := Some n, ds_report_serial := Some 0\<rparr>))"
    by (rule data_segment_wf; simp add: u is_valid_def seg_types seg_preds)+
  have at: "seg_bytes_at (data_segment s t ds) = piece_set ds" for t ds by (simp add: data_segment_def)
  show "red_piece d k (gap_seg s (o', c))" "segment_wf (gap_seg s (o', c))"
    "seg_bytes_at (gap_seg s (o', c)) = {o' ..< o' + length c}"
    using red [OF p(1)] wf(1) at unfolding g(1) by (simp_all add: piece_set_def u)
  show "red_piece d k (marked n (gap_seg s (o', c)))" "segment_wf (marked n (gap_seg s (o', c)))"
    "seg_bytes_at (marked n (gap_seg s (o', c))) = {o' ..< o' + length c}"
    using red [OF p(2)] wf(2) at unfolding g(2) by (simp_all add: piece_set_def u)
qed

lemma resent_props:
  assumes ps: "\<And>o' c. (o', c) \<in> set ps \<Longrightarrow> o' + length c \<le> length d \<and> c = take (length c) (drop o' d)"
    and ne: "ps \<noteq> []" and len: "length d < 2 ^ 59" and k: "k = (s_engine_id s, s_session_number s)"
  shows "list_all (red_piece d k) (resent n s ps)" "list_all segment_wf (resent n s ps)"
    "(\<Union>x \<in> set (resent n s ps). seg_bytes_at x) = (\<Union>(o', c) \<in> set ps. {o' ..< o' + length c})"
    "list_all (\<lambda>x. \<not> has_eob (segment_type x)) (resent n s ps)"
    "list_all (\<lambda>x. \<not> has_checkpoint (segment_type x)) (butlast (resent n s ps))"
    "has_checkpoint (segment_type (last (resent n s ps)))"
proof -
  have g: "red_piece d k (gap_seg s p)" "red_piece d k (marked n (gap_seg s p))"
    "segment_wf (gap_seg s p)" "segment_wf (marked n (gap_seg s p))"
    "seg_bytes_at (gap_seg s p) = {fst p ..< fst p + length (snd p)}"
    "seg_bytes_at (marked n (gap_seg s p)) = {fst p ..< fst p + length (snd p)}" if "p \<in> set ps" for p
    using gap_seg_piece [OF _ _ len k, of "fst p" "snd p"] ps [of "fst p" "snd p"] that by simp_all
  have m: "last ps \<in> set ps" "set (butlast ps) \<subseteq> set ps" using ne by (auto dest: in_set_butlastD)
  show "list_all (red_piece d k) (resent n s ps)" "list_all segment_wf (resent n s ps)"
    using m g(1-4) by (auto simp: resent_def list_all_iff)
  have "(\<Union>x \<in> set (resent n s ps). seg_bytes_at x)
      = (\<Union>p \<in> set (butlast ps @ [last ps]). {fst p ..< fst p + length (snd p)})"
    using g(5,6) m by (simp add: resent_def del: seg_bytes_at.simps) blast
  then show "(\<Union>x \<in> set (resent n s ps). seg_bytes_at x) = (\<Union>(o', c) \<in> set ps. {o' ..< o' + length c})"
    using ne by (simp only: append_butlast_last_id [OF ne] case_prod_unfold)
  show "list_all (\<lambda>x. \<not> has_eob (segment_type x)) (resent n s ps)"
    "list_all (\<lambda>x. \<not> has_checkpoint (segment_type x)) (butlast (resent n s ps))"
    "has_checkpoint (segment_type (last (resent n s ps)))"
    by (simp_all add: resent_def list_all_iff gap_seg_def marked_def data_segment_def seg_types seg_preds)
qed

lemma collect_gaps_resent:
  assumes inv: "tracker_inv rs" and m: "m \<noteq> 0" and len: "length (client_data s) < 2 ^ 59"
  shows "collect_gaps s m (get_gaps rs 0 (of_nat (length (client_data s)))) []
    = Inr (map (gap_seg s) (gap_chunks m (client_data s) (get_gaps rs 0 (of_nat (length (client_data s))))))"
  using collect_gaps_eq [of m s "get_gaps rs 0 (of_nat (length (client_data s)))" "[]"]
    gap_fits [OF inv _ of_nat_unat_small [OF len]] m len by (simp add: unat_eq_0)

lemma partial_report:
  assumes len: "length d < 2 ^ 59" and got: "\<not> {0 ..< length d} \<subseteq> covered (rs_claims rs)"
    and t: "total_data_length s = of_nat (length d)"
  shows "\<not> fully_reported s rs"
proof
  assume a: "fully_reported s rs"
  have u: "unat (of_nat (length d) :: u64) = length d" using of_nat_unat_small [OF len] .
  have "length d \<noteq> 0" using got by (cases d) auto
  then have "(of_nat (length d) :: u64) \<noteq> 0" using u by (metis unat_0)
  with a t have r: "length (rs_claims rs) = 1" "claim_offset (rs_claims rs ! 0) = 0"
    "of_nat (length d) \<le> claim_length (rs_claims rs ! 0)"
    by (auto simp: fully_reported_def)
  then obtain q where "rs_claims rs = [q]" by (cases "rs_claims rs") auto
  with r u have "{0 ..< length d} \<subseteq> covered (rs_claims rs)" by (auto simp: claim_set_def word_le_nat_alt)
  with got show False by blast
qed

lemma receive_gap_report:
  assumes o: "originating d k c e" and len: "length d < 2 ^ 59" and m: "max_segment_size (config e) \<noteq> 0"
    and inv: "tracker_inv rs" and got: "covered rs \<subset> {0 ..< length d}"
    and lim: "c + 1 \<le> max_retransmissions (config e)"
  shows "\<exists>e' n. receive_segment e (report_seg k serial cp (of_nat (length d)) rs) = Inr e'
    \<and> wiring e' = wiring e \<and> originating d k (c + 1) e'
    \<and> events e' = events e @ (if on_send_segment e
        then Sent (segment_bytes (ack_seg k serial))
          # map (\<lambda>x. Sent (segment_bytes x)) (resent n (originator k d True)
              (gap_chunks (max_segment_size (config e)) d (get_gaps rs 0 (of_nat (length d))))) else [])"
proof -
  let ?seg = "report_seg k serial cp (of_nat (length d)) rs" and ?m = "max_segment_size (config e)"
  let ?e0 = "tally reports_received_update e"
  obtain n where s: "fmlookup (sessions e) k = Some ((originator k d True)
      \<lparr>checkpoint_serial_counter := n, retransmission_count := c\<rparr>)"
    and k: "k = (local_engine_id (config e), snd k)" using o unfolding originating_def
    by (metis prod.collapse)
  let ?s = "(originator k d True)\<lparr>checkpoint_serial_counter := n, retransmission_count := c\<rparr>"
  let ?s1 = "?s\<lparr>retransmission_count := c + 1\<rparr>"
  let ?s2 = "?s1\<lparr>checkpoint_serial_counter := n + 1\<rparr>"
  have lk: "fmlookup (sessions e) (local_engine_id (config e), snd k) = Some ?s" using s k by simp
  from send_segment_ok [OF segment_wf_fits [OF ack_seg_wf], of ?e0 k serial] obtain e1 where
    e1: "send_segment ?e0 (ack_seg k serial) = Inr e1" "same_sessions ?e0 e1"
      "events e1 = events ?e0 @ (if on_send_segment ?e0 then [Sent (segment_bytes (ack_seg k serial))] else [])"
    by blast
  let ?e2 = "disarm_checkpoint (timer_key (snd k) cp) e1"
  have f: "same_sessions e ?e2" using frame_trans [OF frame_tally(6) frame_trans [OF e1(2) frame_disarm(1)]] .
  have ack: "send_report_ack ?e0 (fst k) (snd k) serial = Inr e1"
    using e1(1) by (simp add: send_report_ack_def ack_seg_def)
  have u: "unat (of_nat (length d) :: u64) = length d" using of_nat_unat_small [OF len] .
  let ?gaps = "get_gaps rs 0 (of_nat (length d))"
  have gc: "covered ?gaps = {0 ..< length d} - covered rs" using covered_gaps [OF inv, of 0] u by simp
  then have gne: "?gaps \<noteq> []" using got by auto
  let ?rs = "\<lparr>rs_report_serial = serial, rs_checkpoint_serial = cp, rs_upper_bound = of_nat (length d),
      rs_lower_bound = 0, rs_claims = rs\<rparr>"
  have nf: "\<not> fully_reported ?s ?rs" using got by (intro partial_report [OF len]) auto
  let ?ps = "gap_chunks ?m d ?gaps"
  have pne: "?ps \<noteq> []"
  proof
    assume "?ps = []"
    then have "{0 ..< length d} - covered rs = {}" using gap_chunks_cover [OF inv m u] by simp
    with got show False by blast
  qed
  have pk: "k = (s_engine_id ?s, s_session_number ?s)" by simp
  let ?out = "resent (n + 1) (originator k d True) ?ps"
  note props = resent_props [of ?ps d k "originator k d True" "n + 1", OF _ pne len]
  have wf: "list_all segment_wf ?out"
    using gap_piece_mem [OF inv _ u, of _ _ ?m] by (intro props) simp_all
  let ?e3 = "tally retransmissions_update (put_session k ?s1 ?e2)"
  obtain e4 where e4: "send_all ?e3 ?out = Inr e4" "same_sessions ?e3 e4" "events e4 = events ?e3 @
      (if on_send_segment ?e3 then map (\<lambda>s. Sent (segment_bytes s)) ?out else [])"
    using send_all_ok [OF wf] by blast
  have mk: "mark_checkpoint (n + 1) (gap_seg (originator k d True) p) = Inr (marked (n + 1) (gap_seg (originator k d True) p))" for p
    by (simp add: mark_checkpoint_def marked_def gap_seg_def data_segment_def)
  have "collect_gaps ?s1 ?m ?gaps [] = Inr (map (gap_seg (originator k d True)) ?ps)"
    using collect_gaps_resent [OF inv m, of ?s1] len by simp
  then have rt: "retransmit_gaps ?e3 ?s1 ?gaps = Inr (e4, ?s2)"
    using pne e4(1) frame_core [OF f]
    by (simp add: retransmit_gaps_def Let_def last_map mk map_butlast [symmetric] resent_def)
  have "receive_segment e ?seg = Inr (put_session k ?s2 e4)"
    using lk ack nf gne rt lim k frame_core [OF f]
    by (simp add: receive_segment_def report_seg_def default_segment_def seg_types is_data_def
        receive_report_segment_def Let_def compute_gaps_eq not_less [symmetric])
  moreover have "wiring (put_session k ?s2 e4) = wiring e"
    using wiring_frame [OF f] wiring_frame [OF e4(2)] by simp
  moreover have "originating d k (c + 1) (put_session k ?s2 e4)"
  proof -
    have "?s2 = (originator k d True)\<lparr>checkpoint_serial_counter := n + 1, retransmission_count := c + 1\<rparr>"
      by (simp add: originator_def default_session_def)
    moreover have "fst k = local_engine_id (config e4)"
      using o frame_core [OF f] frame_core [OF e4(2)] by (simp add: originating_def)
    ultimately show ?thesis unfolding originating_def by (intro conjI exI [of _ "n + 1"]) simp_all
  qed
  moreover have "events ?e2 = events e1" by (simp add: disarm_checkpoint_def split: option.split)
  moreover have "on_send_segment ?e3 = on_send_segment e" "on_send_segment ?e0 = on_send_segment e"
    using f by (simp_all add: same_sessions_def tally_def put_session_def)
  ultimately show ?thesis using e1(3) e4(3)
    by (intro exI [of _ "put_session k ?s2 e4"] exI [of _ "n + 1"]) simp
qed

section \<open>Over the wire\<close>

fun feed :: "engine \<Rightarrow> bytes list \<Rightarrow> engine res" where
  "feed e [] = Inr e"
| "feed e (bs # bss) = rbind (on_wire e bs) (\<lambda>e. feed e bss)"

lemma on_wire_bytes:
  "segment_wf seg \<Longrightarrow> length (segment_bytes seg) < 2 ^ 63
   \<Longrightarrow> on_wire e (segment_bytes seg) = receive_segment e seg"
  using segment_decode_bytes [of seg "[]"] by (simp add: on_wire_def)

definition wireable :: "ltp_segment \<Rightarrow> bool" where
  "wireable seg \<longleftrightarrow> segment_wf seg \<and> length (segment_bytes seg) < 2 ^ 63"

lemma feed_segments:
  "list_all wireable segs \<Longrightarrow> feed e (map segment_bytes segs) = receive_all e segs"
  by (induction segs arbitrary: e) (simp_all add: wireable_def on_wire_bytes)

lemma short_segs:
  shows "m \<noteq> 0 \<Longrightarrow> seg \<in> set (block_segs m k d r) \<Longrightarrow> length (segment_bytes seg) \<le> 100 + length d"
    "length (segment_bytes (ack_seg k serial)) \<le> 100"
    "length (segment_bytes (report_seg k serial cp upper (full_claims d))) \<le> 100"
proof -
  have l: "length (sdnv_bytes v) \<le> 10" for v using length_sdnv_bytes [of v] by (simp add: MAX_BYTES_def)
  show "length (segment_bytes seg) \<le> 100 + length d" if "m \<noteq> 0" "seg \<in> set (block_segs m k d r)"
  proof -
    from block_segs_mem [OF that(2,1)] obtain o' c l where
      seg: "seg = chunk_seg (originator k d r) 0 l (o', c)" and "(o', c) \<in> set (block_chunks m d)" by auto
    then have "length c \<le> length d" using block_chunk_mem(1) by fastforce
    then show ?thesis
      unfolding seg chunk_seg_def by (rule_tac order_trans [OF data_segment_length]) simp
  qed
  show "length (segment_bytes (ack_seg k serial)) \<le> 100"
    using l [of "fst k"] l [of "snd k"] l [of serial]
    by (simp add: segment_bytes_def ack_seg_def default_segment_def content_bytes_def)
  show "length (segment_bytes (report_seg k serial cp upper (full_claims d))) \<le> 100"
    using l [of "fst k"] l [of "snd k"] l [of serial] l [of cp] l [of upper] l [of 0] l [of 1]
      l [of "of_nat (length d)"]
    by (simp add: segment_bytes_def report_seg_def default_segment_def content_bytes_def full_claims_def claim_bytes_def)
qed

lemma wireable_small:
  assumes "length d < 2 ^ 59"
  shows "m \<noteq> 0 \<Longrightarrow> list_all wireable (block_segs m k d r)"
    "wireable (ack_seg k serial)" "wireable (report_seg k serial cp upper (full_claims d))"
proof -
  have report: "segment_wf (report_seg k serial cp upper (full_claims d))"
    by (rule report_seg_wf) (simp add: full_claims_def)
  have small: "n \<le> 100 + length d \<Longrightarrow> n < 2 ^ 63" for n using assms by simp
  show "list_all wireable (block_segs m k d r)" if "m \<noteq> 0"
    using block_segs_wf [OF that assms] short_segs(1) [OF that] small by (auto simp: wireable_def list_all_iff)
  show "wireable (ack_seg k serial)" "wireable (report_seg k serial cp upper (full_claims d))"
    using report ack_seg_wf short_segs(2) [of k serial] short_segs(3) [of k serial cp upper d] by (simp_all add: wireable_def)
qed

text \<open>A run of pieces without checkpoint, then a checkpoint piece that is answered.\<close>

definition receptive :: "bytes \<Rightarrow> session_key \<Rightarrow> nat set \<Rightarrow> bool \<Rightarrow> engine \<Rightarrow> bool" where
  "receptive d k got ended e \<longleftrightarrow> has_room k e \<and> got = {} \<and> \<not> ended \<or> receiving d k got ended e"

lemma receptive_pieces:
  assumes r: "receptive d k got ended e" and xs: "list_all (red_piece d k) xs" and len: "length d < 2 ^ 59"
    and nc: "list_all (\<lambda>s. \<not> has_checkpoint (segment_type s)) xs"
  shows "\<exists>e'. receive_all e xs = Inr e' \<and> wiring e' = wiring e \<and> events e' = events e
    \<and> receptive d k (got \<union> (\<Union>s \<in> set xs. seg_bytes_at s))
        (ended \<or> list_ex (\<lambda>s. has_eob (segment_type s)) xs) e'"
proof (cases "receiving d k got ended e")
  case True
  with receiving_pieces [OF True xs len] nc show ?thesis unfolding receptive_def by blast
next
  case False
  then have room: "has_room k e" "got = {}" "\<not> ended" using r by (auto simp: receptive_def)
  show ?thesis
  proof (cases "xs = []")
    case True
    with room show ?thesis by (simp add: receptive_def)
  next
    case False
    from receive_pieces [OF room(1) xs False len] nc room(2,3) show ?thesis
      unfolding receptive_def by (simp del: seg_bytes_at.simps) blast
  qed
qed

lemma pieces_then_checkpoint:
  assumes r: "receptive d k got ended e" and len: "length d < 2 ^ 59" and on: "on_send_segment e"
    and xs: "list_all (red_piece d k) xs" "list_all (\<lambda>s. \<not> has_checkpoint (segment_type s)) xs"
    and l: "red_piece d k l" "has_checkpoint (segment_type l)"
  shows "\<exists>e' rs serial cp ds. receive_all e (xs @ [l]) = Inr e' \<and> wiring e' = wiring e
    \<and> receiving d k (got \<union> (\<Union>s \<in> set (xs @ [l]). seg_bytes_at s))
        (ended \<or> list_ex (\<lambda>s. has_eob (segment_type s)) (xs @ [l])) e'
    \<and> tracker_inv rs \<and> covered rs = got \<union> (\<Union>s \<in> set (xs @ [l]). seg_bytes_at s)
    \<and> content l = Data_Seg ds
    \<and> events e' = events e @ [Sent (segment_bytes (report_seg k serial cp (ds_offset ds + ds_length ds) rs))]"
proof -
  let ?got = "got \<union> (\<Union>s \<in> set xs. seg_bytes_at s)"
  let ?fin = "ended \<or> list_ex (\<lambda>s. has_eob (segment_type s)) xs"
  obtain e0 where e0: "receive_all e xs = Inr e0" "wiring e0 = wiring e" "events e0 = events e"
    "receptive d k ?got ?fin e0"
    using receptive_pieces [OF r xs(1) len xs(2)] by blast
  have "on_send_segment e0" using e0(2) on by (simp add: wiring_def)
  with receive_piece [OF e0(4) [unfolded receptive_def] l(1) len] l(2) obtain e' s serial cp ds where
    e': "receive_segment e0 l = Inr e'" "wiring e' = wiring e0" "sessions e' = fmupd k s (sessions e0)"
      "receiving d k (?got \<union> seg_bytes_at l) (?fin \<or> has_eob (segment_type l)) e'"
      "content l = Data_Seg ds"
      "events e' = events e0 @ [Sent (segment_bytes (report_seg k serial cp
            (ds_offset ds + ds_length ds) (reception_tracker s)))]" by blast
  then have h: "holds d (?got \<union> seg_bytes_at l) s" by (simp add: receiving_def)
  then have "tracker_inv (reception_tracker s)" "covered (reception_tracker s) = ?got \<union> seg_bytes_at l"
    by (simp_all add: holds_def)
  moreover have "receive_all e (xs @ [l]) = Inr e'" using e0(1) e'(1) by (simp add: receive_all_append)
  moreover have "got \<union> (\<Union>s \<in> set (xs @ [l]). seg_bytes_at s) = ?got \<union> seg_bytes_at l"
    by (simp del: seg_bytes_at.simps add: Un_ac)
  moreover have "ended \<or> list_ex (\<lambda>s. has_eob (segment_type s)) (xs @ [l]) \<longleftrightarrow> ?fin \<or> has_eob (segment_type l)"
    by simp
  ultimately show ?thesis using e'(2,4,5,6) e0(2,3)
    by (intro exI [of _ e'] exI [of _ "reception_tracker s"] exI [of _ serial] exI [of _ cp] exI [of _ ds])
      (simp only: simp_thms)
qed

lemma wireable_report:
  assumes "tracker_inv rs" "covered rs \<subseteq> {0 ..< length d}" "length d < 2 ^ 58"
  shows "wireable (report_seg k serial cp upper rs)"
proof -
  have l: "length (sdnv_bytes v) \<le> 10" for v using length_sdnv_bytes [of v] by (simp add: MAX_BYTES_def)
  have "card (covered rs) \<le> length d" using card_mono [OF _ assms(2)] by simp
  then have n: "length rs \<le> length d" using tracker_length [OF assms(1)] by linarith
  then have "segment_wf (report_seg k serial cp upper rs)"
    using assms(3) by (intro report_seg_wf) simp
  moreover have "length (claim_bytes r) \<le> 20" for r
    using l [of "claim_offset r"] l [of "claim_length r"] by (simp add: claim_bytes_def)
  then have "length (concat (map claim_bytes rs)) \<le> 20 * length rs"
    by (induction rs) (simp_all, smt (verit) add_mono)
  then have "length (segment_bytes (report_seg k serial cp upper rs)) < 2 ^ 63"
    using l [of "fst k"] l [of "snd k"] l [of serial] l [of cp] l [of upper] l [of 0]
      l [of "of_nat (length rs)"] n assms(3)
    by (simp add: segment_bytes_def report_seg_def default_segment_def content_bytes_def)
  ultimately show ?thesis by (simp add: wireable_def)
qed

lemma wireable_resent:
  assumes "list_all segment_wf (resent n s ps)" "length d < 2 ^ 58" "ps \<noteq> []"
    and "\<And>o' c. (o', c) \<in> set ps \<Longrightarrow> length c \<le> length d"
  shows "list_all wireable (resent n s ps)"
proof -
  have g: "length (segment_bytes (gap_seg s p)) < 2 ^ 63" "length (segment_bytes (marked n (gap_seg s p))) < 2 ^ 63"
    if "p \<in> set ps" for p
  proof -
    have c: "length (snd p) < 2 ^ 58" using assms(2) assms(4) [of "fst p" "snd p"] that by simp
    show "length (segment_bytes (gap_seg s p)) < 2 ^ 63"
      unfolding gap_seg_def by (rule le_less_trans [OF data_segment_length]) (use c in simp)
    have m: "marked n (gap_seg s p) = data_segment s RED_DATA_CP
      \<lparr>client_service_id = 1, ds_offset = of_nat (fst p), ds_length = of_nat (length (snd p)),
       ds_checkpoint_serial = Some n, ds_report_serial = Some 0, ds_data = snd p\<rparr>"
      by (simp add: marked_def gap_seg_def data_segment_def)
    show "length (segment_bytes (marked n (gap_seg s p))) < 2 ^ 63"
      unfolding m by (rule le_less_trans [OF data_segment_length]) (use c in simp)
  qed
  have "set (butlast ps) \<subseteq> set ps" "last ps \<in> set ps" using assms(3) by (auto dest: in_set_butlastD)
  then have "length (segment_bytes x) < 2 ^ 63" if "x \<in> set (resent n s ps)" for x
    using that g(1) g(2) [of "last ps"] by (auto simp: resent_def)
  then show ?thesis using assms(1) by (auto simp: wireable_def list_all_iff)
qed

lemma receiving_sessions: "sessions e' = sessions e \<Longrightarrow> receiving d k got ended e' = receiving d k got ended e"
  by (simp add: receiving_def)

text \<open>The second half of a transfer: the receiver of a report with gaps gets the missing bytes.\<close>

lemma repair_step:
  assumes a: "originating d k c a" "max_segment_size (config a) \<noteq> 0"
      "c + 1 \<le> max_retransmissions (config a)" "on_send_segment a"
    and b: "receiving d k got True b" "on_send_segment b"
    and inv: "tracker_inv rs" "covered rs = got" and got: "got \<subset> {0 ..< length d}"
    and len: "length d < 2 ^ 58"
  shows "\<exists>a' b' w serial' cp' upper. on_wire a (segment_bytes (report_seg k serial cp (of_nat (length d)) rs)) = Inr a'
    \<and> wiring a' = wiring a \<and> originating d k (c + 1) a' \<and> events a' = events a @ map Sent w
    \<and> feed b w = Inr b' \<and> wiring b' = wiring b \<and> receiving d k {0 ..< length d} True b'
    \<and> events b' = events b @ [Sent (segment_bytes (report_seg k serial' cp' upper (full_claims d)))]"
proof -
  let ?m = "max_segment_size (config a)" and ?up = "of_nat (length d) :: u64"
  have len': "length d < 2 ^ 59" using len by simp
  have u: "unat ?up = length d" using of_nat_unat_small [OF len'] .
  let ?ps = "gap_chunks ?m d (get_gaps rs 0 ?up)"
  obtain a' n where a': "receive_segment a (report_seg k serial cp ?up rs) = Inr a'" "wiring a' = wiring a"
    "originating d k (c + 1) a'"
    "events a' = events a @ Sent (segment_bytes (ack_seg k serial))
      # map (\<lambda>x. Sent (segment_bytes x)) (resent n (originator k d True) ?ps)"
    using receive_gap_report [OF a(1) len' a(2) inv(1) _ a(3), of serial cp] got inv(2) a(4) by auto
  have cov: "(\<Union>(o', c) \<in> set ?ps. {o' ..< o' + length c}) = {0 ..< length d} - got"
    using gap_chunks_cover [OF inv(1) a(2) u] inv(2) by simp
  have pne: "?ps \<noteq> []" using cov got by auto
  have pm: "o' + length c \<le> length d \<and> c = take (length c) (drop o' d)" if "(o', c) \<in> set ?ps" for o' c
    using gap_piece_mem [OF inv(1) that u] by blast
  have kk: "k = (s_engine_id (originator k d True), s_session_number (originator k d True))" by simp
  let ?out = "resent n (originator k d True) ?ps"
  have R: "list_all (red_piece d k) ?out" "list_all segment_wf ?out"
    "(\<Union>x \<in> set ?out. seg_bytes_at x) = (\<Union>(o', c) \<in> set ?ps. {o' ..< o' + length c})"
    "list_all (\<lambda>x. \<not> has_checkpoint (segment_type x)) (butlast ?out)"
    "has_checkpoint (segment_type (last ?out))"
    by (rule resent_props [OF _ pne len' kk], erule pm)+
  have one: "?out = butlast ?out @ [last ?out]" by (simp add: resent_def)
  have ne: "got \<noteq> {0 ..< length d}" using got by blast
  obtain b1 where b1: "receive_segment b (ack_seg k serial) = Inr b1" "wiring b1 = wiring b"
    "sessions b1 = sessions b" "events b1 = events b"
    using receive_ack [OF b(1) len', of serial] ne by auto
  have on1: "on_send_segment b1" using b1(2) b(2) by (simp add: wiring_def)
  have rec: "receptive d k got True b1" using b(1) receiving_sessions [OF b1(3)] by (simp add: receptive_def)
  have px: "list_all (red_piece d k) (butlast ?out)" "red_piece d k (last ?out)"
    using R(1) one by (metis list_all_append list.pred_inject(2))+
  have all: "got \<union> (\<Union>s \<in> set ?out. seg_bytes_at s) = {0 ..< length d}"
  proof -
    have "(\<Union>s \<in> set ?out. seg_bytes_at s) = {0 ..< length d} - got" using R(3) unfolding cov .
    then show ?thesis using got by blast
  qed
  obtain b' rs' serial' cp' and ds :: data_seg_content where
    b': "receive_all b1 ?out = Inr b'" "wiring b' = wiring b1"
      "receiving d k {0 ..< length d} True b'" "tracker_inv rs'" "covered rs' = {0 ..< length d}"
      "events b' = events b1 @ [Sent (segment_bytes (report_seg k serial' cp' (ds_offset ds + ds_length ds) rs'))]"
    using pieces_then_checkpoint [OF rec len' on1 px(1) R(4) px(2) R(5)]
    unfolding one [symmetric] all by (simp only: simp_thms) blast
  have rs': "rs' = full_claims d"
    using tracker_canonical [OF b'(4) full_claims_inv [OF len']] b'(5) covered_full_claims [OF len'] by simp
  let ?w = "map segment_bytes (ack_seg k serial # ?out)"
  have wf: "list_all wireable (ack_seg k serial # ?out)"
    using wireable_small(2) [OF len'] wireable_resent [OF R(2) len pne] pm by fastforce
  have "feed b ?w = Inr b'"
    unfolding feed_segments [OF wf] using b1(1) b'(1) by simp
  moreover have "wireable (report_seg k serial cp ?up rs)"
    using wireable_report [OF inv(1) _ len] inv(2) got by blast
  then have "on_wire a (segment_bytes (report_seg k serial cp ?up rs)) = Inr a'"
    using on_wire_bytes a'(1) unfolding wireable_def by metis
  moreover have "events a' = events a @ map Sent ?w" using a'(4) by simp
  ultimately show ?thesis using a'(2,3) b'(2,3,6) b1(2,4) unfolding rs'
    by (intro exI [of _ a'] exI [of _ b'] exI [of _ ?w] exI [of _ serial'] exI [of _ cp']
        exI [of _ "ds_offset ds + ds_length ds"]) simp
qed

section \<open>A transfer without loss\<close>

text \<open>The originator starts a session, the receiver is given its segments and answers with a report, the
  originator acknowledges it and closes, and the acknowledgment makes the receiver hand the block over.\<close>

lemma transfer_run:
  assumes a: "fmlookup (sessions a) k = None"
      "active_session_count a < unat (max_concurrent_sessions (config a))"
      "k = (local_engine_id (config a), session_counter a + 1)"
      "max_segment_size (config a) \<noteq> 0" "on_send_segment a" "on_session_complete a"
    and b: "has_room k b" "on_send_segment b" "on_data_arrival b"
    and len: "length d < 2 ^ 59"
  shows "\<exists>a1 w b1 rpt a2 ack b2. start_session a d True = Inr (snd k, a1) \<and> events a1 = events a @ map Sent w
    \<and> feed b w = Inr b1 \<and> events b1 = events b @ [Sent rpt]
    \<and> on_wire a1 rpt = Inr a2 \<and> events a2 = events a1 @ [Sent ack, Session_Complete (snd k)]
    \<and> fmlookup (sessions a2) k = None
    \<and> on_wire b1 ack = Inr b2 \<and> events b2 = events b1 @ [Arrived d] \<and> fmlookup (sessions b2) k = None
    \<and> (\<forall>bs \<in> set (w @ [rpt, ack]). length bs \<le> 100 + length d)"
proof -
  let ?m = "max_segment_size (config a)"
  let ?segs = "block_segs ?m k d True"
  obtain a1 where a1: "start_session a d True = Inr (snd k, a1)" "wiring a1 = wiring a" "originating d k 0 a1"
    "events a1 = events a @ (if on_send_segment a then map (\<lambda>s. Sent (segment_bytes s)) ?segs else [])"
    using start_sends [OF a(2,1,3,4) len] by blast
  obtain xs l where sh: "?segs = xs @ [l]" "has_checkpoint (segment_type l)" "has_eob (segment_type l)"
    "list_all (\<lambda>s. \<not> has_checkpoint (segment_type s)) xs"
    "(\<Union>s \<in> set (xs @ [l]). seg_bytes_at s) = {0 ..< length d}"
    using block_segs_shape [OF a(4) len] by blast
  have px: "list_all (red_piece d k) xs" "red_piece d k l"
    using block_segs_pieces [OF a(4) len, of k] sh(1) by simp_all
  have eob: "list_ex (\<lambda>s. has_eob (segment_type s)) (xs @ [l])" using sh(3) by simp
  obtain b1 rs serial cp and ds :: data_seg_content where b1: "receive_all b ?segs = Inr b1" "wiring b1 = wiring b"
    "receiving d k {0 ..< length d} True b1" "tracker_inv rs" "covered rs = {0 ..< length d}"
    "events b1 = events b @ [Sent (segment_bytes (report_seg k serial cp (ds_offset ds + ds_length ds) rs))]"
    using pieces_then_checkpoint [OF _ len b(2) px(1) sh(4) px(2) sh(2), of "{}" False] eob b(1)
    unfolding sh(1) sh(5) receptive_def by (simp only: simp_thms Un_empty_left) blast
  have rs: "rs = full_claims d"
    using tracker_canonical [OF b1(4) full_claims_inv [OF len]] b1(5) covered_full_claims [OF len] by simp
  let ?rpt = "report_seg k serial cp (ds_offset ds + ds_length ds) (full_claims d)"
  have on: "on_send_segment a1" "on_session_complete a1" "on_data_arrival b1"
    using a1(2) a(5,6) b1(2) b(3) by (simp_all add: wiring_def)
  obtain a2 where a2: "receive_segment a1 ?rpt = Inr a2" "fmlookup (sessions a2) k = None"
    "events a2 = events a1 @ [Sent (segment_bytes (ack_seg k serial))] @ [Session_Complete (snd k)]"
    using receive_full_report [OF a1(3) len, of serial cp "ds_offset ds + ds_length ds"] on by auto
  obtain b2 where b2: "receive_segment b1 (ack_seg k serial) = Inr b2" "fmlookup (sessions b2) k = None"
    "events b2 = events b1 @ [Arrived d]"
    using receive_ack [OF b1(3) len, of serial] on(3) by auto
  note w = wireable_small [OF len]
  have "feed b (map segment_bytes ?segs) = Inr b1" using feed_segments [OF w(1) [OF a(4)]] b1(1) by simp
  moreover have "on_wire a1 (segment_bytes ?rpt) = Inr a2"
    using on_wire_bytes w(3) a2(1) unfolding wireable_def by metis
  moreover have "on_wire b1 (segment_bytes (ack_seg k serial)) = Inr b2"
    using on_wire_bytes w(2) b2(1) unfolding wireable_def by metis
  moreover have "events a1 = events a @ map Sent (map segment_bytes ?segs)" using a1(4) a(5) by simp
  moreover have "events b1 = events b @ [Sent (segment_bytes ?rpt)]" using b1(6) by (simp add: rs)
  moreover have "\<forall>bs \<in> set (map segment_bytes ?segs @ [segment_bytes ?rpt, segment_bytes (ack_seg k serial)]).
      length bs \<le> 100 + length d"
    using short_segs(1) [OF a(4)] trans_le_add1 [OF short_segs(2)] trans_le_add1 [OF short_segs(3)] by auto
  ultimately show ?thesis using a1(1) a2 b2
    by (intro exI [of _ a1] exI [of _ "map segment_bytes ?segs"] exI [of _ b1]
        exI [of _ "segment_bytes ?rpt"] exI [of _ a2] exI [of _ "segment_bytes (ack_seg k serial)"]
        exI [of _ b2]) simp
qed

section \<open>A sample peer\<close>

definition sample_peer :: engine where
  "sample_peer = sample_engine
     \<lparr>config := default_engine_config\<lparr>max_segment_size := 2\<rparr>,
      on_data_arrival := True, on_session_complete := True, on_send_segment := True\<rparr>"

lemma sample_peer_simps:
  "sessions sample_peer = fmempty" "max_segment_size (config sample_peer) = 2"
  "max_concurrent_sessions (config sample_peer) = 100" "local_engine_id (config sample_peer) = 1"
  "max_retransmissions (config sample_peer) = 10" "active_session_count sample_peer = 0"
  "session_counter sample_peer = 0" "on_data_arrival sample_peer" "on_session_complete sample_peer"
  "on_send_segment sample_peer" "events sample_peer = []" "has_room (1, 1) sample_peer"
  by (simp_all add: sample_peer_def sample_engine_def new_engine_def default_engine_config_def
      active_session_count_def has_room_def fcard_fempty)

lemma sample_segs:
  "block_segs 2 (1, 1) [1, 2, 3] True =
    [chunk_seg (originator (1, 1) [1, 2, 3] True) 0 False (0, [1, 2]),
     chunk_seg (originator (1, 1) [1, 2, 3] True) 0 True (2, [3])]"
  by (simp add: block_segs_def block_chunks_def chunks_step chunk_segs_def) (simp add: numeral_2_eq_2)

lemma sample_last:
  "seg_bytes_at (chunk_seg (originator (1, 1) [1, 2, 3] True) 0 True (2, [3])) = {2}"
  by (simp add: chunk_seg_def data_segment_def piece_set_def) auto

section \<open>Properties\<close>

text \<open>C10. Any mix of red segments carrying pieces of a block (originals and retransmissions, in
  any order, repeated or with some missing) is accepted by a receiver that has room: nothing
  fails, the session then holds exactly the bytes that arrived, each with its value in the block,
  and a report acknowledgment hands over the block exactly when all of it arrived and its end was
  announced, and keeps the session while bytes are missing.\<close>

theorem reassembly:
  assumes "has_room k e" "list_all (red_piece d k) segs" "segs \<noteq> []" "length d < 2 ^ 59"
    and "list_ex (\<lambda>s. has_eob (segment_type s)) segs" "on_data_arrival e"
  shows "\<exists>e1 e2. receive_all e segs = Inr e1
    \<and> receiving d k (\<Union>s \<in> set segs. seg_bytes_at s) True e1
    \<and> receive_segment e1 (ack_seg k serial) = Inr e2
    \<and> (if (\<Union>s \<in> set segs. seg_bytes_at s) = {0 ..< length d}
       then fmlookup (sessions e2) k = None \<and> events e2 = events e1 @ [Arrived d]
       else sessions e2 = sessions e1 \<and> events e2 = events e1)"
proof -
  from receive_pieces [OF assms(1-4)] assms(5) obtain e1 where
    e1: "receive_all e segs = Inr e1" "wiring e1 = wiring e"
      "receiving d k (\<Union>s \<in> set segs. seg_bytes_at s) True e1" by (simp only: simp_thms) blast
  have "on_data_arrival e1" using e1(2) assms(6) by (simp add: wiring_def)
  with receive_ack [OF e1(3) assms(4), of serial] e1 show ?thesis by (simp only: if_True simp_thms) metis
qed

theorem reassembly_witness:
  "\<exists>e1 e2. receive_all sample_peer (block_segs 2 (1, 1) [1, 2, 3] True) = Inr e1
    \<and> receive_segment e1 (ack_seg (1, 1) 1) = Inr e2
    \<and> fmlookup (sessions e2) (1, 1) = None \<and> events e2 = events e1 @ [Arrived [1, 2, 3]]"
proof -
  have l: "length ([1, 2, 3] :: bytes) < 2 ^ 59" by simp
  obtain xs l where sh: "block_segs 2 (1, 1) [1, 2, 3] True = xs @ [l]" "has_eob (segment_type l)"
    "(\<Union>s \<in> set (xs @ [l]). seg_bytes_at s) = {0 ..< length ([1, 2, 3] :: bytes)}"
    using block_segs_shape [OF _ l, of 2 "(1, 1)"] by (simp del: seg_bytes_at.simps) blast
  have p: "list_all (red_piece [1, 2, 3] (1, 1)) (xs @ [l])"
    using block_segs_pieces [OF _ l, of 2 "(1, 1)"] sh(1) by simp
  have "list_ex (\<lambda>s. has_eob (segment_type s)) (xs @ [l])" using sh(2) by simp
  from reassembly [OF sample_peer_simps(12) p _ l this sample_peer_simps(8), of 1] show ?thesis
    unfolding sh by (simp only: simp_thms if_True) blast
qed

text \<open>C9. A lossy first transmission is repaired: when any data segments other than the final
  checkpoint are lost, reordered or repeated, the report of the receiver makes the originator
  acknowledge it and send again exactly what is missing, ending in a checkpoint; once that
  arrives, the second report closes the originator and its acknowledgment makes the receiver hand
  over exactly the block.\<close>

theorem transfer_repairs:
  assumes a: "fmlookup (sessions a) k = None"
      "active_session_count a < unat (max_concurrent_sessions (config a))"
      "k = (local_engine_id (config a), session_counter a + 1)"
      "max_segment_size (config a) \<noteq> 0" "on_send_segment a" "on_session_complete a"
      "1 \<le> max_retransmissions (config a)"
    and b: "has_room k b" "on_send_segment b" "on_data_arrival b"
    and len: "length d < 2 ^ 58"
    and segs: "segs = block_segs (max_segment_size (config a)) k d True"
    and kept: "set kept \<subseteq> set (butlast segs)"
    and lost: "(\<Union>s \<in> set (kept @ [last segs]). seg_bytes_at s) \<noteq> {0 ..< length d}"
  shows "\<exists>a1 b1 r1 a2 w2 b2 r2 a3 ack b3. start_session a d True = Inr (snd k, a1)
    \<and> events a1 = events a @ map (\<lambda>s. Sent (segment_bytes s)) segs
    \<and> feed b (map segment_bytes (kept @ [last segs])) = Inr b1 \<and> events b1 = events b @ [Sent r1]
    \<and> on_wire a1 r1 = Inr a2 \<and> events a2 = events a1 @ map Sent w2
    \<and> feed b1 w2 = Inr b2 \<and> events b2 = events b1 @ [Sent r2]
    \<and> on_wire a2 r2 = Inr a3 \<and> events a3 = events a2 @ [Sent ack, Session_Complete (snd k)]
    \<and> fmlookup (sessions a3) k = None
    \<and> on_wire b2 ack = Inr b3 \<and> events b3 = events b2 @ [Arrived d] \<and> fmlookup (sessions b3) k = None"
proof -
  let ?m = "max_segment_size (config a)" and ?up = "of_nat (length d) :: u64"
  have len': "length d < 2 ^ 59" using len by simp
  obtain a1 where a1: "start_session a d True = Inr (snd k, a1)" "wiring a1 = wiring a" "originating d k 0 a1"
    "events a1 = events a @ map (\<lambda>s. Sent (segment_bytes s)) segs"
    using start_sends [OF a(2,1,3,4) len'] a(5) segs by auto
  obtain xs l dl where sh: "segs = xs @ [l]" "has_checkpoint (segment_type l)" "has_eob (segment_type l)"
    "list_all (\<lambda>s. \<not> has_checkpoint (segment_type s)) xs"
    "(\<Union>s \<in> set (xs @ [l]). seg_bytes_at s) = {0 ..< length d}"
    "content l = Data_Seg dl" "ds_offset dl + ds_length dl = ?up"
    using block_segs_shape [OF a(4) len'] unfolding segs by blast
  have pieces: "list_all (red_piece d k) segs" using block_segs_pieces [OF a(4) len', of k] segs by simp
  have kx: "set kept \<subseteq> set xs" using kept sh(1) by simp
  have px: "list_all (red_piece d k) kept" "list_all (\<lambda>s. \<not> has_checkpoint (segment_type s)) kept" "red_piece d k l"
    using pieces sh(4) kx unfolding sh(1) by (auto simp: list_all_iff)
  let ?got = "\<Union>s \<in> set (kept @ [l]). seg_bytes_at s"
  have "?got \<subseteq> (\<Union>s \<in> set (xs @ [l]). seg_bytes_at s)" by (rule UN_mono) (use kx in auto)
  then have got: "?got \<subset> {0 ..< length d}" using lost unfolding sh(5) by (auto simp: sh(1))
  have eob: "list_ex (\<lambda>s. has_eob (segment_type s)) (kept @ [l])" using sh(3) by simp
  obtain b1 rs serial cp where b1: "receive_all b (kept @ [l]) = Inr b1" "wiring b1 = wiring b"
    "receiving d k ?got True b1" "tracker_inv rs" "covered rs = ?got"
    "events b1 = events b @ [Sent (segment_bytes (report_seg k serial cp ?up rs))]"
    using pieces_then_checkpoint [OF _ len' b(2) px(1,2,3) sh(2), of "{}" False] eob b(1) sh(6,7)
    unfolding receptive_def by (simp only: simp_thms Un_empty_left segment_content.inject) metis
  have on: "on_send_segment a1" "on_send_segment b1" "config a1 = config a"
    using a1(2) b1(2) a(5) b(2) by (simp_all add: wiring_def)
  obtain a2 b2 w2 serial' cp' upper where s2:
    "on_wire a1 (segment_bytes (report_seg k serial cp ?up rs)) = Inr a2" "wiring a2 = wiring a1"
    "originating d k 1 a2" "events a2 = events a1 @ map Sent w2"
    "feed b1 w2 = Inr b2" "wiring b2 = wiring b1" "receiving d k {0 ..< length d} True b2"
    "events b2 = events b1 @ [Sent (segment_bytes (report_seg k serial' cp' upper (full_claims d)))]"
    using repair_step [OF a1(3) _ _ on(1) b1(3) on(2) b1(4,5) got len, where serial = serial and cp = cp]
      a(4,7) on(3) by auto
  have on2: "on_send_segment a2" "on_session_complete a2" "on_data_arrival b2"
    using s2(2,6) a1(2) b1(2) a(5,6) b(3) by (simp_all add: wiring_def)
  obtain a3 where a3: "receive_segment a2 (report_seg k serial' cp' upper (full_claims d)) = Inr a3"
    "fmlookup (sessions a3) k = None"
    "events a3 = events a2 @ [Sent (segment_bytes (ack_seg k serial')), Session_Complete (snd k)]"
    using receive_full_report [OF s2(3) len', of serial' cp' upper] on2 by auto
  obtain b3 where b3: "receive_segment b2 (ack_seg k serial') = Inr b3" "fmlookup (sessions b3) k = None"
    "events b3 = events b2 @ [Arrived d]"
    using receive_ack [OF s2(7) len', of serial'] on2(3) by auto
  note w = wireable_small [OF len']
  have "list_all wireable segs" using w(1) [OF a(4), of k True] segs by simp
  then have "list_all wireable (kept @ [l])" using kx unfolding sh(1) by (auto simp: list_all_iff)
  then have f: "feed b (map segment_bytes (kept @ [last segs])) = Inr b1"
    unfolding sh(1) last_snoc feed_segments [OF \<open>list_all wireable (kept @ [l])\<close>] by (simp only: b1(1))
  have o3: "on_wire a2 (segment_bytes (report_seg k serial' cp' upper (full_claims d))) = Inr a3"
    using on_wire_bytes w(3) a3(1) unfolding wireable_def by metis
  have o4: "on_wire b2 (segment_bytes (ack_seg k serial')) = Inr b3"
    using on_wire_bytes w(2) b3(1) unfolding wireable_def by metis
  show ?thesis
    by (intro exI conjI) (rule a1(1), rule a1(4), rule f, rule b1(6), rule s2(1), rule s2(4), rule s2(5),
      rule s2(8), rule o3, rule a3(3), rule a3(2), rule o4, rule b3(3), rule b3(2))
qed

theorem transfer_repairs_witness:
  "\<exists>a1 b1 w2 b2 ack b3. start_session sample_peer [1, 2, 3] True = Inr (1, a1)
    \<and> feed sample_peer [segment_bytes (last (block_segs 2 (1, 1) [1, 2, 3] True))] = Inr b1
    \<and> feed b1 w2 = Inr b2 \<and> on_wire b2 ack = Inr b3
    \<and> events b3 = events b2 @ [Arrived [1, 2, 3]] \<and> fmlookup (sessions b3) (1, 1) = None"
proof -
  have l: "length ([1, 2, 3] :: bytes) < 2 ^ 58" by simp
  let ?segs = "block_segs 2 (1, 1) [1, 2, 3] True"
  have lost: "(\<Union>s \<in> set ([] @ [last ?segs]). seg_bytes_at s) \<noteq> {0 ..< length ([1, 2, 3] :: bytes)}"
  proof -
    have "0 \<notin> (\<Union>s \<in> set ([] @ [last ?segs]). seg_bytes_at s)"
      by (simp add: sample_segs sample_last del: seg_bytes_at.simps)
    then show ?thesis by (metis atLeastLessThan_iff le0 length_greater_0_conv list.distinct(1))
  qed
  have segs: "?segs = block_segs (max_segment_size (config sample_peer)) (1, 1) [1, 2, 3] True"
    "(1, 1) = (local_engine_id (config sample_peer), session_counter sample_peer + 1)"
    "active_session_count sample_peer < unat (max_concurrent_sessions (config sample_peer))"
    "fmlookup (sessions sample_peer) (1, 1) = None" "max_segment_size (config sample_peer) \<noteq> 0"
    "1 \<le> max_retransmissions (config sample_peer)"
    by (simp_all add: sample_peer_simps)
  obtain a1 b1 b2 b3 :: engine and w2 ack where "start_session sample_peer [1, 2, 3] True = Inr (1, a1)"
    "feed sample_peer (map segment_bytes ([] @ [last ?segs])) = Inr b1"
    "feed b1 w2 = Inr b2" "on_wire b2 ack = Inr b3"
    "events b3 = events b2 @ [Arrived [1, 2, 3]]" "fmlookup (sessions b3) (1, 1) = None"
    using transfer_repairs [OF segs(4,3,2,5) sample_peer_simps(10,9) segs(6) sample_peer_simps(12,10,8)
      l segs(1) _ lost] by (simp only: snd_conv list.set empty_subsetI simp_thms True_implies_equals) blast
  then show ?thesis
    by (intro exI [of _ a1] exI [of _ b1] exI [of _ w2] exI [of _ b2] exI [of _ ack] exI [of _ b3]) simp
qed

end
