(* ===== verification/Engine_Faults.thy ===== *)
theory Engine_Faults
  imports Delivery
begin

text \<open>
  What the engine of \<^verbatim>\<open>src/ltp_cla/ltp_engine.cpp\<close> does on inputs outside the
  preconditions of the delivery theorems: segments whose offsets do not fit, reports about bytes
  that do not exist, acknowledgments that come early, segments that name a session of the other
  role, and report timers. All but the last hold for every engine and every such input.
\<close>

section \<open>Sample segments\<close>

definition red_at :: "u64 \<Rightarrow> u8 \<Rightarrow> u64 option \<Rightarrow> u64 \<Rightarrow> bytes \<Rightarrow> ltp_segment" where
  "red_at engine_id type serial off bs = default_segment
     \<lparr>segment_type := type, seg_engine_id := engine_id, seg_session_number := 1,
      content := Data_Seg \<lparr>client_service_id = 1, ds_offset = off, ds_length = of_nat (length bs),
        ds_checkpoint_serial = serial, ds_report_serial = serial, ds_data = bs\<rparr>\<rparr>"

lemmas handler_defs =
  receive_segment_def receive_data_segment_def receive_report_segment_def receive_report_ack_def
  open_receiver_def new_receiver_def store_segment_data_def answer_checkpoint_def
  generate_report_def complete_receiver_def deliver_data_def send_report_ack_def
  send_segment_def note_sent_def arm_report_timer_def arm_checkpoint_timer_def arm_timer_def
  tally_def emit_def put_session_def erase_session_def emplace_session_def
  default_segment_def default_session_def grow_def VECTOR_MAX_def ALLOC_LIMIT_def copy_to_def read_range_def
  red_at_def report_seg_def ack_seg_def seg_types seg_preds Let_def

lemmas sample_defs = sample_peer_def sample_engine_def new_engine_def default_engine_config_def
  active_session_count_def fcard_fempty fcard_finsert_if

text \<open>A peer with a timer manager, and what its timers do.\<close>

definition sample_timed :: engine where
  "sample_timed = sample_peer\<lparr>timers := Some tm_init\<rparr>"

lemmas timed_defs = sample_timed_def start_timer_def tm_init_def cancel_timer_def timer_key_def
  disarm_report_def handle_timer_expiry_def segment_wf_def content_wf_cases is_valid_def
  segment_encode_bytes

lemma add_first: "add_range [] 0 1 = [\<lparr>claim_offset = 0, claim_length = 1\<rparr>]"
  by code_simp

section \<open>Offsets that do not fit\<close>

text \<open>The engine will store the data of the segment: it has an active session for it, or opens one.\<close>

definition stores :: "engine \<Rightarrow> ltp_segment \<Rightarrow> ltp_session \<Rightarrow> data_seg_content \<Rightarrow> bool" where
  "stores e seg s ds \<longleftrightarrow> is_data (segment_type seg) \<and> content seg = Data_Seg ds
     \<and> unat (ds_length ds) = length (ds_data ds) \<and> length (ds_data ds) < ALLOC_LIMIT
     \<and> length (client_data s) < ALLOC_LIMIT \<and> state s = ACTIVE
     \<and> (\<exists>e1. open_receiver e seg = Some (s, e1))"

lemma stores_fails:
  assumes st: "stores e seg s ds" and f: "store_segment_data (segment_type seg) ds s = Inl err"
  shows "receive_segment e seg = Inl err"
  using assms by (auto simp: stores_def receive_segment_def receive_data_segment_def Let_def)

lemma grow_small:
  "unat n < 2 ^ 62 \<Longrightarrow> length buf < 2 ^ 62 \<Longrightarrow> \<exists>buf'. grow buf n = Inr buf' \<and> length buf' < 2 ^ 62"
  by (simp add: grow_def VECTOR_MAX_def ALLOC_LIMIT_def)

lemma far_data_fails:
  assumes st: "stores e seg s ds" and far: "ALLOC_LIMIT \<le> unat (ds_offset ds) + unat (ds_length ds)"
    and ne: "ds_data ds \<noteq> []"
  shows "store_segment_data t ds s = Inl
    (if 2 ^ 64 \<le> unat (ds_offset ds) + unat (ds_length ds) then Undefined_Behaviour
     else if 2 ^ 63 \<le> unat (ds_offset ds) + unat (ds_length ds) then Length_Error else Bad_Alloc)"
proof (cases "2 ^ 64 \<le> unat (ds_offset ds) + unat (ds_length ds)")
  case True
  let ?o = "unat (ds_offset ds)" and ?l = "unat (ds_length ds)"
  have l: "?l = length (ds_data ds)" "?l < 2 ^ 62" "length (client_data s) < 2 ^ 62"
    using st by (simp_all add: stores_def ALLOC_LIMIT_def)
  have o: "?o < 2 ^ 64" using unsigned_less [of "ds_offset ds", where ?'a = nat] by simp
  have e: "unat (ds_offset ds + ds_length ds) = ?o + ?l - 2 ^ 64"
    using True l(2) o by (simp add: unat_word_ariths mod_if)
  then have "unat (ds_offset ds + ds_length ds) < 2 ^ 62" using l(2) o by linarith
  then obtain buf where g: "grow (client_data s) (ds_offset ds + ds_length ds) = Inr buf"
    "length buf < 2 ^ 62"
    using grow_small [OF _ l(3)] by blast
  have "ds_length ds > 0" using ne l(1) by (simp add: word_gt_0 unat_eq_0 [symmetric])
  then show ?thesis
    using True g l o by (simp add: store_segment_data_def Let_def copy_to_def)
next
  case False
  then have e: "unat (ds_offset ds + ds_length ds) = unat (ds_offset ds) + unat (ds_length ds)"
    using unat_plus_no_wrap [of "ds_offset ds" "ds_length ds"] by simp
  have "length (client_data s) < ALLOC_LIMIT" using st by (simp add: stores_def)
  then show ?thesis
    using False far by (simp add: store_segment_data_def Let_def grow_def e VECTOR_MAX_def ALLOC_LIMIT_def)
qed

section \<open>Reports about bytes that do not exist\<close>

lemma gap_loop_beyond:
  assumes m: "unat max_seg \<noteq> 0"
  shows "unat off + unat rem < 2 ^ 64 \<Longrightarrow> length (client_data s) < unat off + unat rem \<Longrightarrow> rem \<noteq> 0
    \<Longrightarrow> gap_loop s max_seg off rem segs = Some (Inl Undefined_Behaviour)"
proof (induction "unat rem" arbitrary: off rem segs rule: less_induct)
  case less
  let ?c = "min (ucast max_seg) rem"
  have r: "0 < rem" using less.prems(3) by (simp add: word_gt_0)
  show ?case
  proof (cases "unat off + unat ?c > length (client_data s)")
    case True
    then show ?thesis using r by (subst gap_loop.simps) (simp add: Let_def read_range_def)
  next
    case False
    have c: "?c \<le> rem" "unat ?c \<noteq> 0"
      using m less.prems(3) by (simp_all add: min_word_unat unat_ucast_u32 unat_gt_0)
    then have rc: "unat (rem - ?c) = unat rem - unat ?c" "unat ?c \<le> unat rem"
      by (simp_all add: unat_minus_no_wrap word_le_nat_alt)
    have oc: "unat (off + ?c) = unat off + unat ?c"
      using rc(2) less.prems(1) by (intro unat_plus_no_wrap) linarith
    have lt: "unat (rem - ?c) < unat rem" using c rc by linarith
    have "unat (rem - ?c) \<noteq> 0" using False less.prems(2) rc by linarith
    then have "rem - ?c \<noteq> 0" by (metis unat_0)
    then have "gap_loop s max_seg (off + ?c) (rem - ?c) segs' = Some (Inl Undefined_Behaviour)" for segs'
      using less.hyps [OF lt, of "off + ?c"] oc rc less.prems by simp
    then show ?thesis using r False by (subst gap_loop.simps) (simp add: Let_def read_range_def)
  qed
qed

lemma collect_gaps_beyond:
  assumes m: "unat max_seg \<noteq> 0" and len: "length (client_data s) < 2 ^ 64"
  shows "\<forall>g \<in> set gaps. unat (claim_offset g) + unat (claim_length g) < 2 ^ 64
    \<Longrightarrow> \<exists>i \<in> covered gaps. length (client_data s) \<le> i
    \<Longrightarrow> collect_gaps s max_seg gaps segs = Inl Undefined_Behaviour"
proof (induction gaps arbitrary: segs)
  case (Cons g gaps)
  let ?n = "unat (claim_offset g) + unat (claim_length g)"
  show ?case
  proof (cases "?n \<le> length (client_data s)")
    case True
    then have "\<exists>i \<in> covered gaps. length (client_data s) \<le> i" using Cons.prems(2) by (auto simp: claim_set_def)
    then show ?thesis using Cons True by (simp add: gap_loop_eq [OF m len] slice_def)
  next
    case False
    have "claim_length g \<noteq> 0" if "\<not> (\<exists>i \<in> covered gaps. length (client_data s) \<le> i)"
      using that Cons.prems(2) by (auto simp: claim_set_def)
    show ?thesis
    proof (cases "claim_length g = 0")
      case True
      then have "\<exists>i \<in> covered gaps. length (client_data s) \<le> i"
        using Cons.prems(2) by (auto simp: claim_set_def)
      then have ih: "collect_gaps s max_seg gaps segs = Inl Undefined_Behaviour" using Cons by simp
      have "gap_loop s max_seg (claim_offset g) (claim_length g) segs = Some (Inr segs)"
        using True by (subst gap_loop.simps) simp
      then show ?thesis using ih by simp
    next
      case nz: False
      show ?thesis using gap_loop_beyond [OF m _ _ nz, of "claim_offset g" s segs] False Cons.prems(1) by simp
    qed
  qed
qed simp

lemma report_beyond_fails:
  assumes o: "originating d k c e" and len: "length d < 2 ^ 59" and m: "max_segment_size (config e) \<noteq> 0"
    and inv: "tracker_inv rs" and got: "\<not> {0 ..< length d} \<subseteq> covered rs"
    and i: "length d \<le> i" "i < unat upper" "i \<notin> covered rs"
    and lim: "c + 1 \<le> max_retransmissions (config e)"
  shows "receive_segment e (report_seg k serial cp upper rs) = Inl Undefined_Behaviour"
proof -
  let ?e0 = "tally reports_received_update e"
  obtain n where s: "fmlookup (sessions e) k = Some ((originator k d True)
      \<lparr>checkpoint_serial_counter := n, retransmission_count := c\<rparr>)"
    and k: "k = (local_engine_id (config e), snd k)" using o unfolding originating_def
    by (metis prod.collapse)
  let ?s = "(originator k d True)\<lparr>checkpoint_serial_counter := n, retransmission_count := c\<rparr>"
  let ?s1 = "?s\<lparr>retransmission_count := c + 1\<rparr>"
  have lk: "fmlookup (sessions e) (local_engine_id (config e), snd k) = Some ?s" using s k by simp
  from send_segment_ok [OF segment_wf_fits [OF ack_seg_wf], of ?e0 k serial] obtain e1 where
    e1: "send_segment ?e0 (ack_seg k serial) = Inr e1" "same_sessions ?e0 e1" by blast
  let ?e2 = "disarm_checkpoint (timer_key (snd k) cp) e1"
  have f: "same_sessions e ?e2" using frame_trans [OF frame_tally(6) frame_trans [OF e1(2) frame_disarm(1)]] .
  have ack: "send_report_ack ?e0 (fst k) (snd k) serial = Inr e1"
    using e1(1) by (simp add: send_report_ack_def ack_seg_def)
  let ?rs = "\<lparr>rs_report_serial = serial, rs_checkpoint_serial = cp, rs_upper_bound = upper,
      rs_lower_bound = 0, rs_claims = rs\<rparr>"
  have nf: "\<not> fully_reported ?s ?rs" using got by (intro partial_report [OF len]) auto
  let ?gaps = "get_gaps rs 0 upper"
  have gi: "i \<in> covered ?gaps" using covered_gaps [OF inv, of 0 upper] i by simp
  then have gne: "?gaps \<noteq> []" by auto
  have fits: "\<forall>g \<in> set ?gaps. unat (claim_offset g) + unat (claim_length g) < 2 ^ 64"
    using tracker_inv_range_ok [OF tracker_inv_gaps [OF inv, of 0 upper]] by (simp add: range_ok_def)
  have "collect_gaps ?s1 (max_segment_size (config e)) ?gaps [] = Inl Undefined_Behaviour"
    using m len gi i(1) fits by (intro collect_gaps_beyond) (auto simp: originator_def unat_eq_0)
  then have "retransmit_gaps e3 ?s1 ?gaps = Inl Undefined_Behaviour" if "config e3 = config e" for e3
    using that by (simp add: retransmit_gaps_def)
  then show ?thesis
    using lk ack nf gne lim k frame_core [OF f]
    by (simp add: receive_segment_def report_seg_def default_segment_def seg_types is_data_def
        receive_report_segment_def Let_def compute_gaps_eq not_less [symmetric])
qed

section \<open>Segments at the wrong moment or for the wrong role\<close>

text \<open>A red segment that neither ends the block nor asks for a report.\<close>

definition middle_piece :: "session_key \<Rightarrow> ltp_segment \<Rightarrow> data_seg_content \<Rightarrow> bool" where
  "middle_piece k seg ds \<longleftrightarrow> is_red (segment_type seg) \<and> \<not> has_eob (segment_type seg)
     \<and> \<not> has_checkpoint (segment_type seg) \<and> k = (seg_engine_id seg, seg_session_number seg)
     \<and> content seg = Data_Seg ds \<and> unat (ds_length ds) = length (ds_data ds)
     \<and> unat (ds_offset ds) + length (ds_data ds) < ALLOC_LIMIT"

lemma store_middle:
  assumes p: "middle_piece k seg ds" and t: "total_data_length s = t" and b: "length (client_data s) < ALLOC_LIMIT"
  shows "\<exists>s'. store_segment_data (segment_type seg) ds s = Inr s' \<and> total_data_length s' = t
    \<and> role s' = role s \<and> length (client_data s') < ALLOC_LIMIT
    \<and> (unat (ds_offset ds) + length (ds_data ds) \<le> length (client_data s) \<longrightarrow> client_data s' =
        take (unat (ds_offset ds)) (client_data s) @ ds_data ds
          @ drop (unat (ds_offset ds) + length (ds_data ds)) (client_data s))"
proof -
  let ?o = "unat (ds_offset ds)" and ?l = "length (ds_data ds)"
  have l: "unat (ds_length ds) = ?l" "?o + ?l < ALLOC_LIMIT" and eob: "\<not> has_eob (segment_type seg)"
    using p by (simp_all add: middle_piece_def)
  have e: "unat (ds_offset ds + ds_length ds) = ?o + ?l"
    using l unat_plus_no_wrap [of "ds_offset ds" "ds_length ds"] by (simp add: ALLOC_LIMIT_def)
  let ?buf = "client_data s @ replicate (?o + ?l - length (client_data s)) 0"
  have g: "grow (client_data s) (ds_offset ds + ds_length ds) = Inr ?buf"
    using e l(2) by (simp add: grow_def VECTOR_MAX_def ALLOC_LIMIT_def)
  let ?new = "take ?o ?buf @ ds_data ds @ drop (?o + ?l) ?buf"
  have c: "(if ds_length ds > 0 then copy_to ?buf ?o (ds_data ds) else Inr ?buf) = Inr ?new"
  proof (cases "ds_length ds > 0")
    case True
    then show ?thesis by (simp add: copy_to_def)
  next
    case False
    then have "ds_data ds = []" using l(1) by (simp add: word_gt_0)
    then have "?new = ?buf" by (metis append_Nil append_take_drop_id add_0_right list.size(3))
    then show ?thesis using False by simp
  qed
  have "length ?new < ALLOC_LIMIT" using b l(2) by simp
  then show ?thesis using g c eob t
    by (intro exI [of _ "s\<lparr>client_data := ?new, reception_tracker :=
        add_range (reception_tracker s) (ds_offset ds) (ds_length ds)\<rparr>"])
      (simp add: store_segment_data_def)
qed

lemma middle_received:
  assumes p: "middle_piece k seg ds" and o: "open_receiver e seg = Some (s, e1)"
    and a: "state s = ACTIVE" and st: "store_segment_data (segment_type seg) ds s = Inr s'"
  shows "receive_segment e seg = Inr (put_session k s' (tally red_segments_received_update e1))"
proof -
  have "is_data (segment_type seg)" "\<not> is_green (segment_type seg)"
    using p order_trans [of "segment_type seg" 3 5] red_not_green
    by (auto simp: middle_piece_def seg_preds)
  then show ?thesis using assms
    by (simp add: middle_piece_def receive_segment_def receive_data_segment_def answer_checkpoint_def Let_def)
qed

lemma early_ack_empty:
  assumes p: "middle_piece k seg ds" and room: "has_room k e" and on: "on_data_arrival e"
  shows "\<exists>e1 e2. receive_segment e seg = Inr e1 \<and> receive_segment e1 (ack_seg k serial) = Inr e2
    \<and> events e2 = events e @ [Arrived []] \<and> fmlookup (sessions e2) k = None"
proof -
  have k: "k = (seg_engine_id seg, seg_session_number seg)" using p by (simp add: middle_piece_def)
  let ?s = "new_receiver seg" and ?e0 = "tally sessions_received_update (put_session k (new_receiver seg) e)"
  have s0: "total_data_length ?s = 0" "length (client_data ?s) < ALLOC_LIMIT" "state ?s = ACTIVE" "role ?s = RECEIVER"
    by (simp_all add: new_receiver_def default_session_def ALLOC_LIMIT_def)
  from store_middle [OF p s0(1,2)] obtain s' where
    s': "store_segment_data (segment_type seg) ds ?s = Inr s'" "total_data_length s' = 0" "role s' = RECEIVER"
    using s0(4) by auto
  let ?e1 = "put_session k s' (tally red_segments_received_update ?e0)"
  have e1: "receive_segment e seg = Inr ?e1"
    using middle_received [OF p open_new [OF room k] s0(3) s'(1)] .
  have lk: "fmlookup (sessions ?e1) (fst k, snd k) = Some s'" "on_data_arrival ?e1" "events ?e1 = events e"
    using on by (simp_all add: put_session_def tally_def)
  let ?e2 = "disarm_report (timer_key (snd k) serial) (tally report_acks_received_update ?e1)"
  have d: "events ?e2 = events e" "on_data_arrival ?e2 = True"
    using lk by (simp_all add: disarm_report_def tally_def split: option.split)
  let ?e3 = "erase_session k (emit True (Arrived [])
      (tally sessions_completed_update (put_session k (s'\<lparr>state := COMPLETED\<rparr>) ?e2)))"
  have r: "receive_segment ?e1 (ack_seg k serial) = Inr ?e3"
    using lk s' d
    by (simp add: receive_segment_def ack_seg_def default_segment_def seg_types is_data_def receive_report_ack_def
        Let_def is_complete_def complete_receiver_def deliver_data_def read_range_def tally_def put_session_def)
  have "events ?e3 = events e @ [Arrived []]" using d(1) by (simp add: tally_def)
  moreover have "fmlookup (sessions ?e3) k = None" by (simp add: erase_session_def)
  ultimately show ?thesis using e1 r by blast
qed

lemma forged_data_stored:
  assumes p: "middle_piece k seg ds" and o: "originating d k c e"
    and fit: "unat (ds_offset ds) + length (ds_data ds) \<le> length d" and len: "length d < 2 ^ 59"
  shows "\<exists>e' s. receive_segment e seg = Inr e' \<and> fmlookup (sessions e') k = Some s \<and> role s = ORIGINATOR
    \<and> client_data s = take (unat (ds_offset ds)) d @ ds_data ds
        @ drop (unat (ds_offset ds) + length (ds_data ds)) d"
proof -
  obtain n where s: "fmlookup (sessions e) k = Some ((originator k d True)
      \<lparr>checkpoint_serial_counter := n, retransmission_count := c\<rparr>)" using o by (auto simp: originating_def)
  let ?s = "(originator k d True)\<lparr>checkpoint_serial_counter := n, retransmission_count := c\<rparr>"
  have k: "k = (seg_engine_id seg, seg_session_number seg)" using p by (simp add: middle_piece_def)
  have op: "open_receiver e seg = Some (?s, e)" using s k by (simp add: open_receiver_def)
  have b: "length (client_data ?s) < ALLOC_LIMIT" "state ?s = ACTIVE" using len by (simp_all add: ALLOC_LIMIT_def)
  from store_middle [OF p refl b(1)] fit obtain s' where
    s': "store_segment_data (segment_type seg) ds ?s = Inr s'" "role s' = ORIGINATOR"
      "client_data s' = take (unat (ds_offset ds)) d @ ds_data ds
        @ drop (unat (ds_offset ds) + length (ds_data ds)) d"
    by auto
  show ?thesis using middle_received [OF p op b(2) s'(1)] s'(2,3)
    by (intro exI [of _ "put_session k s' (tally red_segments_received_update e)"] exI [of _ s'])
      (simp add: put_session_def)
qed

lemma repeated_report_wrong_checkpoint:
  "rbind (receive_segment sample_timed (red_at 2 RED_DATA_CP_EORP_EOB (Some 9) 0 [7]))
     (\<lambda>e. rbind (handle_timer_expiry e
        \<lparr>ev_type = REPORT_TIMER, ev_engine_id = 2, ev_session_number = 1, ev_serial_number = 1\<rparr>)
     (\<lambda>e. Inr (events e)))
   = (let claims = [\<lparr>claim_offset = 0, claim_length = 1\<rparr>]
      in Inr [Sent (segment_bytes (report_seg (2, 1) 1 9 1 claims)),
              Sent (segment_bytes (report_seg (2, 1) 2 1 1 claims))])"
  by (simp add: handler_defs sample_defs timed_defs add_first)

lemma report_timer_shared:
  "rbind (receive_segment sample_timed (red_at 2 RED_DATA_CP (Some 9) 0 [7]))
     (\<lambda>e. rbind (receive_segment e (red_at 3 RED_DATA_CP (Some 9) 0 [7]))
     (\<lambda>e. rbind (receive_segment e (ack_seg (2, 1) 1))
     (\<lambda>e. Inr (map_option (\<lambda>tm. (map (ev_engine_id \<circ> te_event) (heap tm), cancelled tm)) (timers e)))))
   = Inr (Some ([3, 2], {2}))"
  by (simp add: handler_defs sample_defs timed_defs add_first)

section \<open>Properties\<close>

text \<open>C19. The numbers of a data segment are not checked before the reassembly buffer is sized by
  them: whichever engine stores a segment with data whose offset and length add up to 2^62 or more,
  the call ends in \<open>std::bad_alloc\<close>, from 2^63 on in \<open>std::length_error\<close>, and from
  2^64 on, where the sum wraps, in a copy outside the buffer.\<close>

theorem hostile_segments_fault:
  assumes "stores e seg s ds" "ds_data ds \<noteq> []"
    and "ALLOC_LIMIT \<le> unat (ds_offset ds) + unat (ds_length ds)"
  shows "receive_segment e seg = Inl
    (if 2 ^ 64 \<le> unat (ds_offset ds) + unat (ds_length ds) then Undefined_Behaviour
     else if 2 ^ 63 \<le> unat (ds_offset ds) + unat (ds_length ds) then Length_Error else Bad_Alloc)"
  using stores_fails [OF assms(1) far_data_fails [OF assms(1,3,2)]] .

definition far_data :: "u64 \<Rightarrow> data_seg_content" where
  "far_data off = \<lparr>client_service_id = 1, ds_offset = off, ds_length = 2, ds_checkpoint_serial = None,
     ds_report_serial = None, ds_data = [7, 7]\<rparr>"

lemma sample_stores:
  "stores sample_peer (red_at 2 RED_DATA None off [7, 7]) (new_receiver (red_at 2 RED_DATA None off [7, 7])) (far_data off)"
  by (simp add: stores_def far_data_def handler_defs sample_defs)

theorem hostile_segments_fault_witness:
  "receive_segment sample_peer (red_at 2 RED_DATA None (2 ^ 62) [7, 7]) = Inl Bad_Alloc
   \<and> receive_segment sample_peer (red_at 2 RED_DATA None (2 ^ 63) [7, 7]) = Inl Length_Error
   \<and> receive_segment sample_peer (red_at 2 RED_DATA None (2 ^ 64 - 1) [7, 7]) = Inl Undefined_Behaviour"
  using hostile_segments_fault [OF sample_stores, of "2 ^ 62"] hostile_segments_fault [OF sample_stores, of "2 ^ 63"]
    hostile_segments_fault [OF sample_stores, of "2 ^ 64 - 1"]
  by (simp add: far_data_def ALLOC_LIMIT_def)

text \<open>A report is believed about bytes that do not exist: whenever a report misses a byte
  beyond the end of the block that an originator is sending (and does not yet confirm the whole
  block, nor exceed the limit of retransmissions), the retransmission reads outside the block.\<close>

theorem report_beyond_block:
  assumes "originating d k c e" "length d < 2 ^ 59" "max_segment_size (config e) \<noteq> 0"
    and "tracker_inv rs" "\<not> {0 ..< length d} \<subseteq> covered rs" "c + 1 \<le> max_retransmissions (config e)"
    and "length d \<le> i" "i < unat upper" "i \<notin> covered rs"
  shows "receive_segment e (report_seg k serial cp upper rs) = Inl Undefined_Behaviour"
  using report_beyond_fails [OF assms(1-5) assms(7-9) assms(6)] .

lemma sample_originating: "originating [1, 2, 3] (1, 1) 0 sample_sending"
  by (simp add: originating_def sample_sending_def sample_defs put_session_def originator_def default_session_def)

theorem report_beyond_block_witness:
  "receive_segment sample_sending (report_seg (1, 1) 1 1 4 []) = Inl Undefined_Behaviour"
  using report_beyond_block [OF sample_originating, of "[]" 3 4]
  by (simp add: sample_sending_def sample_defs put_session_def)

text \<open>C20. A report acknowledgment closes a session whose total length is not yet known: whatever
  segment, neither ending the block nor asking for a report, opens the session, and whatever serial
  the acknowledgment gives although no report was sent, the session is completed and an empty block
  is handed to the data callback.\<close>

theorem sessions_confused:
  assumes "middle_piece k seg ds" "has_room k e" "on_data_arrival e"
  shows "\<exists>e1 e2. receive_segment e seg = Inr e1 \<and> receive_segment e1 (ack_seg k serial) = Inr e2
    \<and> events e2 = events e @ [Arrived []] \<and> fmlookup (sessions e2) k = None"
  using early_ack_empty [OF assms] .

lemma sample_middle: "middle_piece (i, 1) (red_at i RED_DATA None 0 [7]) \<lparr>client_service_id = 1, ds_offset = 0,
    ds_length = 1, ds_checkpoint_serial = None, ds_report_serial = None, ds_data = [7]\<rparr>"
  by (simp add: middle_piece_def red_at_def default_segment_def seg_types seg_preds ALLOC_LIMIT_def)

theorem sessions_confused_witness:
  "\<exists>e1 e2. receive_segment sample_peer (red_at 2 RED_DATA None 0 [7]) = Inr e1
    \<and> receive_segment e1 (ack_seg (2, 1) 99) = Inr e2 \<and> events e2 = [Arrived []]"
proof -
  have "has_room (2, 1) sample_peer" "on_data_arrival sample_peer" "events sample_peer = []"
    by (simp_all add: has_room_def sample_defs)
  with sessions_confused [OF sample_middle, of 2 sample_peer 99] show ?thesis by fastforce
qed

text \<open>A data segment that names a session of the originator is stored in it: the bytes of any
  such segment that fit the block replace those of the block, so that they, not the bundle, are
  sent when a report asks for them again.\<close>

theorem forged_data_overwrites:
  assumes "middle_piece k seg ds" "originating d k c e" "length d < 2 ^ 59"
    and "unat (ds_offset ds) + length (ds_data ds) \<le> length d"
  shows "\<exists>e' s. receive_segment e seg = Inr e' \<and> fmlookup (sessions e') k = Some s \<and> role s = ORIGINATOR
    \<and> client_data s = take (unat (ds_offset ds)) d @ ds_data ds
        @ drop (unat (ds_offset ds) + length (ds_data ds)) d"
  using forged_data_stored [OF assms(1,2,4,3)] .

theorem forged_data_overwrites_witness:
  "\<exists>e' s. receive_segment sample_sending (red_at 1 RED_DATA None 0 [7]) = Inr e'
    \<and> fmlookup (sessions e') (1, 1) = Some s \<and> client_data s = [7, 2, 3]"
  using forged_data_overwrites [OF sample_middle sample_originating] by fastforce

text \<open>Report timers use the wrong names: a report sent again by its timer gives the serial of the
  lost report (1) as the checkpoint it answers (9), and since timers are found by session number
  and report serial without the engine, two engines with the same session number share an entry,
  so that the acknowledgment of the first report cancels the timer of the second.\<close>

theorem report_timers_confused:
  "rbind (receive_segment sample_timed (red_at 2 RED_DATA_CP_EORP_EOB (Some 9) 0 [7]))
     (\<lambda>e. rbind (handle_timer_expiry e
        \<lparr>ev_type = REPORT_TIMER, ev_engine_id = 2, ev_session_number = 1, ev_serial_number = 1\<rparr>)
     (\<lambda>e. Inr (events e)))
   = (let claims = [\<lparr>claim_offset = 0, claim_length = 1\<rparr>]
      in Inr [Sent (segment_bytes (report_seg (2, 1) 1 9 1 claims)),
              Sent (segment_bytes (report_seg (2, 1) 2 1 1 claims))])
   \<and> rbind (receive_segment sample_timed (red_at 2 RED_DATA_CP (Some 9) 0 [7]))
     (\<lambda>e. rbind (receive_segment e (red_at 3 RED_DATA_CP (Some 9) 0 [7]))
     (\<lambda>e. rbind (receive_segment e (ack_seg (2, 1) 1))
     (\<lambda>e. Inr (map_option (\<lambda>tm. (map (ev_engine_id \<circ> te_event) (heap tm), cancelled tm)) (timers e)))))
   = Inr (Some ([3, 2], {2}))"
  using repeated_report_wrong_checkpoint report_timer_shared by blast

end
