(* ===== verification/Crc.thy ===== *)
theory Crc
  imports Prelude
begin

text \<open>
  The CRC-32 of \<^verbatim>\<open>src/frame_builder.cpp\<close>: the table built at compile time and
  \<open>FrameBuilder::compute_crc32\<close>. The lemmas read one table step as eight steps of the shift
  register, which is linear and injective; the properties compare the table-driven code with the
  bit-serial definition of the checksum and give the errors it always detects.
\<close>

section \<open>The code\<close>

text \<open>One turn of the inner loop of \<open>make_crc32_table\<close>.\<close>

definition crc_shift :: "u32 \<Rightarrow> u32" where
  "crc_shift crc = (if crc AND 1 \<noteq> 0 then drop_bit 1 crc XOR 0xEDB88320 else drop_bit 1 crc)"

definition make_crc32_table :: "u32 list" where
  "make_crc32_table = map (\<lambda>i. (crc_shift ^^ 8) (of_nat i)) [0 ..< 256]"

definition crc_step :: "u32 \<Rightarrow> u8 \<Rightarrow> u32" where
  "crc_step crc byte = make_crc32_table ! unat ((crc XOR ucast byte) AND 0xFF) XOR drop_bit 8 crc"

definition compute_crc32 :: "bytes \<Rightarrow> u32" where
  "compute_crc32 data = foldl crc_step 0xFFFFFFFF data XOR 0xFFFFFFFF"

section \<open>The shift register\<close>

lemma crc_shift_odd: "crc_shift c = drop_bit 1 c XOR (if bit c 0 then 0xEDB88320 else 0)"
  by (simp add: crc_shift_def and_one_eq odd_iff_mod_2_eq_one bit_0)

lemma crc_shift_xor: "crc_shift (x XOR y) = crc_shift x XOR crc_shift y"
  by (simp add: crc_shift_odd drop_bit_xor bit_xor_iff xor.assoc xor.left_commute)

lemma crc_shifts_xor: "(crc_shift ^^ n) (x XOR y) = (crc_shift ^^ n) x XOR (crc_shift ^^ n) y"
  by (induction n) (simp_all add: crc_shift_xor)

lemma crc_shift_0 [simp]: "crc_shift 0 = 0"
  by (simp add: crc_shift_odd)

lemma crc_shift_eq_0: "crc_shift c = 0 \<Longrightarrow> c = 0"
proof -
  assume "crc_shift c = 0"
  then have z: "bit (crc_shift c) n = False" for n by simp
  have b0: "\<not> bit c 0"
    using z [of 31] by (auto simp: crc_shift_odd bit_xor_iff bit_drop_bit_eq dest: bit_imp_le_length)
  have "bit c (Suc n) = False" for n
    using z [of n] b0 by (simp add: crc_shift_odd bit_xor_iff bit_drop_bit_eq)
  then show "c = 0" using b0 by (metis bit_eqI bit_0_eq bot_apply bot_bool_def not0_implies_Suc)
qed

lemma crc_shifts_eq: "(crc_shift ^^ n) x = (crc_shift ^^ n) y \<longleftrightarrow> x = y"
proof
  have z: "(crc_shift ^^ n) c = 0 \<Longrightarrow> c = 0" for c
    by (induction n) (auto dest: crc_shift_eq_0)
  assume "(crc_shift ^^ n) x = (crc_shift ^^ n) y"
  then have "(crc_shift ^^ n) (x XOR y) = 0" by (simp add: crc_shifts_xor)
  then show "x = y" using z by (metis xor.left_neutral xor_self_eq xor.assoc xor.right_neutral)
qed simp

text \<open>While the low bits are zero the register only shifts.\<close>

lemma crc_shifts_low: "take_bit n x = 0 \<Longrightarrow> (crc_shift ^^ n) x = drop_bit n x"
proof (induction n arbitrary: x)
  case (Suc n)
  have b: "\<not> bit x i" if "i < Suc n" for i
    using Suc.prems that by (metis bit_0_eq bit_take_bit_iff bot_apply bot_bool_def)
  have "crc_shift x = drop_bit 1 x" using b [of 0] by (simp add: crc_shift_odd)
  moreover have "take_bit n (drop_bit 1 x) = 0"
    by (rule bit_eqI) (use b in \<open>auto simp: bit_take_bit_iff bit_drop_bit_eq\<close>)
  ultimately show ?case using Suc.IH by (simp add: funpow_swap1)
qed simp

lemma xor_cancel:
  "a XOR c = b XOR c \<longleftrightarrow> a = b" "c XOR a = c XOR b \<longleftrightarrow> a = b" for a b c :: "'a :: len word"
  by (metis xor.assoc xor.right_neutral xor_self_eq) (metis xor.assoc xor.left_neutral xor_self_eq)

lemma and_FF: "x AND 0xFF = take_bit 8 (x :: u32)"
  by (simp add: take_bit_eq_mask mask_eq_exp_minus_1)

lemma crc_shifts_push:
  assumes "n + 8 \<le> 32"
  shows "(crc_shift ^^ n) (push_bit n (ucast (b :: u8))) = ucast b"
proof -
  have "take_bit n (push_bit n (ucast b :: u32)) = 0" by (rule bit_eqI) (simp add: bit_simps)
  moreover have "drop_bit n (push_bit n (ucast b :: u32)) = ucast b"
    using assms by (intro bit_eqI) (auto simp: bit_simps dest: bit_imp_le_length)
  ultimately show ?thesis by (simp only: crc_shifts_low)
qed

lemma crc_shifts_byte: "(crc_shift ^^ 8) x = (crc_shift ^^ 8) (x AND 0xFF) XOR drop_bit 8 x"
proof -
  have "x = (x AND 0xFF) XOR push_bit 8 (drop_bit 8 x)"
    unfolding and_FF by (rule bit_eqI) (auto simp: bit_simps)
  moreover have "(crc_shift ^^ 8) (push_bit 8 (drop_bit 8 x)) = drop_bit 8 x"
  proof -
    have "take_bit 8 (push_bit 8 (drop_bit 8 x)) = 0" by (rule bit_eqI) (simp add: bit_simps)
    moreover have "drop_bit 8 (push_bit 8 (drop_bit 8 x)) = drop_bit 8 x"
      by (rule bit_eqI) (auto simp: bit_simps dest: bit_imp_le_length)
    ultimately show ?thesis by (simp only: crc_shifts_low)
  qed
  ultimately show ?thesis by (metis crc_shifts_xor)
qed

text \<open>A table step is eight turns of the register on the byte.\<close>

lemma crc_step_shifts: "crc_step crc byte = (crc_shift ^^ 8) (crc XOR ucast byte)"
proof -
  let ?x = "crc XOR ucast byte"
  have "unat (take_bit 8 y) < 256" for y :: u32
    by (simp add: unsigned_take_bit_eq take_bit_nat_less_exp [where n = 8, simplified])
  then have "unat (?x AND 0xFF) < 256" unfolding and_FF .
  then have "make_crc32_table ! unat (?x AND 0xFF) = (crc_shift ^^ 8) (?x AND 0xFF)"
    by (simp add: make_crc32_table_def)
  moreover have "drop_bit 8 ?x = drop_bit 8 crc"
    by (rule bit_eqI) (auto simp: bit_simps dest: bit_imp_le_length)
  ultimately show ?thesis by (simp add: crc_step_def crc_shifts_byte [of ?x])
qed

section \<open>Bursts\<close>

text \<open>The bytes of a burst as one word, first byte lowest.\<close>

fun burst_word :: "bytes \<Rightarrow> u32" where
  "burst_word [] = 0"
| "burst_word (b # bs) = ucast b XOR push_bit 8 (burst_word bs)"

lemma burst_word_bound: "length bs \<le> 4 \<Longrightarrow> take_bit (8 * length bs) (burst_word bs) = burst_word bs"
proof (induction bs)
  case (Cons b bs)
  show ?case
  proof (rule bit_eqI)
    fix n assume "possible_bit TYPE(u32) n"
    have "bit (burst_word bs) (n - 8) \<Longrightarrow> n - 8 < 8 * length bs"
      using Cons by (metis Suc_leD bit_take_bit_iff length_Cons)
    then show "bit (take_bit (8 * length (b # bs)) (burst_word (b # bs))) n = bit (burst_word (b # bs)) n"
      by (auto simp: bit_simps dest: bit_imp_le_length)
  qed
qed simp

lemma crc_burst_steps:
  "length bs \<le> 4 \<Longrightarrow> foldl crc_step crc bs = (crc_shift ^^ (8 * length bs)) (crc XOR burst_word bs)"
proof (induction bs rule: rev_induct)
  case (snoc b bs)
  let ?n = "8 * length bs"
  have w: "burst_word (bs @ [b]) = burst_word bs XOR push_bit ?n (ucast b)"
    by (induction bs) (simp_all add: push_bit_xor xor.assoc add.commute)
  have p: "(crc_shift ^^ ?n) (push_bit ?n (ucast b)) = ucast b"
    using snoc.prems by (intro crc_shifts_push) simp
  have "foldl crc_step crc (bs @ [b]) = (crc_shift ^^ 8) ((crc_shift ^^ ?n) (crc XOR burst_word bs) XOR ucast b)"
  proof -
    have "foldl crc_step crc bs = (crc_shift ^^ ?n) (crc XOR burst_word bs)" using snoc by simp
    then show ?thesis unfolding foldl_append foldl.simps crc_step_shifts [of _ b] by (rule arg_cong)
  qed
  also have "(crc_shift ^^ ?n) (crc XOR burst_word bs) XOR ucast b = (crc_shift ^^ ?n) (crc XOR burst_word (bs @ [b]))"
    by (simp only: w crc_shifts_xor p xor.assoc)
  finally show ?case by (simp add: funpow_add)
qed simp

lemma burst_word_inj: "length xs = length ys \<Longrightarrow> length xs \<le> 4 \<Longrightarrow> burst_word xs = burst_word ys \<Longrightarrow> xs = ys"
proof (induction xs ys rule: list_induct2)
  case (Cons x xs y ys)
  have eq: "bit (ucast x XOR push_bit 8 (burst_word xs)) n = bit (ucast y XOR push_bit 8 (burst_word ys)) n" for n
    using Cons.prems(2) by simp
  have "x = y"
  proof (rule bit_word_eqI)
    fix n :: nat assume "n < LENGTH(8)"
    then show "bit x n = bit y n" using eq [of n] by (simp add: bit_simps)
  qed
  moreover have "burst_word xs = burst_word ys"
  proof (rule bit_word_eqI)
    fix n assume n: "n < LENGTH(32)"
    show "bit (burst_word xs) n = bit (burst_word ys) n"
    proof (cases "n + 8 < 32")
      case True
      have "\<not> bit y (n + 8)" by (auto dest: bit_imp_le_length)
      then show ?thesis using True eq [of "n + 8"] \<open>x = y\<close> by (simp add: bit_simps)
    next
      case False
      have "8 * length xs \<le> n" "8 * length ys \<le> n" using Cons False by auto
      then show ?thesis using burst_word_bound [of xs] burst_word_bound [of ys] Cons
        by (metis Suc_leD bit_take_bit_iff leD length_Cons)
    qed
  qed
  ultimately show ?case using Cons by simp
qed simp

lemma crc_fold_inj: "foldl crc_step c bs = foldl crc_step c' bs \<longleftrightarrow> c = c'"
proof (induction bs arbitrary: c c')
  case (Cons b bs)
  have "crc_step c b = crc_step c' b \<longleftrightarrow> c = c'"
    unfolding crc_step_shifts crc_shifts_eq xor_cancel ..
  then show ?case using Cons by simp
qed simp

lemma crc_burst:
  assumes "length xs = length ys" "length xs \<le> 4" "xs \<noteq> ys"
  shows "compute_crc32 (pre @ xs @ post) \<noteq> compute_crc32 (pre @ ys @ post)"
proof
  let ?c = "foldl crc_step 0xFFFFFFFF pre"
  assume "compute_crc32 (pre @ xs @ post) = compute_crc32 (pre @ ys @ post)"
  then have "foldl crc_step ?c xs = foldl crc_step ?c ys"
    by (simp add: compute_crc32_def xor_cancel crc_fold_inj)
  then have "burst_word xs = burst_word ys"
    using assms by (simp add: crc_burst_steps crc_shifts_eq xor_cancel)
  then show False using burst_word_inj assms by blast
qed

section \<open>Properties\<close>

text \<open>The bits of a message in the order of the reflected register, and the textbook division.\<close>

definition message_bits :: "bytes \<Rightarrow> bool list" where
  "message_bits data = concat (map (\<lambda>b. map (bit b) [0 ..< 8]) data)"

definition bit_serial :: "bool list \<Rightarrow> u32" where
  "bit_serial bs = foldl (\<lambda>c b. crc_shift (c XOR of_bool b)) 0xFFFFFFFF bs XOR 0xFFFFFFFF"

text \<open>The table-driven checksum is the CRC-32 division of the message, bit by bit and lowest
  bit of each byte first, by the reflected polynomial 0xEDB88320, with all-ones preset and final
  complement.\<close>

theorem crc_table_bit_serial: "compute_crc32 data = bit_serial (message_bits data)"
proof -
  have bits: "foldl (\<lambda>c b. crc_shift (c XOR of_bool b)) c (map (bit x) [0 ..< n])
      = (crc_shift ^^ n) (c XOR ucast (take_bit n x))" if "n \<le> 8" for c :: u32 and x :: u8 and n
    using that
  proof (induction n)
    case (Suc n)
    let ?b = "of_bool (bit x n)"
    have "ucast (take_bit (Suc n) x) = ucast (take_bit n x) XOR push_bit n (ucast (?b :: u8) :: u32)"
      by (rule bit_eqI) (auto simp: bit_simps less_Suc_eq)
    moreover have "(crc_shift ^^ n) (push_bit n (ucast (?b :: u8))) = ucast (?b :: u8)"
      using Suc.prems by (intro crc_shifts_push) simp
    moreover have "ucast (?b :: u8) = (?b :: u32)" by simp
    ultimately show ?case using Suc by (simp add: crc_shifts_xor crc_shift_xor xor.assoc)
  qed simp
  have "take_bit 8 (x :: u8) = x" for x
    by (rule bit_eqI) (auto simp: bit_simps dest: bit_imp_le_length)
  then have "foldl (\<lambda>c b. crc_shift (c XOR of_bool b)) c (message_bits data) = foldl crc_step c data" for c
    by (induction data arbitrary: c) (simp_all add: message_bits_def crc_step_shifts bits [of 8, simplified] del: upt_rec_numeral)
  then show ?thesis by (simp add: compute_crc32_def bit_serial_def)
qed

text \<open>Corruption confined to four consecutive bytes always changes the checksum.\<close>

theorem crc_detects_bursts:
  assumes "length xs = length ys" "length xs \<le> 4" "xs \<noteq> ys"
  shows "compute_crc32 (pre @ xs @ post) \<noteq> compute_crc32 (pre @ ys @ post)"
  using crc_burst assms by blast

theorem crc_detects_bursts_witness:
  "compute_crc32 ([1] @ [2, 3, 4, 5] @ [6]) \<noteq> compute_crc32 ([1] @ [2, 3, 5, 4] @ [6])"
  using crc_detects_bursts [of "[2, 3, 4, 5]" "[2, 3, 5, 4]" "[1]" "[6]"] by simp

text \<open>The check value of the standard: the checksum of the digits 1 to 9.\<close>

lemma crc_shift_eight:
  "(crc_shift ^^ 8) x = crc_shift (crc_shift (crc_shift (crc_shift (crc_shift (crc_shift (crc_shift (crc_shift x)))))))"
  by (simp add: eval_nat_numeral)

lemmas crc_shift_numeral = crc_shift_def [of "numeral n" for n]

lemma crc_check_value: "compute_crc32 [0x31, 0x32, 0x33, 0x34, 0x35, 0x36, 0x37, 0x38, 0x39] = 0xCBF43926"
  by (simp add: compute_crc32_def crc_step_shifts crc_shift_eight crc_shift_numeral)

end
