(* ===== verification/Bits.thy ===== *)
theory Bits
  imports Prelude
begin

text \<open>
  Bit vectors, as the modem code keeps them: a \<^verbatim>\<open>std::vector<uint8_t>\<close> whose elements
  are 0 or 1. The loops that write a number or a byte most significant bit first, and those that
  read one back, with the laws that make each the inverse of the other.
\<close>

section \<open>Writing\<close>

text \<open>\<open>for (i = n - 1; i >= 0; --i) bits.push_back((v >> i) & 1u)\<close>.\<close>

definition bits_of :: "nat \<Rightarrow> 'a :: len word \<Rightarrow> bytes" where
  "bits_of n v = map (\<lambda>i. ucast (drop_bit i v AND 1)) (rev [0 ..< n])"

definition bytes_to_bits :: "bytes \<Rightarrow> bytes" where
  "bytes_to_bits bs = concat (map (bits_of 8) bs)"

section \<open>Reading\<close>

text \<open>The loop of \<open>extract_bits\<close>; reading past the end is undefined.\<close>

fun extract_loop :: "bytes \<Rightarrow> nat \<Rightarrow> nat \<Rightarrow> u32 \<Rightarrow> u32 res" where
  "extract_loop bits offset 0 v = Inr v"
| "extract_loop bits offset (Suc count) v =
     (if offset < length bits
      then extract_loop bits (Suc offset) count (push_bit 1 v OR ucast (bits ! offset AND 1))
      else Inl Undefined_Behaviour)"

definition extract_bits :: "bytes \<Rightarrow> nat \<Rightarrow> nat \<Rightarrow> u32 res" where
  "extract_bits bits offset count = extract_loop bits offset count 0"

text \<open>\<open>for (b = 7; b >= 0; --b) { byte |= (bits[pos] & 1u) << b; ++pos; }\<close> and the loop over
  the bytes.\<close>

fun byte_loop :: "bytes \<Rightarrow> nat \<Rightarrow> nat \<Rightarrow> u8 \<Rightarrow> (u8 \<times> nat) res" where
  "byte_loop bits pos 0 byte = Inr (byte, pos)"
| "byte_loop bits pos (Suc b) byte =
     (if pos < length bits
      then byte_loop bits (Suc pos) b (byte OR push_bit b (bits ! pos AND 1))
      else Inl Undefined_Behaviour)"

fun bytes_loop :: "bytes \<Rightarrow> nat \<Rightarrow> nat \<Rightarrow> (bytes \<times> nat) res" where
  "bytes_loop bits pos 0 = Inr ([], pos)"
| "bytes_loop bits pos (Suc n) =
     rbind (byte_loop bits pos 8 0) (\<lambda>(byte, pos).
     rbind (bytes_loop bits pos n) (\<lambda>(bs, pos). Inr (byte # bs, pos)))"

section \<open>Laws\<close>

lemma bits_of_0 [simp]: "bits_of 0 v = []"
  by (simp add: bits_of_def)

lemma bits_of_Suc: "bits_of (Suc n) v = of_bool (bit v n) # bits_of n v"
proof -
  have "ucast (drop_bit n v AND 1) = (of_bool (bit v n) :: u8)"
    by (rule bit_eqI) (auto simp: bit_simps and_one_eq bit_iff_odd_drop_bit mod2_eq_if)
  then show ?thesis by (simp add: bits_of_def)
qed

lemma length_bits_of [simp]: "length (bits_of n v) = n"
  by (simp add: bits_of_def)

lemma length_bytes_to_bits [simp]: "length (bytes_to_bits bs) = 8 * length bs"
  by (induction bs) (simp_all add: bytes_to_bits_def)

lemma bytes_to_bits_simps [simp]:
  "bytes_to_bits [] = []" "bytes_to_bits (b # bs) = bits_of 8 b @ bytes_to_bits bs"
  "bytes_to_bits (xs @ ys) = bytes_to_bits xs @ bytes_to_bits ys"
  by (simp_all add: bytes_to_bits_def)

lemma extract_loop_bits_of:
  "at bits off (bits_of n v @ rest) \<Longrightarrow>
     extract_loop bits off n acc = Inr (push_bit n acc OR take_bit n (ucast v))"
proof (induction n arbitrary: off acc)
  case (Suc n)
  have a: "at bits off (of_bool (bit v n) # bits_of n v @ rest)"
    using Suc.prems by (simp add: bits_of_Suc)
  have "ucast (of_bool (bit v n) AND 1 :: u8) = (of_bool (bit v n) :: u32)" by simp
  then have "extract_loop bits off (Suc n) acc
      = Inr (push_bit n (push_bit 1 acc OR of_bool (bit v n)) OR take_bit n (ucast v))"
    using at_less [OF a] at_nth [OF a] Suc.IH [OF at_Suc [OF a]] by simp
  moreover have "push_bit n (push_bit 1 acc OR of_bool (bit v n)) OR take_bit n (ucast v)
      = push_bit (Suc n) acc OR take_bit (Suc n) (ucast v :: u32)"
    by (rule bit_eqI) (auto simp: bit_simps less_Suc_eq)
  ultimately show ?case by simp
qed simp

lemma byte_loop_bits_of:
  "at bits pos (bits_of n v @ rest) \<Longrightarrow> byte_loop bits pos n acc = Inr (acc OR take_bit n v, pos + n)"
proof (induction n arbitrary: pos acc)
  case (Suc n)
  have a: "at bits pos (of_bool (bit v n) # bits_of n v @ rest)"
    using Suc.prems by (simp add: bits_of_Suc)
  have "(acc OR push_bit n (of_bool (bit v n))) OR take_bit n v = acc OR take_bit (Suc n) v"
    by (rule bit_eqI) (auto simp: bit_simps less_Suc_eq)
  then show ?case
    using at_less [OF a] at_nth [OF a] Suc.IH [OF at_Suc [OF a]] by (cases "bit v n") simp_all
qed simp

lemma take_bit_u8 [simp]: "take_bit 8 (x :: u8) = x"
  by (rule bit_eqI) (auto simp: bit_simps dest: bit_imp_le_length)

lemma bytes_loop_bits:
  "at bits pos (bytes_to_bits bs @ rest) \<Longrightarrow>
     bytes_loop bits pos (length bs) = Inr (bs, pos + 8 * length bs)"
proof (induction bs arbitrary: pos)
  case (Cons b bs)
  have a: "at bits pos (bits_of 8 b @ bytes_to_bits bs @ rest)" using Cons.prems by simp
  have "at bits (pos + 8) (bytes_to_bits bs @ rest)" using at_append [OF a] by simp
  then show ?case using byte_loop_bits_of [OF a, of 0] Cons.IH [of "pos + 8"] by (simp add: add.assoc)
qed simp

lemma bits_of_numerals:
  "bits_of 1 v = [of_bool (bit v 0)]" "bits_of (Suc 0) v = [of_bool (bit v 0)]"
  "bits_of 2 v = [of_bool (bit v 1), of_bool (bit v 0)]"
  "bits_of 4 v = map (\<lambda>i. of_bool (bit v i)) [3, 2, 1, 0]"
  "bits_of 8 v = map (\<lambda>i. of_bool (bit v i)) [7, 6, 5, 4, 3, 2, 1, 0]"
  "bits_of 12 v = map (\<lambda>i. of_bool (bit v i)) [11, 10, 9, 8, 7, 6, 5, 4, 3, 2, 1, 0]"
  "bits_of 16 v = map (\<lambda>i. of_bool (bit v i)) [15, 14, 13, 12, 11, 10, 9, 8, 7, 6, 5, 4, 3, 2, 1, 0]"
  by (simp_all add: bits_of_Suc eval_nat_numeral)

lemma take_bit_u32 [simp]: "take_bit 32 (x :: u32) = x"
  by (rule bit_eqI) (auto simp: bit_simps dest: bit_imp_le_length)

text \<open>Every vector of zeros and ones is written by some number, and by only one.\<close>

lemma take_bit_word_eq: "take_bit n v = take_bit n w \<longleftrightarrow> (\<forall>i < n. bit v i \<longleftrightarrow> bit w i)" for v w :: "'a :: len word"
proof
  assume "take_bit n v = take_bit n w"
  then have "bit (take_bit n v) i \<longleftrightarrow> bit (take_bit n w) i" for i by simp
  then show "\<forall>i < n. bit v i \<longleftrightarrow> bit w i" by (auto simp: bit_take_bit_iff)
qed (auto intro!: bit_eqI simp: bit_take_bit_iff)

lemma take_bit_small: "unat w < 2 ^ n \<Longrightarrow> take_bit n w = w" for w :: "'a :: len word"
  by (rule word_unat_eq_iff [THEN iffD2]) (simp add: unsigned_take_bit_eq take_bit_nat_eq_self)

lemma bits_of_eq: "bits_of n v = bits_of n w \<longleftrightarrow> take_bit n v = take_bit n w"
  unfolding take_bit_word_eq by (induction n) (auto simp: bits_of_Suc less_Suc_eq)

lemma bits_of_surj:
  assumes "set xs \<subseteq> {0, 1}" "length xs = n" "n \<le> LENGTH('a)"
  shows "\<exists>v :: 'a :: len word. xs = bits_of n v \<and> take_bit n v = v"
  using assms
proof (induction xs arbitrary: n)
  case (Cons x xs)
  then obtain m where n: "n = Suc m" by (cases n) auto
  with Cons obtain v :: "'a word" where v: "xs = bits_of m v" "take_bit m v = v" by auto
  let ?w = "push_bit m (of_bool (x = 1)) OR v"
  have nb: "i < m" if "bit v i" for i using that v(2) by (metis bit_take_bit_iff)
  have m: "m < LENGTH('a)" using n Cons.prems by simp
  have "bits_of m ?w = bits_of m v"
    unfolding bits_of_eq by (rule bit_eqI) (auto simp: bit_simps)
  moreover have "bit ?w m \<longleftrightarrow> x = 1" using m nb by (auto simp: bit_simps)
  moreover have "x = of_bool (x = 1)" using Cons.prems by auto
  moreover have "take_bit n ?w = ?w"
    by (rule bit_eqI) (auto simp: bit_simps n less_Suc_eq dest: nb)
  ultimately show ?case using v by (intro exI [of _ ?w]) (simp add: n bits_of_Suc)
qed simp

lemma bytes_to_bits_eq: "bytes_to_bits xs = bytes_to_bits ys \<longleftrightarrow> xs = ys"
proof (induction xs arbitrary: ys)
  case Nil
  have "length (bytes_to_bits ys) = 0 \<longleftrightarrow> ys = []" by simp
  then show ?case by (simp only: length_0_conv bytes_to_bits_simps(1)) (metis)
next
  case (Cons x xs)
  show ?case
  proof (cases ys)
    case Nil
    have "length (bytes_to_bits (x # xs)) \<noteq> 0" by (simp only: length_bytes_to_bits) simp
    then show ?thesis using Nil by (metis bytes_to_bits_simps(1) list.distinct(1) list.size(3))
  qed (simp add: Cons bits_of_eq)
qed

lemma bytes_to_bits_surj:
  assumes "set xs \<subseteq> {0, 1}" "length xs = 8 * n"
  shows "\<exists>bs. xs = bytes_to_bits bs \<and> length bs = n"
  using assms
proof (induction n arbitrary: xs)
  case (Suc n)
  have "set (take 8 xs) \<subseteq> {0, 1}" "length (take 8 xs) = 8"
    using Suc.prems by (auto dest: in_set_takeD)
  then obtain b :: u8 where b: "take 8 xs = bits_of 8 b" using bits_of_surj [of "take 8 xs" 8, where 'a = 8] by auto
  have "set (drop 8 xs) \<subseteq> {0, 1}" "length (drop 8 xs) = 8 * n"
    using Suc.prems by (auto dest: in_set_dropD)
  then obtain bs where bs: "drop 8 xs = bytes_to_bits bs" "length bs = n" using Suc.IH by blast
  have "xs = bytes_to_bits (b # bs)" using b bs append_take_drop_id [of 8 xs] by simp
  then show ?case using bs(2) by (intro exI [of _ "b # bs"]) simp
qed simp

lemma bits_of_01: "set (bits_of n v) \<subseteq> {0, 1}"
  by (induction n) (simp_all add: bits_of_Suc)

lemma bytes_to_bits_01: "set (bytes_to_bits bs) \<subseteq> {0, 1}"
  using bits_of_01 by (induction bs) auto

lemma bytes_to_bits_nth:
  "m < length bs \<Longrightarrow> r < 8 \<Longrightarrow> bytes_to_bits bs ! (8 * m + r) = bits_of 8 (bs ! m) ! r"
proof (induction bs arbitrary: m)
  case (Cons b bs)
  then show ?case by (cases m) (simp_all add: nth_append)
qed simp

lemma bytes_eqI:
  assumes "length xs = length ys" "m < length xs"
    and "\<And>q. 8 * m \<le> q \<Longrightarrow> q < 8 * m + 8 \<Longrightarrow> bytes_to_bits xs ! q = bytes_to_bits ys ! q"
  shows "xs ! m = ys ! m"
proof -
  have "bits_of 8 (xs ! m) ! r = bits_of 8 (ys ! m) ! r" if "r < 8" for r
    using assms that bytes_to_bits_nth [of m xs r] bytes_to_bits_nth [of m ys r] by simp
  then have "bits_of 8 (xs ! m) = bits_of 8 (ys ! m)" by (intro nth_equalityI) simp_all
  then show ?thesis by (simp add: bits_of_eq)
qed

text \<open>Reading stays inside the vector when it is long enough.\<close>

lemma extract_bits_ok: "off + n \<le> length bits \<Longrightarrow> \<exists>v. extract_loop bits off n acc = Inr v"
  by (induction n arbitrary: off acc) simp_all

lemma bytes_loop_ok: 
  assumes "pos + 8 * n \<le> length bits"
  shows "\<exists>bs. bytes_loop bits pos n = Inr (bs, pos + 8 * n) \<and> length bs = n"
proof -
  have byte: "pos + n \<le> length bits \<Longrightarrow> \<exists>b. byte_loop bits pos n acc = Inr (b, pos + n)" for pos n acc
  proof (induction n arbitrary: pos acc)
    case (Suc n)
    then show ?case using Suc.IH [of "Suc pos" "acc OR push_bit n (bits ! pos AND 1)"] by simp
  qed simp
  show ?thesis using assms
  proof (induction n arbitrary: pos)
    case (Suc n)
    then obtain b where "byte_loop bits pos 8 0 = Inr (b, pos + 8)" using byte [of pos 8 0] by auto
    moreover obtain bs where "bytes_loop bits (pos + 8) n = Inr (bs, pos + 8 + 8 * n) \<and> length bs = n"
      using Suc.IH [of "pos + 8"] Suc.prems by auto
    ultimately show ?case by simp
  qed simp
qed

end
