(* ===== verification/Frame.thy ===== *)
theory Frame
  imports Bits Crc
begin

text \<open>
  The modem's frames: \<^verbatim>\<open>src/frame_builder.cpp\<close>, \<^verbatim>\<open>src/frame_parser.cpp\<close> and
  their types in \<^verbatim>\<open>include/qpsk_b200/types.h\<close>. A frame is a preamble, a 35-bit header,
  the payload bytes and a CRC-32 over header and payload. The lemmas show that every bit vector
  of the right length is the layout of some fields, so that the parser is characterised by one
  equation on the checksum.
\<close>

section \<open>Types\<close>

text \<open>\<open>enum class CodeRate : uint8_t\<close>; the parser casts any two bits to it.\<close>

type_synonym code_rate = u8

definition RATE_1_2 :: code_rate where "RATE_1_2 = 0"
definition RATE_3_4 :: code_rate where "RATE_3_4 = 1"

record frame_header =
  payload_length :: u16
  padding_bits :: u8
  sequence_number :: u16
  fec_enabled :: bool
  fec_code_rate :: code_rate

record frame =
  header :: frame_header
  payload :: bytes
  crc :: u32
  crc_valid :: bool

record frame_builder =
  preamble :: bytes
  seq_num :: u32

definition new_builder :: "bytes \<Rightarrow> frame_builder" where
  "new_builder pre = \<lparr>preamble = pre, seq_num = 0\<rparr>"

definition current_sequence_number :: "frame_builder \<Rightarrow> u32" where
  "current_sequence_number fb = seq_num fb"

section \<open>Building\<close>

text \<open>The five bytes the checksum sees; the packing is written out in the builder and again in
  \<open>verify_crc\<close>.\<close>

definition header_bytes :: "u16 \<Rightarrow> u8 \<Rightarrow> u8 \<Rightarrow> u8 \<Rightarrow> u16 \<Rightarrow> bytes" where
  "header_bytes len pad fec_flag rate_bits seq =
    [ucast (drop_bit 8 len AND 0xFF),
     ucast (len AND 0xFF),
     push_bit 4 (pad AND 0x0F) OR push_bit 3 fec_flag OR push_bit 1 rate_bits
       OR ucast (drop_bit 11 seq AND 0x01),
     ucast (drop_bit 3 seq AND 0xFF),
     ucast (push_bit 5 (seq AND 0x07))]"

definition build_frame :: "frame_builder \<Rightarrow> bytes \<Rightarrow> u8 \<Rightarrow> bool \<Rightarrow> code_rate \<Rightarrow> bytes \<times> frame_builder" where
  "build_frame fb data pad fec rate =
    (let frame_length = of_nat (length data) :: u16;
         seq = ucast (seq_num fb AND 0x0FFF) :: u16;
         fec_flag = (if fec then 1 else 0);
         rate_bits = rate AND 0x03;
         crc = compute_crc32 (header_bytes frame_length pad fec_flag rate_bits seq @ data);
         bits = preamble fb;
         bits = bits @ bits_of 16 frame_length;
         bits = bits @ bits_of 4 pad;
         bits = bits @ [fec_flag];
         bits = bits @ bits_of 2 rate_bits;
         bits = bits @ bits_of 12 seq;
         bits = bits @ bytes_to_bits data;
         bits = bits @ bits_of 32 crc
     in (bits, fb\<lparr>seq_num := (seq_num fb + 1) AND 0x0FFF\<rparr>))"

section \<open>Parsing\<close>

definition HEADER_BITS :: nat where "HEADER_BITS = 35"
definition CRC_BITS :: nat where "CRC_BITS = 32"

definition verify_crc :: "frame \<Rightarrow> bool" where
  "verify_crc f =
    (let h = header f;
         fec_flag = (if fec_enabled h then 1 else 0);
         rate_bits = fec_code_rate h AND 0x03;
         crc_data = header_bytes (payload_length h) (padding_bits h) fec_flag rate_bits
           (sequence_number h) @ payload f
     in compute_crc32 crc_data = crc f)"

text \<open>What \<open>parse\<close> and \<open>parse_unchecked\<close> both do before the checksum is looked at.\<close>

definition parse_fields :: "bytes \<Rightarrow> frame option res" where
  "parse_fields bits =
    (if length bits < HEADER_BITS + CRC_BITS then Inr None
     else
       rbind (extract_bits bits 0 16) (\<lambda>frame_length.
       rbind (extract_bits bits 16 4) (\<lambda>pad.
       rbind (extract_bits bits 20 1) (\<lambda>fec.
       rbind (extract_bits bits 21 2) (\<lambda>rate.
       rbind (extract_bits bits 23 12) (\<lambda>seq.
       let remaining_bits = length bits - HEADER_BITS in
       if remaining_bits < CRC_BITS then Inr None
       else
         let payload_bit_count = remaining_bits - CRC_BITS in
         rbind (bytes_loop bits 35 (payload_bit_count div 8)) (\<lambda>(data, pos).
         rbind (extract_bits bits (pos + payload_bit_count mod 8) 32) (\<lambda>received_crc.
         Inr (Some \<lparr>header = \<lparr>payload_length = ucast frame_length, padding_bits = ucast pad,
             sequence_number = ucast seq, fec_enabled = (fec \<noteq> 0), fec_code_rate = ucast rate\<rparr>,
           payload = data, crc = received_crc, crc_valid = False\<rparr>)))))))))"

definition parse_unchecked :: "bytes \<Rightarrow> frame option res" where
  "parse_unchecked bits = parse_fields bits"

definition parse :: "bytes \<Rightarrow> frame option res" where
  "parse bits =
    rbind (parse_fields bits) (\<lambda>r.
    case r of
      None \<Rightarrow> Inr None
    | Some f \<Rightarrow>
        let f = f\<lparr>crc_valid := verify_crc f\<rparr>
        in Inr (if \<not> crc_valid f then None else Some f))"

section \<open>The layout\<close>

definition frame_bits :: "u16 \<Rightarrow> u8 \<Rightarrow> bool \<Rightarrow> u8 \<Rightarrow> u16 \<Rightarrow> bytes \<Rightarrow> u32 \<Rightarrow> bytes" where
  "frame_bits len pad fec rate seq data c =
     bits_of 16 len @ bits_of 4 pad @ [of_bool fec] @ bits_of 2 rate @ bits_of 12 seq
     @ bytes_to_bits data @ bits_of 32 c"

definition message :: "u16 \<Rightarrow> u8 \<Rightarrow> bool \<Rightarrow> u8 \<Rightarrow> u16 \<Rightarrow> bytes \<Rightarrow> bytes" where
  "message len pad fec rate seq data = header_bytes len pad (of_bool fec) (rate AND 0x03) seq @ data"

lemma length_frame_bits: "length (frame_bits len pad fec rate seq data c) = 67 + 8 * length data"
  by (simp add: frame_bits_def)

lemma frame_bits_01: "set (frame_bits len pad fec rate seq data c) \<subseteq> {0, 1}"
  unfolding frame_bits_def set_append Un_subset_iff
  by (intro conjI bits_of_01 bytes_to_bits_01) simp

lemma parse_fields_frame:
  "parse_fields (frame_bits len pad fec rate seq data c) =
     Inr (Some \<lparr>header = \<lparr>payload_length = len, padding_bits = take_bit 4 pad,
        sequence_number = take_bit 12 seq, fec_enabled = fec, fec_code_rate = take_bit 2 rate\<rparr>,
      payload = data, crc = c, crc_valid = False\<rparr>)"
proof -
  let ?b = "frame_bits len pad fec rate seq data c"
  have a0: "at ?b 0 (bits_of 16 len @ bits_of 4 pad @ [of_bool fec] @ bits_of 2 rate @ bits_of 12 seq
     @ bytes_to_bits data @ bits_of 32 c @ [])" by (simp add: frame_bits_def)
  note a1 = at_append [OF a0, simplified length_bits_of]
  note a2 = at_append [OF a1, simplified length_bits_of]
  note a3 = at_append [OF a2]
  note a4 = at_append [OF a3, simplified length_bits_of]
  note a5 = at_append [OF a4, simplified length_bits_of]
  note a6 = at_append [OF a5, simplified length_bytes_to_bits]
  have fecbit: "bits_of 1 (of_bool fec :: u8) = [of_bool fec]" by (simp add: bits_of_numerals)
  have fecval: "take_bit 1 (ucast (of_bool fec :: u8) :: u32) = of_bool fec" by (cases fec) simp_all
  have e: "extract_bits ?b 0 16 = Inr (take_bit 16 (ucast len))"
    "extract_bits ?b 16 4 = Inr (take_bit 4 (ucast pad))"
    "extract_bits ?b 20 1 = Inr (of_bool fec)"
    "extract_bits ?b 21 2 = Inr (take_bit 2 (ucast rate))"
    "extract_bits ?b 23 12 = Inr (take_bit 12 (ucast seq))"
    "extract_bits ?b (35 + 8 * length data) 32 = Inr (take_bit 32 (ucast c))"
    using extract_loop_bits_of [OF a0, of 0] extract_loop_bits_of [OF a1, of 0]
      extract_loop_bits_of [OF a2 [folded fecbit], of 0] extract_loop_bits_of [OF a3, of 0]
      extract_loop_bits_of [OF a4, of 0] extract_loop_bits_of [OF a6, of 0]
    unfolding fecval by (simp_all add: extract_bits_def)
  have l: "bytes_loop ?b 35 (length data) = Inr (data, 35 + 8 * length data)"
    using bytes_loop_bits [OF a5] by simp
  have c: "ucast (take_bit 16 (ucast len) :: u32) = len" "ucast (take_bit 4 (ucast pad) :: u32) = take_bit 4 pad"
    "ucast (take_bit 2 (ucast rate) :: u32) = take_bit 2 rate" "ucast (take_bit 12 (ucast seq) :: u32) = take_bit 12 seq"
    "take_bit 32 c = c"
    by (rule bit_word_eqI; auto simp: bit_simps)+
  show ?thesis
    by (simp del: One_nat_def add: parse_fields_def HEADER_BITS_def CRC_BITS_def length_frame_bits e l c)
qed

text \<open>The checksum sees five header bits short of 40, padded with zeros.\<close>

lemma message_bits_eq:
  "bytes_to_bits (message len pad fec rate seq data) =
     bits_of 16 len @ bits_of 4 pad @ [of_bool fec] @ bits_of 2 rate @ bits_of 12 seq
     @ replicate 5 0 @ bytes_to_bits data"
proof -
  have h: "bytes_to_bits (header_bytes len pad (of_bool fec) (rate AND 0x03) seq) =
     bits_of 16 len @ bits_of 4 pad @ [of_bool fec] @ bits_of 2 rate @ bits_of 12 seq @ replicate 5 0"
  proof -
    have masks: "x AND 0xFF = take_bit 8 x" "x AND 0x07 = take_bit 3 x" "x AND 0x01 = take_bit 1 x"
      "y AND 0x0F = take_bit 4 y" "y AND 0x03 = take_bit 2 y" for x :: u16 and y :: u8
      by (simp_all add: take_bit_eq_mask mask_eq_exp_minus_1)
    have r: "replicate 5 (0 :: u8) = [0, 0, 0, 0, 0]" by (simp add: eval_nat_numeral)
    show ?thesis
      unfolding header_bytes_def masks r
      by (simp del: One_nat_def add: bits_of_numerals bit_simps) simp
  qed
  then show ?thesis by (simp add: message_def)
qed

lemma parse_frame:
  "parse (frame_bits len pad fec rate seq data c) =
     Inr (if compute_crc32 (message len pad fec rate seq data) = c
          then Some \<lparr>header = \<lparr>payload_length = len, padding_bits = take_bit 4 pad,
            sequence_number = take_bit 12 seq, fec_enabled = fec, fec_code_rate = take_bit 2 rate\<rparr>,
            payload = data, crc = c, crc_valid = True\<rparr>
          else None)"
proof -
  have "bytes_to_bits (message len (take_bit 4 pad) fec (take_bit 2 rate) (take_bit 12 seq) data)
      = bytes_to_bits (message len pad fec rate seq data)"
    unfolding message_bits_eq by (simp add: bits_of_eq)
  then have "message len (take_bit 4 pad) fec (take_bit 2 rate) (take_bit 12 seq) data
      = message len pad fec rate seq data" by (simp add: bytes_to_bits_eq)
  then show ?thesis
    by (auto simp: parse_def parse_fields_frame verify_crc_def message_def Let_def)
qed

lemma parse_short: "length bits < 67 \<Longrightarrow> parse bits = Inr None"
  by (simp add: parse_def parse_fields_def HEADER_BITS_def CRC_BITS_def)

lemma frame_bits_surj:
  assumes "set bits \<subseteq> {0, 1}" "length bits = 67 + 8 * n"
  shows "\<exists>len pad fec rate seq data c. bits = frame_bits len pad fec rate seq data c \<and> length data = n
    \<and> take_bit 4 pad = pad \<and> take_bit 2 rate = rate \<and> take_bit 12 seq = seq"
proof -
  have sub: "set (take m (drop k bits)) \<subseteq> {0, 1}" for m k
    using assms(1) by (auto dest!: in_set_takeD in_set_dropD)
  have len: "length (take m (drop k bits)) = m" if "k + m \<le> length bits" for m k using that by simp
  obtain len :: u16 where l: "take 16 bits = bits_of 16 len"
    using bits_of_surj [OF sub [of 16 0] len, where 'a = 16] assms(2) by auto
  obtain pad :: u8 where p: "take 4 (drop 16 bits) = bits_of 4 pad" "take_bit 4 pad = pad"
    using bits_of_surj [OF sub [of 4 16] len, where 'a = 8] assms(2) by auto
  obtain f :: u8 where f: "take 1 (drop 20 bits) = bits_of 1 f"
    using bits_of_surj [OF sub [of 1 20] len, where 'a = 8] assms(2) by auto
  obtain rate :: u8 where r: "take 2 (drop 21 bits) = bits_of 2 rate" "take_bit 2 rate = rate"
    using bits_of_surj [OF sub [of 2 21] len, where 'a = 8] assms(2) by auto
  obtain seq :: u16 where q: "take 12 (drop 23 bits) = bits_of 12 seq" "take_bit 12 seq = seq"
    using bits_of_surj [OF sub [of 12 23] len, where 'a = 16] assms(2) by auto
  obtain data where d: "take (8 * n) (drop 35 bits) = bytes_to_bits data" "length data = n"
    using bytes_to_bits_surj [OF sub [of "8 * n" 35]] assms(2) by auto
  obtain c :: u32 where c: "take 32 (drop (35 + 8 * n) bits) = bits_of 32 c"
    using bits_of_surj [OF sub [of 32 "35 + 8 * n"] len, where 'a = 32] assms(2) by auto
  have split: "drop k bits = take m (drop k bits) @ drop (m + k) bits" for m k
    by (metis append_take_drop_id drop_drop)
  have "bits = frame_bits len pad (bit f 0) rate seq data c"
    unfolding frame_bits_def l [symmetric] p(1) [symmetric] r(1) [symmetric] q(1) [symmetric] d(1) [symmetric]
      c [symmetric] bits_of_numerals(1) [of f, symmetric] f [symmetric]
    using split [of 0 16] split [of 16 4] split [of 20 1] split [of 21 2] split [of 23 12]
      split [of 35 "8 * n"] assms(2) by (simp add: add.commute)
  then show ?thesis using p(2) r(2) q(2) d(2) by blast
qed

lemma parse_fields_total:
  assumes "67 \<le> length bits"
  shows "\<exists>f. parse_fields bits = Inr (Some f) \<and> length (payload f) = (length bits - 67) div 8"
proof -
  let ?n = "(length bits - 67) div 8"
  have e: "\<exists>v. extract_bits bits off n = Inr v" if "off + n \<le> length bits" for off n
    using extract_bits_ok [OF that] by (simp add: extract_bits_def)
  obtain v1 v2 v3 v4 v5 where v: "extract_bits bits 0 16 = Inr v1" "extract_bits bits 16 4 = Inr v2"
    "extract_bits bits 20 1 = Inr v3" "extract_bits bits 21 2 = Inr v4" "extract_bits bits 23 12 = Inr v5"
    using e [of 0 16] e [of 16 4] e [of 20 1] e [of 21 2] e [of 23 12] assms by auto
  have "35 + 8 * ?n \<le> length bits" using assms by simp
  then obtain bs where bs: "bytes_loop bits 35 ?n = Inr (bs, 35 + 8 * ?n)" "length bs = ?n"
    using bytes_loop_ok by blast
  have "35 + 8 * ?n + (length bits - 67) mod 8 + 32 = length bits" using assms by simp
  then obtain v6 where "extract_bits bits (35 + 8 * ?n + (length bits - 67) mod 8) 32 = Inr v6"
    using e [of "35 + 8 * ?n + (length bits - 67) mod 8" 32] by auto
  then show ?thesis using assms v bs by (simp add: parse_fields_def HEADER_BITS_def CRC_BITS_def Let_def)
qed

lemma xor_masks: "x AND 0x0F = take_bit 4 x" "x AND 0x03 = take_bit 2 x" for x :: u8
  by (simp_all add: take_bit_eq_mask mask_eq_exp_minus_1)

lemma and_FFF: "x AND 0x0FFF = take_bit 12 x" for x :: u32
  by (simp add: take_bit_eq_mask mask_eq_exp_minus_1)

lemma build_frame_bits:
  "build_frame fb data pad fec rate =
     (let seq = ucast (take_bit 12 (seq_num fb)); len = of_nat (length data)
      in (preamble fb @ frame_bits len pad fec (take_bit 2 rate) seq data
            (compute_crc32 (message len pad fec rate seq data)),
          fb\<lparr>seq_num := take_bit 12 (seq_num fb + 1)\<rparr>))"
  by (simp add: build_frame_def frame_bits_def message_def Let_def and_FFF of_bool_def xor_masks)

section \<open>Properties\<close>

text \<open>C24. The parser reads back what the builder wrote behind the preamble: every header field,
  the payload and the checksum, for any payload (its length is kept modulo 2^16), four-bit padding
  count and two-bit code rate; the builder then moves on to the next of its 4096 sequence
  numbers.\<close>

theorem frame_roundtrip:
  assumes "pad < 16" "rate < 4" "seq_num fb < 4096"
    and "build_frame fb data pad fec rate = (bits, fb')"
  shows "\<exists>c. parse (drop (length (preamble fb)) bits) = Inr (Some
      \<lparr>header = \<lparr>payload_length = of_nat (length data), padding_bits = pad,
         sequence_number = ucast (seq_num fb), fec_enabled = fec, fec_code_rate = rate\<rparr>,
       payload = data, crc = c, crc_valid = True\<rparr>)
    \<and> take (length (preamble fb)) bits = preamble fb
    \<and> seq_num fb' < 4096 \<and> unat (seq_num fb') = (unat (seq_num fb) + 1) mod 4096"
proof -
  have t: "take_bit 4 pad = pad" "take_bit 2 rate = rate" "take_bit 12 (seq_num fb) = seq_num fb"
    using assms(1-3) by (auto intro!: take_bit_small simp: word_less_nat_alt)
  have n: "unat (take_bit 12 (seq_num fb + 1)) = (unat (seq_num fb) + 1) mod 4096"
  proof -
    have "unat (seq_num fb + 1) = unat (seq_num fb) + 1"
      using assms(3) by (simp add: unat_word_ariths word_less_nat_alt)
    then show ?thesis unfolding unsigned_take_bit_eq by (simp add: take_bit_eq_mod)
  qed
  have "take_bit 12 (ucast (seq_num fb) :: u16) = ucast (seq_num fb)"
  proof -
    have "take_bit 12 (ucast (take_bit 12 x) :: u16) = ucast (take_bit 12 x)" for x :: u32
      by (rule bit_eqI) (auto simp: bit_simps)
    then show ?thesis using t(3) by metis
  qed
  moreover have "take_bit 12 (seq_num fb + 1) < 4096"
    using n by (simp add: word_less_nat_alt)
  ultimately show ?thesis using assms(4) n t
    by (auto simp: build_frame_bits parse_frame message_def Let_def)
qed

lemma parse_total: "\<exists>r. parse bits = Inr r" "\<exists>r. parse_unchecked bits = Inr r"
proof -
  have "\<exists>r. parse_fields bits = Inr r"
  proof (cases "67 \<le> length bits")
    case True
    then show ?thesis using parse_fields_total by blast
  next
    case False
    then show ?thesis by (simp add: parse_fields_def HEADER_BITS_def CRC_BITS_def)
  qed
  then show "\<exists>r. parse bits = Inr r" "\<exists>r. parse_unchecked bits = Inr r"
    by (auto simp: parse_def parse_unchecked_def split: option.split)
qed

text \<open>The parser never reads outside the vector it is given, and what it accepts is a frame
  whose checksum holds; on a vector of zeros and ones with whole payload bytes the accepted vector
  is exactly the layout of the fields it returns.\<close>

theorem parse_sound:
  "\<exists>r r'. parse bits = Inr r \<and> parse_unchecked bits = Inr r' \<and> (r' = None \<longleftrightarrow> length bits < 67)
    \<and> (\<forall>f. r = Some f \<longrightarrow> r' \<noteq> None \<and> crc_valid f \<and> verify_crc f
        \<and> length (payload f) = (length bits - 67) div 8
        \<and> (set bits \<subseteq> {0, 1} \<and> (length bits - 67) mod 8 = 0 \<longrightarrow>
            (let h = header f in bits = frame_bits (payload_length h) (padding_bits h) (fec_enabled h)
               (fec_code_rate h) (sequence_number h) (payload f) (crc f))))"
proof (cases "length bits < 67")
  case True
  then show ?thesis by (simp add: parse_short parse_unchecked_def parse_fields_def HEADER_BITS_def CRC_BITS_def)
next
  case False
  then obtain f where f: "parse_fields bits = Inr (Some f)" "length (payload f) = (length bits - 67) div 8"
    using parse_fields_total [of bits] by auto
  have layout: "let h = header f in bits = frame_bits (payload_length h) (padding_bits h) (fec_enabled h)
               (fec_code_rate h) (sequence_number h) (payload f) (crc f)"
    if "set bits \<subseteq> {0, 1}" "(length bits - 67) mod 8 = 0"
  proof -
    have "length bits = 67 + 8 * ((length bits - 67) div 8)" using False that(2) by auto
    from frame_bits_surj [OF that(1) this] obtain len pad fec rate seq data c where
      b: "bits = frame_bits len pad fec rate seq data c" "take_bit 4 pad = pad" "take_bit 2 rate = rate"
        "take_bit 12 seq = seq" by blast
    from f(1) have "f = \<lparr>header = \<lparr>payload_length = len, padding_bits = pad, sequence_number = seq,
        fec_enabled = fec, fec_code_rate = rate\<rparr>, payload = data, crc = c, crc_valid = False\<rparr>"
      unfolding b(1) parse_fields_frame b(2-4) by simp
    then show ?thesis using b(1) by simp
  qed
  have "parse bits = Inr (if verify_crc f then Some (f\<lparr>crc_valid := True\<rparr>) else None)"
    by (simp add: parse_def f(1) verify_crc_def Let_def)
  then show ?thesis using False f layout
    by (auto simp: parse_unchecked_def verify_crc_def Let_def)
qed

text \<open>What the checksum sees of a layout: its first 35 bits, five zeros, its payload bits.\<close>

lemma message_of_layout:
  fixes len pad fec rate seq data c
  defines "bits \<equiv> frame_bits len pad fec rate seq data c"
  shows "bytes_to_bits (message len pad fec rate seq data)
      = take 35 bits @ replicate 5 0 @ take (8 * length data) (drop 35 bits)"
    and "drop (35 + 8 * length data) bits = bits_of 32 c"
proof -
  let ?h = "bits_of 16 len @ bits_of 4 pad @ [of_bool fec] @ bits_of 2 rate @ bits_of 12 seq"
  have b: "bits = ?h @ bytes_to_bits data @ bits_of 32 c" "length ?h = 35"
    by (simp_all add: bits_def frame_bits_def)
  show "bytes_to_bits (message len pad fec rate seq data)
      = take 35 bits @ replicate 5 0 @ take (8 * length data) (drop 35 bits)"
    using b(2) by (simp add: message_bits_eq b(1) del: append_assoc)
  show "drop (35 + 8 * length data) bits = bits_of 32 c"
    using b(2) by (simp add: b(1) del: append_assoc)
qed

lemma spread_nth:
  assumes "length bits = 67 + 8 * n" "q < 40 + 8 * n"
  shows "(take 35 bits @ replicate 5 0 @ take (8 * n) (drop 35 bits)) ! q
    = (if q < 35 then bits ! q else if q < 40 then 0 else bits ! (q - 5))"
  using assms by (auto simp: nth_append)

text \<open>Messages that differ within 25 consecutive bits differ within four bytes.\<close>

lemma crc_window:
  assumes len: "length D = length D'"
    and window: "\<And>q. q < 8 * length D \<Longrightarrow> \<not> (i \<le> q \<and> q < i + 25) \<Longrightarrow> bytes_to_bits D ! q = bytes_to_bits D' ! q"
    and crc: "compute_crc32 D = compute_crc32 D'"
  shows "D = D'"
proof -
  let ?k = "i div 8"
  have byte: "D ! m = D' ! m" if "m < length D" "8 * m + 8 \<le> i \<or> i + 25 \<le> 8 * m" for m
    using that by (intro bytes_eqI [OF len] window) auto
  have pre: "take ?k D = take ?k D'"
    using len by (intro nth_equalityI) (auto intro!: byte)
  have post: "drop (?k + 4) D = drop (?k + 4) D'"
    using len by (intro nth_equalityI) (auto intro!: byte)
  have split: "xs = take ?k xs @ take 4 (drop ?k xs) @ drop (?k + 4) xs" for xs :: bytes
    by (metis append_take_drop_id drop_drop add.commute)
  show ?thesis
  proof (rule ccontr)
    assume "D \<noteq> D'"
    then have "take 4 (drop ?k D) \<noteq> take 4 (drop ?k D')" using split pre post by metis
    then show False
      using crc_burst [of "take 4 (drop ?k D)" "take 4 (drop ?k D')" "take ?k D" "drop (?k + 4) D"]
        crc len split [of D] split [of D'] pre post by simp
  qed
qed

text \<open>C25. Transmission errors the receiver always notices: when an accepted frame is corrupted
  within any 20 consecutive bits of header and payload (a single flipped bit in particular), or
  anywhere within its checksum alone, the parser rejects the result.\<close>

theorem frame_errors_detected:
  assumes "parse bits = Inr (Some f)" "set bits \<subseteq> {0, 1}" "set bits' \<subseteq> {0, 1}"
    and "length bits' = length bits" "(length bits - 67) mod 8 = 0" "bits' \<noteq> bits"
    and "(\<exists>i. \<forall>p < length bits. bits' ! p \<noteq> bits ! p \<longrightarrow> i \<le> p \<and> p < i + 20 \<and> p < length bits - 32)
       \<or> (\<forall>p < length bits. bits' ! p \<noteq> bits ! p \<longrightarrow> length bits - 32 \<le> p)"
  shows "parse bits' = Inr None"
proof -
  define n where "n = (length bits - 67) div 8"
  have "67 \<le> length bits" using assms(1) parse_short [of bits] by fastforce
  with assms(5) have len: "length bits = 67 + 8 * n" by (auto simp: n_def)
  from frame_bits_surj [OF assms(2) len] obtain l pad fec rate seq data c where
    b: "bits = frame_bits l pad fec rate seq data c" "length data = n" by blast
  from frame_bits_surj [OF assms(3)] len assms(4) obtain l' pad' fec' rate' seq' data' c' where
    b': "bits' = frame_bits l' pad' fec' rate' seq' data' c'" "length data' = n" by metis
  define D where "D = message l pad fec rate seq data"
  define D' where "D' = message l' pad' fec' rate' seq' data'"
  have lD: "length D = 5 + n" "length D' = 5 + n"
    by (simp_all add: D_def D'_def message_def header_bytes_def b(2) b'(2))
  have D: "bytes_to_bits D = take 35 bits @ replicate 5 0 @ take (8 * n) (drop 35 bits)"
    "bytes_to_bits D' = take 35 bits' @ replicate 5 0 @ take (8 * n) (drop 35 bits')"
    "drop (35 + 8 * n) bits = bits_of 32 c" "drop (35 + 8 * n) bits' = bits_of 32 c'"
    using message_of_layout(1) [of l pad fec rate seq data c] message_of_layout(2) [of data l pad fec rate seq c]
      message_of_layout(1) [of l' pad' fec' rate' seq' data' c']
      message_of_layout(2) [of data' l' pad' fec' rate' seq' c'] b(2) b'(2)
    unfolding D_def D'_def b(1) b'(1) by metis+
  have c: "compute_crc32 D = c" using assms(1) by (simp add: b(1) parse_frame D_def split: if_splits)
  have whole: "bits' = bits" if "D = D'" "c = c'"
  proof -
    have "take 35 bits = take 35 bits'" "take (8 * n) (drop 35 bits) = take (8 * n) (drop 35 bits')"
      using D(1,2) that len assms(4) by (auto simp: append_eq_append_conv)
    moreover have "drop (35 + 8 * n) bits = drop (35 + 8 * n) bits'" using D(3,4) that by simp
    ultimately show ?thesis by (metis append_take_drop_id drop_drop add.commute)
  qed
  have "compute_crc32 D' \<noteq> c'"
  proof
    assume c': "compute_crc32 D' = c'"
    from assms(7) show False
    proof
      assume crc: "\<forall>p < length bits. bits' ! p \<noteq> bits ! p \<longrightarrow> length bits - 32 \<le> p"
      have "take (35 + 8 * n) bits = take (35 + 8 * n) bits'"
      proof (intro nth_equalityI)
        fix p assume "p < length (take (35 + 8 * n) bits)"
        then show "take (35 + 8 * n) bits ! p = take (35 + 8 * n) bits' ! p"
          using crc [rule_format, of p] len by fastforce
      qed (simp add: assms(4))
      then have "take 35 (take (35 + 8 * n) bits) = take 35 (take (35 + 8 * n) bits')"
        "drop 35 (take (35 + 8 * n) bits) = drop 35 (take (35 + 8 * n) bits')" by simp_all
      then have "take 35 bits = take 35 bits'" "take (8 * n) (drop 35 bits) = take (8 * n) (drop 35 bits')"
        by (simp_all add: min_def drop_take)
      then have "D = D'" using D(1,2) bytes_to_bits_eq by metis
      then show False using whole c c' assms(6) by simp
    next
      assume "\<exists>i. \<forall>p < length bits. bits' ! p \<noteq> bits ! p \<longrightarrow> i \<le> p \<and> p < i + 20 \<and> p < length bits - 32"
      then obtain i where i: "\<And>p. p < length bits \<Longrightarrow> bits' ! p \<noteq> bits ! p
          \<Longrightarrow> i \<le> p \<and> p < i + 20 \<and> p < length bits - 32" by blast
      have "drop (35 + 8 * n) bits = drop (35 + 8 * n) bits'"
      proof (intro nth_equalityI)
        fix q assume "q < length (drop (35 + 8 * n) bits)"
        then show "drop (35 + 8 * n) bits ! q = drop (35 + 8 * n) bits' ! q"
          using i [of "35 + 8 * n + q"] len assms(4) by (cases "bits' ! (35 + 8 * n + q) = bits ! (35 + 8 * n + q)") auto
      qed (simp add: assms(4))
      then have cc: "c = c'" using D(3,4) by (simp add: bits_of_eq)
      have window: "bytes_to_bits D ! q = bytes_to_bits D' ! q" if q: "q < 40 + 8 * n" "\<not> (i \<le> q \<and> q < i + 25)" for q
        using spread_nth [of bits n q] spread_nth [of bits' n q] q i [of q] i [of "q - 5"] len assms(4)
        unfolding D(1,2)
        by (cases "q < 35"; cases "q < 40"; cases "bits' ! q = bits ! q"; cases "bits' ! (q - 5) = bits ! (q - 5)")
          (simp_all, linarith+)
      then show False
        using crc_window [of D D' i] lD c c' cc whole assms(6) by auto
    qed
  qed
  then show ?thesis by (simp add: b'(1) parse_frame D'_def)
qed

text \<open>A frame with the payload 9, one of its bits flipped, and the second frame of a builder.\<close>

definition sample_frame :: bytes where
  "sample_frame = frame_bits 1 0 True 0 7 [9] (compute_crc32 (message 1 0 True 0 7 [9]))"

lemma sample_frame_accepted: "\<exists>f. parse sample_frame = Inr (Some f)"
  by (simp add: sample_frame_def parse_frame)

theorem parse_sound_witness:
  "\<exists>f. parse sample_frame = Inr (Some f) \<and> verify_crc f \<and> length (payload f) = 1
     \<and> (let h = header f in sample_frame = frame_bits (payload_length h) (padding_bits h) (fec_enabled h)
          (fec_code_rate h) (sequence_number h) (payload f) (crc f))"
proof -
  have "length sample_frame = 75" by (simp add: sample_frame_def length_frame_bits)
  moreover have "set sample_frame \<subseteq> {0, 1}" unfolding sample_frame_def by (rule frame_bits_01)
  ultimately show ?thesis
    using parse_sound [of sample_frame] sample_frame_accepted by (auto simp: Let_def)
qed

theorem frame_roundtrip_witness:
  "\<exists>c. parse (drop 3 (fst (build_frame ((new_builder [1, 0, 1])\<lparr>seq_num := 4095\<rparr>) [9] 2 True 1))) = Inr (Some
      \<lparr>header = \<lparr>payload_length = 1, padding_bits = 2, sequence_number = 4095, fec_enabled = True,
         fec_code_rate = 1\<rparr>, payload = [9], crc = c, crc_valid = True\<rparr>)"
proof -
  let ?fb = "(new_builder [1, 0, 1])\<lparr>seq_num := 4095\<rparr>"
  have "seq_num ?fb < 4096" "length (preamble ?fb) = 3" "ucast (seq_num ?fb) = (4095 :: u16)"
    by (simp_all add: new_builder_def)
  then show ?thesis
    using frame_roundtrip [of 2 1 ?fb "[9]" True "fst (build_frame ?fb [9] 2 True 1)" "snd (build_frame ?fb [9] 2 True 1)"]
    by auto
qed

theorem frame_errors_detected_witness:
  "parse (sample_frame[40 := 1 - sample_frame ! 40]) = Inr None"
proof -
  let ?b = "sample_frame" and ?b' = "sample_frame[40 := 1 - sample_frame ! 40]"
  have l: "length ?b = 75" by (simp add: sample_frame_def length_frame_bits)
  have s: "set ?b \<subseteq> {0, 1}"
    unfolding sample_frame_def by (rule frame_bits_01)
  have "?b ! 40 \<in> set ?b" by (rule nth_mem) (simp add: l)
  then have m: "?b ! 40 \<in> {0, 1}" using s by blast
  obtain f where f: "parse ?b = Inr (Some f)"
    using sample_frame_accepted by blast
  have s': "set ?b' \<subseteq> {0, 1}" using s m set_update_subset_insert [of ?b 40 "1 - ?b ! 40"] by auto
  have d: "?b' ! 40 \<noteq> ?b ! 40" using m l by auto
  then have ne: "?b' \<noteq> ?b" by metis
  show ?thesis
    by (rule frame_errors_detected [OF f s s' _ _ ne]) (use l d in \<open>auto simp: nth_list_update intro!: exI [of _ 40]\<close>)
qed

end
