(* ===== verification/Fec.thy ===== *)
theory Fec
  imports Frame
begin

text \<open>
  The forward error correction: \<^verbatim>\<open>src/fec_encoder.cpp\<close> and
  \<^verbatim>\<open>src/fec_decoder.cpp\<close> with their declarations in
  \<^verbatim>\<open>include/qpsk_b200/fec.h\<close>. A rate-1/2 convolutional code of constraint length 7,
  punctured for rate 3/4, and its Viterbi decoder over all 128 values of the encoder's register.
  The survivor array of the decoder is kept as one row of 128 entries per step. Lengths are those
  of vectors, so the \<^verbatim>\<open>size_t\<close> arithmetic on them does not wrap.
\<close>

section \<open>Constants and parity\<close>

definition GEN_0 :: u8 where "GEN_0 = 0x79"
definition GEN_1 :: u8 where "GEN_1 = 0x5B"
definition TAIL_BITS :: nat where "TAIL_BITS = 6"
definition PUNCTURE_PATTERN :: "nat list" where "PUNCTURE_PATTERN = [1, 1, 0, 1, 1, 0]"
definition PUNCTURE_PERIOD :: nat where "PUNCTURE_PERIOD = 6"
definition ERASURE :: u8 where "ERASURE = 2"
definition FULL_STATES :: nat where "FULL_STATES = 128"
definition INF_METRIC :: u32 where "INF_METRIC = 0xFFFFFF"

definition parity :: "u8 \<Rightarrow> u8 \<Rightarrow> u8" where
  "parity value gen =
    (let v = value AND gen;
         v = v XOR drop_bit 4 v;
         v = v XOR drop_bit 2 v;
         v = v XOR drop_bit 1 v
     in v AND 1)"

text \<open>The check both constructors make.\<close>

definition check_rate :: "code_rate \<Rightarrow> code_rate res" where
  "check_rate rate = (if rate \<noteq> RATE_1_2 \<and> rate \<noteq> RATE_3_4 then Inl Invalid_Argument else Inr rate)"

section \<open>The encoder\<close>

text \<open>The number of bits left of \<open>n\<close> by puncturing; computed the same way in
  \<open>coded_length\<close> and in \<open>decode\<close>.\<close>

definition punctured_length :: "nat \<Rightarrow> nat" where
  "punctured_length n =
    (n div PUNCTURE_PERIOD) * 4 + sum_list (take (n mod PUNCTURE_PERIOD) PUNCTURE_PATTERN)"

definition coded_length :: "code_rate \<Rightarrow> nat \<Rightarrow> nat" where
  "coded_length rate input_length =
    (let rate_half_bits = 2 * (input_length * 8 + TAIL_BITS)
     in if rate = RATE_1_2 then (rate_half_bits + 7) div 8
        else (punctured_length rate_half_bits + 7) div 8)"

definition conv_shift :: "u8 \<Rightarrow> u8 \<Rightarrow> u8" where
  "conv_shift reg bt = (drop_bit 1 reg OR push_bit 6 bt) AND 0x7F"

fun conv_loop :: "u8 \<Rightarrow> bytes \<Rightarrow> bytes" where
  "conv_loop reg [] = []"
| "conv_loop reg (bt # bits) =
    (let reg = conv_shift reg bt
     in parity reg GEN_0 # parity reg GEN_1 # conv_loop reg bits)"

fun puncture_loop :: "nat \<Rightarrow> bytes \<Rightarrow> bytes" where
  "puncture_loop i [] = []"
| "puncture_loop i (x # xs) =
    (if PUNCTURE_PATTERN ! (i mod PUNCTURE_PERIOD) = 1 then x # puncture_loop (i + 1) xs
     else puncture_loop (i + 1) xs)"

fun pack_loop :: "u8 \<Rightarrow> nat \<Rightarrow> bytes \<Rightarrow> bytes" where
  "pack_loop current_byte bit_count [] =
    (if bit_count > 0 then [push_bit (8 - bit_count) current_byte] else [])"
| "pack_loop current_byte bit_count (bt # bits) =
    (let current_byte = push_bit 1 current_byte OR bt; bit_count = bit_count + 1
     in if bit_count = 8 then current_byte # pack_loop 0 0 bits
        else pack_loop current_byte bit_count bits)"

definition fec_encode :: "code_rate \<Rightarrow> bytes \<Rightarrow> bytes" where
  "fec_encode rate data =
    (let input_bits = bytes_to_bits data @ replicate TAIL_BITS 0;
         rate_half_output = conv_loop 0 input_bits;
         coded_bits = (if rate = RATE_1_2 then rate_half_output else puncture_loop 0 rate_half_output)
     in pack_loop 0 0 coded_bits)"

section \<open>The decoder\<close>

record fec_decoder =
  code_rate :: code_rate
  corrected_errors :: u64

definition new_decoder :: "code_rate \<Rightarrow> fec_decoder res" where
  "new_decoder rate = rbind (check_rate rate) (\<lambda>rate. Inr \<lparr>code_rate = rate, corrected_errors = 0\<rparr>)"

definition reset_error_count :: "fec_decoder \<Rightarrow> fec_decoder" where
  "reset_error_count d = d\<lparr>corrected_errors := 0\<rparr>"

text \<open>Unpacking stops after the push that reaches \<open>limit\<close>; with a limit of 0 that is after one
  bit. A loop over the bits of the bytes.\<close>

fun unpack_loop :: "nat \<Rightarrow> bytes \<Rightarrow> bytes \<Rightarrow> bytes" where
  "unpack_loop limit coded_bits [] = coded_bits"
| "unpack_loop limit coded_bits (bt # bits) =
    (let coded_bits = coded_bits @ [bt]
     in if length coded_bits \<ge> limit then coded_bits else unpack_loop limit coded_bits bits)"

fun depuncture_loop :: "nat \<Rightarrow> nat \<Rightarrow> bytes \<Rightarrow> bytes" where
  "depuncture_loop i 0 coded_bits = []"
| "depuncture_loop i (Suc n) coded_bits =
    (if PUNCTURE_PATTERN ! (i mod PUNCTURE_PERIOD) = 1 then
       case coded_bits of
         c # cs \<Rightarrow> c # depuncture_loop (i + 1) n cs
       | [] \<Rightarrow> ERASURE # depuncture_loop (i + 1) n []
     else ERASURE # depuncture_loop (i + 1) n coded_bits)"

text \<open>The branch metric of the transition into register value \<open>t\<close>.\<close>

definition branch_metric :: "u8 \<Rightarrow> u8 \<Rightarrow> u8 \<Rightarrow> u32" where
  "branch_metric rx0 rx1 t =
    (if rx0 \<noteq> ERASURE \<and> rx0 \<noteq> parity t GEN_0 then 1 else 0)
    + (if rx1 \<noteq> ERASURE \<and> rx1 \<noteq> parity t GEN_1 then 1 else 0)"

definition acs_branch :: "u8 \<Rightarrow> u8 \<Rightarrow> u32 list \<Rightarrow> nat \<Rightarrow> u8 \<Rightarrow> u32 list \<times> bytes \<Rightarrow> u32 list \<times> bytes" where
  "acs_branch rx0 rx1 prev s b st =
    (let t = conv_shift (of_nat s) b;
         candidate = prev ! s + branch_metric rx0 rx1 t
     in if candidate < fst st ! unat t
        then ((fst st)[unat t := candidate], (snd st)[unat t := of_nat s])
        else st)"

definition acs_state :: "u8 \<Rightarrow> u8 \<Rightarrow> u32 list \<Rightarrow> nat \<Rightarrow> u32 list \<times> bytes \<Rightarrow> u32 list \<times> bytes" where
  "acs_state rx0 rx1 prev s st =
    (if prev ! s \<ge> INF_METRIC then st
     else acs_branch rx0 rx1 prev s 1 (acs_branch rx0 rx1 prev s 0 st))"

definition acs_step :: "u8 \<Rightarrow> u8 \<Rightarrow> u32 list \<Rightarrow> u32 list \<times> bytes" where
  "acs_step rx0 rx1 prev =
    fold (acs_state rx0 rx1 prev) [0 ..< FULL_STATES]
      (replicate FULL_STATES INF_METRIC, replicate FULL_STATES 0)"

fun viterbi_loop :: "u32 list \<Rightarrow> bytes \<Rightarrow> u32 list \<times> bytes list" where
  "viterbi_loop prev (rx0 # rx1 # rest) =
    (let (curr, row) = acs_step rx0 rx1 prev;
         (final, rows) = viterbi_loop curr rest
     in (final, row # rows))"
| "viterbi_loop prev rest = (prev, [])"

definition best_state :: "u32 list \<Rightarrow> u8" where
  "best_state metrics =
    snd (fold (\<lambda>s (best, state). if metrics ! s < best then (metrics ! s, of_nat s) else (best, state))
      [1 ..< FULL_STATES] (metrics ! 0, 0))"

text \<open>Over the rows, last step first.\<close>

fun traceback :: "bytes list \<Rightarrow> u8 \<Rightarrow> bytes \<Rightarrow> bytes" where
  "traceback [] state decoded = decoded"
| "traceback (row # rows) state decoded =
    traceback rows (row ! unat state) ((drop_bit 6 state AND 1) # decoded)"

definition viterbi :: "bytes \<Rightarrow> bytes" where
  "viterbi depunctured =
    (let (metrics, survivor) = viterbi_loop ((replicate FULL_STATES INF_METRIC)[0 := 0]) depunctured
     in traceback (rev survivor) (best_state metrics) [])"

function assemble :: "bytes \<Rightarrow> bytes" where
  "assemble bits =
    (if bits = [] then []
     else foldl (\<lambda>byte b. push_bit 1 byte OR b) 0 (take 8 bits) # assemble (drop 8 bits))"
  by auto
termination by (relation "measure length") auto

declare assemble.simps [simp del]

function count_ones :: "u8 \<Rightarrow> nat" where
  "count_ones diff = (if diff = 0 then 0 else unat (diff AND 1) + count_ones (drop_bit 1 diff))"
  by auto
termination
proof (relation "measure unat")
  fix diff :: u8 assume "diff \<noteq> 0"
  then have "unat diff div 2 < unat diff" by (simp add: unat_gt_0)
  then show "(drop_bit 1 diff, diff) \<in> measure unat"
    by (simp add: drop_bit_Suc unat_div)
qed simp

declare count_ones.simps [simp del]

definition bit_errors :: "bytes \<Rightarrow> bytes \<Rightarrow> nat" where
  "bit_errors xs ys = sum_list (map2 (\<lambda>x y. count_ones (x XOR y)) xs ys)"

definition fec_decode :: "fec_decoder \<Rightarrow> bytes \<Rightarrow> nat \<Rightarrow> bytes \<times> fec_decoder" where
  "fec_decode d coded_data original_byte_length =
    (let original_bits = original_byte_length * 8;
         rate_half_bits = 2 * (original_bits + TAIL_BITS);
         actual_coded_bits = (if code_rate d = RATE_1_2 then rate_half_bits else punctured_length rate_half_bits);
         coded_bits = unpack_loop actual_coded_bits [] (bytes_to_bits coded_data);
         depunctured = (if code_rate d = RATE_1_2 then coded_bits
                        else depuncture_loop 0 rate_half_bits coded_bits);
         decoded_bits = viterbi depunctured;
         output = assemble (take original_bits decoded_bits);
         errors = bit_errors (fec_encode (code_rate d) output) coded_data
     in (output, d\<lparr>corrected_errors := corrected_errors d + of_nat errors\<rparr>))"

end
