(* ===== verification/Viterbi.thy ===== *)
theory Viterbi
  imports Fec
begin

text \<open>
  The Viterbi decoder of \<^verbatim>\<open>src/fec_decoder.cpp\<close> is a maximum-likelihood decoder: among
  all input sequences its result is one whose code sequence is closest to what was received. The
  cost of an input sequence is defined by recursion, without tables; the lemmas show that the
  add-compare-select step keeps the least cost and a survivor for every register value, and that
  the traceback recovers the survivor.
\<close>

section \<open>Paths through the trellis\<close>

definition is_bits :: "bytes \<Rightarrow> bool" where
  "is_bits u \<longleftrightarrow> set u \<subseteq> {0, 1}"

definition reg_after :: "bytes \<Rightarrow> u8" where
  "reg_after u = foldl conv_shift 0 u"

fun path_cost :: "u8 \<Rightarrow> bytes \<Rightarrow> bytes \<Rightarrow> nat" where
  "path_cost reg (rx0 # rx1 # rest) (b # u) =
     unat (branch_metric rx0 rx1 (conv_shift reg b)) + path_cost (conv_shift reg b) rest u"
| "path_cost reg rest u = 0"

lemma is_bits_simps [simp]:
  "is_bits []" "is_bits (b # u) \<longleftrightarrow> (b = 0 \<or> b = 1) \<and> is_bits u"
  "is_bits (u @ v) \<longleftrightarrow> is_bits u \<and> is_bits v"
  by (auto simp: is_bits_def)

lemma reg_after_simps [simp]: "reg_after [] = 0" "reg_after (u @ [b]) = conv_shift (reg_after u) b"
  by (simp_all add: reg_after_def)

lemma branch_metric_le: "unat (branch_metric rx0 rx1 t) \<le> 2"
  by (simp add: branch_metric_def)

lemma path_cost_snoc:
  "length rxs = 2 * length u \<Longrightarrow> path_cost reg (rxs @ [rx0, rx1]) (u @ [b])
     = path_cost reg rxs u + unat (branch_metric rx0 rx1 (conv_shift (foldl conv_shift reg u) b))"
proof (induction u arbitrary: reg rxs)
  case (Cons a u)
  then obtain x y rest where "rxs = x # y # rest" "length rest = 2 * length u"
    by (cases rxs; cases "tl rxs") auto
  then show ?case using Cons.IH by simp
qed simp

lemma path_cost_le: "path_cost reg rxs u \<le> 2 * length u"
proof (induction reg rxs u rule: path_cost.induct)
  case (1 reg rx0 rx1 rest b u)
  then show ?case using branch_metric_le [of rx0 rx1 "conv_shift reg b"] by simp
qed simp_all

lemma conv_shift_less: "unat (conv_shift reg b) < 128"
proof -
  have "x AND 0x7F = take_bit 7 x" for x :: u8
    by (simp add: take_bit_eq_mask mask_eq_exp_minus_1)
  moreover have "unat (take_bit 7 x) < 128" for x :: u8
    using take_bit_nat_less_exp [of 7 "unat x"] by (simp add: unsigned_take_bit_eq)
  ultimately show ?thesis unfolding conv_shift_def by metis
qed

lemma reg_after_less: "unat (reg_after u) < 128"
  by (cases u rule: rev_cases) (simp_all add: conv_shift_less)

lemma conv_shift_bit:
  assumes "b = 0 \<or> b = 1" "unat reg < 128"
  shows "drop_bit 6 (conv_shift reg b) AND 1 = b"
proof -
  have "take_bit 7 reg = reg" using assms(2) by (intro take_bit_small) simp
  then have "\<not> bit reg 7" by (metis bit_take_bit_iff less_irrefl)
  then show ?thesis using assms(1) by (auto simp: conv_shift_def intro!: bit_eqI) (auto simp: bit_simps)
qed

section \<open>One step\<close>

text \<open>The transitions of a step in the order of the loops, and the effect of one of them.\<close>

definition moves :: "u32 list \<Rightarrow> nat list \<Rightarrow> (nat \<times> u8) list" where
  "moves prev ss = concat (map (\<lambda>s. if prev ! s \<ge> INF_METRIC then [] else [(s, 0), (s, 1)]) ss)"

lemma acs_fold_moves:
  "fold (acs_state rx0 rx1 prev) ss st = fold (\<lambda>(s, b). acs_branch rx0 rx1 prev s b) (moves prev ss) st"
  by (induction ss arbitrary: st) (simp_all add: moves_def acs_state_def)

definition acs_inv :: "u8 \<Rightarrow> u8 \<Rightarrow> u32 list \<Rightarrow> (nat \<times> u8) list \<Rightarrow> u32 list \<times> bytes \<Rightarrow> bool" where
  "acs_inv rx0 rx1 prev ms st \<longleftrightarrow> length (fst st) = 128 \<and> length (snd st) = 128
    \<and> (\<forall>t < 128. fst st ! t \<le> INF_METRIC
       \<and> (fst st ! t < INF_METRIC \<longrightarrow> (\<exists>(s, b) \<in> set ms. unat (conv_shift (of_nat s) b) = t
            \<and> fst st ! t = prev ! s + branch_metric rx0 rx1 (of_nat t) \<and> snd st ! t = of_nat s)))
    \<and> (\<forall>(s, b) \<in> set ms. fst st ! unat (conv_shift (of_nat s) b)
         \<le> prev ! s + branch_metric rx0 rx1 (conv_shift (of_nat s) b))"

lemma acs_inv_fold:
  "acs_inv rx0 rx1 prev ms (fold (\<lambda>(s, b). acs_branch rx0 rx1 prev s b) ms (replicate 128 INF_METRIC, replicate 128 0))"
proof (induction ms rule: rev_induct)
  case Nil
  show ?case by (simp add: acs_inv_def)
next
  case (snoc m ms)
  obtain s b where m: "m = (s, b)" by (cases m)
  let ?st = "fold (\<lambda>(s, b). acs_branch rx0 rx1 prev s b) ms (replicate 128 INF_METRIC, replicate 128 0)"
  let ?t = "conv_shift (of_nat s) b"
  let ?c = "prev ! s + branch_metric rx0 rx1 ?t"
  have t: "unat ?t < 128" "of_nat (unat ?t) = ?t" by (simp_all add: conv_shift_less)
  have len: "length (fst ?st) = 128" "length (snd ?st) = 128" using snoc by (simp_all add: acs_inv_def)
  show ?case
  proof (cases "?c < fst ?st ! unat ?t")
    case True
    have "fst ?st ! unat ?t \<le> INF_METRIC" using snoc t(1) by (simp add: acs_inv_def)
    then have "?c \<le> INF_METRIC" using True by simp
    then show ?thesis
      using snoc True t len unfolding acs_inv_def
      by (auto simp: m acs_branch_def Let_def nth_list_update intro: order_trans less_imp_le)
  next
    case False
    then show ?thesis using snoc t len unfolding acs_inv_def
      by (auto simp: m acs_branch_def Let_def)
  qed
qed

lemma acs_inv_attained:
  assumes "acs_inv rx0 rx1 prev ms st" "t < 128" "fst st ! t < INF_METRIC"
  obtains s b where "(s, b) \<in> set ms" "unat (conv_shift (of_nat s) b) = t"
    "fst st ! t = prev ! s + branch_metric rx0 rx1 (of_nat t)" "snd st ! t = of_nat s"
proof -
  have "\<exists>(s, b) \<in> set ms. unat (conv_shift (of_nat s) b) = t
      \<and> fst st ! t = prev ! s + branch_metric rx0 rx1 (of_nat t) \<and> snd st ! t = of_nat s"
    using assms unfolding acs_inv_def by blast
  then show ?thesis using that by blast
qed

section \<open>All steps\<close>

lemma traceback_append: "traceback rows state decoded = traceback rows state [] @ decoded"
proof (induction rows arbitrary: state decoded)
  case (Cons row rows)
  show ?case
    using Cons.IH [of "row ! unat state" "(drop_bit 6 state AND 1) # decoded"]
      Cons.IH [of "row ! unat state" "[drop_bit 6 state AND 1]"] by simp
qed simp

text \<open>After the steps of \<open>rxs\<close> the metric of a register value is the least cost of reaching it,
  and tracing back from it gives an input sequence of that cost.\<close>

definition trellis_inv :: "bytes \<Rightarrow> u32 list \<Rightarrow> bytes list \<Rightarrow> bool" where
  "trellis_inv rxs metrics rows \<longleftrightarrow> length metrics = 128
    \<and> (\<forall>u. is_bits u \<and> 2 * length u = length rxs \<longrightarrow> unat (metrics ! unat (reg_after u)) \<le> path_cost 0 rxs u)
    \<and> (\<forall>t < 128. metrics ! t < INF_METRIC \<longrightarrow> (\<exists>u. is_bits u \<and> 2 * length u = length rxs
        \<and> unat (reg_after u) = t \<and> path_cost 0 rxs u = unat (metrics ! t)
        \<and> traceback (rev rows) (reg_after u) [] = u))"

lemma trellis_start: "trellis_inv [] ((replicate 128 INF_METRIC)[0 := 0]) []"
  by (auto simp: trellis_inv_def nth_list_update)

lemma moves_mem: "(s, b) \<in> set (moves prev ss) \<longleftrightarrow> s \<in> set ss \<and> (b = 0 \<or> b = 1) \<and> prev ! s < INF_METRIC"
  by (auto simp: moves_def)

lemma acs_step_inv: "acs_inv rx0 rx1 prev (moves prev [0 ..< 128]) (acs_step rx0 rx1 prev)"
  unfolding acs_step_def acs_fold_moves FULL_STATES_def by (rule acs_inv_fold)

lemma unat_metric_add:
  assumes "prev ! s < INF_METRIC"
  shows "unat (prev ! s + branch_metric rx0 rx1 t) = unat (prev ! s) + unat (branch_metric rx0 rx1 t)"
  using assms branch_metric_le [of rx0 rx1 t]
  by (simp add: INF_METRIC_def word_less_nat_alt unat_word_ariths)

lemma trellis_step:
  assumes inv: "trellis_inv rxs prev rows" and even: "length rxs = 2 * n" and small: "2 * n + 2 < 0xFFFFFF"
    and step: "acs_step rx0 rx1 prev = (cur, row)"
  shows "trellis_inv (rxs @ [rx0, rx1]) cur (rows @ [row])"
proof -
  have a: "acs_inv rx0 rx1 prev (moves prev [0 ..< 128]) (cur, row)"
    using acs_step_inv [of rx0 rx1 prev] step by simp
  have le: "unat (cur ! unat (reg_after u)) \<le> path_cost 0 (rxs @ [rx0, rx1]) u"
    if u: "is_bits u" "2 * length u = length (rxs @ [rx0, rx1])" for u
  proof -
    obtain v b where v: "u = v @ [b]" using u(2) by (cases u rule: rev_cases) auto
    let ?s = "reg_after v"
    have p: "unat (prev ! unat ?s) \<le> path_cost 0 rxs v" "2 * length v = length rxs"
      using inv u v by (auto simp: trellis_inv_def)
    then have r: "prev ! unat ?s < INF_METRIC"
      using path_cost_le [of 0 rxs v] small even by (simp add: INF_METRIC_def word_less_nat_alt)
    have "(unat ?s, b) \<in> set (moves prev [0 ..< 128])"
      using r u(1) reg_after_less [of v] by (simp add: moves_mem v)
    then have "cur ! unat (conv_shift ?s b) \<le> prev ! unat ?s + branch_metric rx0 rx1 (conv_shift ?s b)"
      using a by (auto simp: acs_inv_def dest!: bspec)
    then have "unat (cur ! unat (conv_shift ?s b))
        \<le> unat (prev ! unat ?s) + unat (branch_metric rx0 rx1 (conv_shift ?s b))"
      by (simp add: word_le_nat_alt unat_metric_add [OF r])
    then show ?thesis using p by (simp add: v path_cost_snoc reg_after_def)
  qed
  have ex: "\<exists>u. is_bits u \<and> 2 * length u = length (rxs @ [rx0, rx1]) \<and> unat (reg_after u) = t
      \<and> path_cost 0 (rxs @ [rx0, rx1]) u = unat (cur ! t) \<and> traceback (rev (rows @ [row])) (reg_after u) [] = u"
    if t: "t < 128" "cur ! t < INF_METRIC" for t
  proof -
    obtain s b where sb: "(s, b) \<in> set (moves prev [0 ..< 128])" "unat (conv_shift (of_nat s) b) = t"
      "cur ! t = prev ! s + branch_metric rx0 rx1 (of_nat t)" "row ! t = of_nat s"
      by (rule acs_inv_attained [OF a t(1), unfolded fst_conv snd_conv, OF t(2)])
    then have s: "s < 128" "b = 0 \<or> b = 1" "prev ! s < INF_METRIC" by (auto simp: moves_mem)
    obtain v where v: "is_bits v" "2 * length v = length rxs" "unat (reg_after v) = s"
      "path_cost 0 rxs v = unat (prev ! s)" "traceback (rev rows) (reg_after v) [] = v"
      using inv s(1,3) by (auto simp: trellis_inv_def)
    have rv: "of_nat s = reg_after v" using v(3) by auto
    have tt: "of_nat t = conv_shift (reg_after v) b" using sb(2) rv by auto
    have "traceback (rev (rows @ [row])) (reg_after (v @ [b])) [] = v @ [b]"
      using sb(2,4) v(5) rv s(2) reg_after_less [of v]
        traceback_append [of "rev rows" "reg_after v" "[b]"] by (simp add: conv_shift_bit)
    moreover have "path_cost 0 (rxs @ [rx0, rx1]) (v @ [b]) = unat (cur ! t)"
      using v(2,4) by (simp add: path_cost_snoc sb(3) unat_metric_add [OF s(3)] tt reg_after_def)
    ultimately show ?thesis using v s(2) sb(2) rv by (intro exI [of _ "v @ [b]"]) simp
  qed
  show ?thesis using a le ex by (auto simp: trellis_inv_def acs_inv_def)
qed

lemma viterbi_loop_inv:
  assumes "trellis_inv pre prev rows" "length pre = 2 * n" "length rxs = 2 * m" "2 * (n + m) < 0xFFFFFF"
    and "viterbi_loop prev rxs = (metrics, rows')"
  shows "trellis_inv (pre @ rxs) metrics (rows @ rows')"
  using assms
proof (induction m arbitrary: pre prev rows n rxs rows')
  case (Suc m)
  then obtain x y rest where rxs: "rxs = x # y # rest" "length rest = 2 * m"
    by (cases rxs; cases "tl rxs") auto
  obtain cur row where step: "acs_step x y prev = (cur, row)" by fastforce
  obtain rows'' where rest: "viterbi_loop cur rest = (metrics, rows'')" "rows' = row # rows''"
    using Suc.prems(5) step by (auto simp: rxs split: prod.splits)
  have "trellis_inv (pre @ [x, y]) cur (rows @ [row])"
    using trellis_step [OF Suc.prems(1,2) _ step] Suc.prems(4) by simp
  from Suc.IH [OF this _ rxs(2) _ rest(1), of "Suc n"] Suc.prems show ?case by (simp add: rxs rest)
qed simp

lemma best_state_least:
  assumes "length metrics = 128" "t < 128"
  shows "unat (best_state metrics) < 128 \<and> metrics ! unat (best_state metrics) \<le> metrics ! t"
proof -
  let ?f = "\<lambda>s (best, state). if metrics ! s < best then (metrics ! s, of_nat s) else (best, state :: u8)"
  have "\<exists>best state. fold ?f [1 ..< Suc n] (metrics ! 0, 0) = (best, state) \<and> unat state \<le> n
      \<and> best = metrics ! unat state \<and> (\<forall>t \<le> n. best \<le> metrics ! t)" if "n < 128" for n
    using that
  proof (induction n)
    case (Suc n)
    then obtain best state where ih: "fold ?f [1 ..< Suc n] (metrics ! 0, 0) = (best, state)" "unat state \<le> n"
      "best = metrics ! unat state" "\<forall>t \<le> n. best \<le> metrics ! t" by auto
    have u: "unat (of_nat (Suc n) :: u8) = Suc n" using Suc.prems by (simp add: unat_of_nat del: of_nat_Suc)
    show ?case
    proof (cases "metrics ! Suc n < best")
      case True
      then have "\<forall>t \<le> Suc n. metrics ! Suc n \<le> metrics ! t"
        using ih(4) by (metis le_SucE less_imp_le order.trans order_refl)
      then show ?thesis using ih u True by (simp del: of_nat_Suc)
    next
      case False
      then have "\<forall>t \<le> Suc n. best \<le> metrics ! t"
        using ih(4) by (metis le_SucE not_le)
      then show ?thesis using ih False by (simp del: of_nat_Suc)
    qed
  qed simp
  from this [of 127] assms(2) show ?thesis
    by (auto simp: best_state_def FULL_STATES_def)
qed

lemma viterbi_least:
  assumes "length rxs = 2 * n" "2 * n < 0xFFFFFF"
  shows "is_bits (viterbi rxs) \<and> length (viterbi rxs) = n
    \<and> (\<forall>u. is_bits u \<and> length u = n \<longrightarrow> path_cost 0 rxs (viterbi rxs) \<le> path_cost 0 rxs u)"
proof -
  obtain metrics rows where l: "viterbi_loop ((replicate 128 INF_METRIC)[0 := 0]) rxs = (metrics, rows)"
    by fastforce
  have inv: "trellis_inv rxs metrics rows"
    using viterbi_loop_inv [OF trellis_start _ assms(1) _ l, of 0] assms(2) by simp
  let ?b = "best_state metrics"
  have best: "unat ?b < 128" "metrics ! unat ?b \<le> metrics ! unat (reg_after u)" for u
    using best_state_least reg_after_less inv by (auto simp: trellis_inv_def)
  have upper: "unat (metrics ! unat ?b) \<le> path_cost 0 rxs u" if "is_bits u" "length u = n" for u
    using inv best(2) [of u] that assms(1) by (fastforce simp: trellis_inv_def word_le_nat_alt)
  have "metrics ! unat ?b < INF_METRIC"
  proof -
    have "is_bits (replicate n 0)" by (auto simp: is_bits_def)
    then show ?thesis
      using upper [of "replicate n 0"] path_cost_le [of 0 rxs "replicate n 0"] assms(2)
      by (simp add: word_less_nat_alt INF_METRIC_def)
  qed
  then obtain v where v: "is_bits v" "length v = n" "unat (reg_after v) = unat ?b"
    "path_cost 0 rxs v = unat (metrics ! unat ?b)" "traceback (rev rows) (reg_after v) [] = v"
    using inv best(1) assms(1) by (auto simp: trellis_inv_def)
  have "?b = reg_after v" using v(3) by (simp add: word_unat_eq_iff)
  then have "viterbi rxs = v" using v(5) by (simp add: viterbi_def FULL_STATES_def l)
  then show ?thesis using v upper by simp
qed

end
