(* ===== verification/Fec_Correct.thy ===== *)
theory Fec_Correct
  imports Viterbi
begin

text \<open>
  What \<^verbatim>\<open>FecEncoder\<close> and \<^verbatim>\<open>FecDecoder\<close> promise together. The lemmas invert the
  packing and the puncturing, read the cost of a path as a number of disagreeing bits, and use
  that each output bit of the code determines the input bit that caused it.
\<close>

section \<open>Packing\<close>

lemma bits_of_snoc: "n < 8 \<Longrightarrow> b = 0 \<or> b = 1 \<Longrightarrow> bits_of (Suc n) (push_bit 1 v OR b) = bits_of n v @ [b]"
  for v b :: u8
proof (induction n)
  case (Suc n)
  have "bit (push_bit 1 v OR b) (Suc n) = bit v n"
    unfolding bit_or_iff bit_push_bit_iff using Suc.prems by (auto simp: bit_1_iff)
  with Suc show ?case by (simp add: bits_of_Suc del: push_bit_Suc)
qed (auto simp: bits_of_Suc bit_simps bit_0 even_or_iff)

lemma bits_of_push: "n + m \<le> 8 \<Longrightarrow> bits_of (n + m) (push_bit m v) = bits_of n v @ replicate m 0" for v :: u8
proof (induction n)
  case 0
  have "m' \<le> m \<Longrightarrow> bits_of m' (push_bit m v) = replicate m' 0" for m'
    by (induction m') (simp_all add: bits_of_Suc bit_simps)
  then show ?case by simp
next
  case (Suc n)
  then have "bit (push_bit m v) (n + m) = bit v n" by (auto simp: bit_simps)
  with Suc show ?case by (simp add: bits_of_Suc)
qed

definition padding :: "nat \<Rightarrow> nat" where
  "padding n = (8 - n mod 8) mod 8"

lemma padding_total: "n + padding n = 8 * ((n + 7) div 8)"
proof -
  obtain q r where n: "n = 8 * q + r" "r < 8" by (metis mult_div_mod_eq mod_less_divisor zero_less_numeral)
  have "(8 * q + r + 7) div 8 = q + (if r = 0 then 0 else 1)"
    using n(2) by (simp add: div_nat_eqI)
  then show ?thesis using n(2) by (simp add: n(1) padding_def)
qed

lemma pack_loop_bits:
  "cnt < 8 \<Longrightarrow> is_bits bits \<Longrightarrow>
     bytes_to_bits (pack_loop cur cnt bits) = bits_of cnt cur @ bits @ replicate (padding (cnt + length bits)) 0"
proof (induction cur cnt bits rule: pack_loop.induct)
  case (1 cur cnt)
  then show ?case using bits_of_push [of cnt "8 - cnt" cur] by (auto simp: padding_def)
next
  case (2 cur cnt b bits)
  have s: "bits_of (Suc cnt) (push_bit 1 cur OR b) = bits_of cnt cur @ [b]"
    using 2 by (intro bits_of_snoc) auto
  show ?case
  proof (cases "cnt = 7")
    case True
    then show ?thesis using 2 s by (simp add: padding_def)
  next
    case False
    then show ?thesis using 2 s by simp
  qed
qed

lemma unpack_loop_take:
  "length acc < limit \<Longrightarrow> unpack_loop limit acc bits = take limit (acc @ bits)"
  by (induction limit acc bits rule: unpack_loop.induct) (auto simp: Let_def take_Cons')

lemma foldl_byte:
  "is_bits bs \<Longrightarrow> length bs \<le> 8 \<Longrightarrow> bits_of (length bs) (foldl (\<lambda>byte b. push_bit 1 byte OR b) (0 :: u8) bs) = bs"
proof (induction bs rule: rev_induct)
  case (snoc b bs)
  then show ?case using bits_of_snoc [of "length bs" b "foldl (\<lambda>byte b. push_bit 1 byte OR b) 0 bs"] by simp
qed simp

lemma is_bits_bits_of [simp]: "is_bits (bits_of n v)" "is_bits (bytes_to_bits bs)"
  using bits_of_01 bytes_to_bits_01 by (auto simp: is_bits_def)

lemma assemble_bits: "assemble (bytes_to_bits data) = data"
proof (induction data)
  case (Cons b data)
  have "bits_of 8 (foldl (\<lambda>byte b. push_bit 1 byte OR b) (0 :: u8) (bits_of 8 b)) = bits_of 8 b"
    using foldl_byte [of "bits_of 8 b"] by simp
  then have "foldl (\<lambda>byte b. push_bit 1 byte OR b) 0 (bits_of 8 b) = b" by (simp only: bits_of_eq take_bit_u8)
  moreover have "bits_of 8 b \<noteq> []" by (metis length_bits_of list.size(3) zero_neq_numeral)
  ultimately show ?case using Cons by (simp add: assemble.simps [of "bits_of 8 b @ bytes_to_bits data"])
qed (simp add: assemble.simps)

section \<open>Puncturing\<close>

lemma length_conv_loop [simp]: "length (conv_loop reg u) = 2 * length u"
  by (induction reg u rule: conv_loop.induct) (simp_all add: Let_def)

lemma punctured_length_Suc:
  "punctured_length (Suc n) = punctured_length n + (if PUNCTURE_PATTERN ! (n mod PUNCTURE_PERIOD) = 1 then 1 else 0)"
proof -
  consider "n mod 6 = 0" | "n mod 6 = 1" | "n mod 6 = 2" | "n mod 6 = 3" | "n mod 6 = 4" | "n mod 6 = 5"
    by arith
  then show ?thesis
    by cases (simp_all add: punctured_length_def PUNCTURE_PATTERN_def PUNCTURE_PERIOD_def div_Suc mod_Suc)
qed

lemma length_puncture_loop: "length (puncture_loop i xs) + punctured_length i = punctured_length (i + length xs)"
  using punctured_length_Suc by (induction i xs rule: puncture_loop.induct) auto

fun erase_loop :: "nat \<Rightarrow> bytes \<Rightarrow> bytes" where
  "erase_loop i [] = []"
| "erase_loop i (x # xs) =
    (if PUNCTURE_PATTERN ! (i mod PUNCTURE_PERIOD) = 1 then x else ERASURE) # erase_loop (i + 1) xs"

lemma depuncture_puncture: "depuncture_loop i (length xs) (puncture_loop i xs) = erase_loop i xs"
  by (induction i xs rule: erase_loop.induct) simp_all

section \<open>Disagreements\<close>

text \<open>How many received bits differ from the code bits, erased ones apart.\<close>

definition disagreements :: "bytes \<Rightarrow> bytes \<Rightarrow> nat" where
  "disagreements rxs cs = (\<Sum>(r, c) \<leftarrow> zip rxs cs. if r \<noteq> ERASURE \<and> r \<noteq> c then 1 else 0)"

lemma disagreements_simps [simp]:
  "disagreements [] cs = 0" "disagreements rxs [] = 0"
  "disagreements (r # rxs) (c # cs) = (if r \<noteq> ERASURE \<and> r \<noteq> c then 1 else 0) + disagreements rxs cs"
  by (simp_all add: disagreements_def)

lemma path_cost_disagreements:
  "length rxs = 2 * length u \<Longrightarrow> path_cost reg rxs u = disagreements rxs (conv_loop reg u)"
proof (induction u arbitrary: reg rxs)
  case (Cons b u)
  then obtain x y rest where "rxs = x # y # rest" "length rest = 2 * length u"
    by (cases rxs; cases "tl rxs") auto
  then show ?case using Cons.IH by (simp add: branch_metric_def Let_def)
qed simp

lemma disagreements_erase: "disagreements (erase_loop i cs) cs = 0"
  by (induction i cs rule: erase_loop.induct) auto

section \<open>The code determines its input\<close>

lemma parity_xor: "parity (x XOR y) g = parity x g XOR parity y g"
  by (simp add: parity_def Let_def bit.conj_xor_distrib2 drop_bit_xor xor.assoc xor.left_commute)

lemma conv_shift_1: "unat reg < 128 \<Longrightarrow> conv_shift reg 1 = conv_shift reg 0 XOR 64"
proof -
  assume "unat reg < 128"
  then have "take_bit 7 reg = reg" by (intro take_bit_small) simp
  then have b: "\<not> bit reg 7" by (metis bit_take_bit_iff less_irrefl)
  have m: "x AND 0x7F = take_bit 7 x" for x :: u8
    by (simp add: take_bit_eq_mask mask_eq_exp_minus_1)
  have e: "bit (64 :: int) n \<longleftrightarrow> n = 6" "bit (64 :: nat) n \<longleftrightarrow> n = 6" for n
    using bit_exp_iff [where ?'a = int, of 6 n] bit_exp_iff [where ?'a = nat, of 6 n] by simp_all
  show ?thesis
    unfolding conv_shift_def m by (rule bit_eqI)
      (use b in \<open>auto simp: e bit_or_iff bit_xor_iff bit_push_bit_iff bit_take_bit_iff bit_drop_bit_eq bit_1_iff\<close>)
qed

lemma parity_new_bit:
  assumes "unat reg < 128" "b = 0 \<or> b = 1" "b' = 0 \<or> b' = 1"
  shows "parity (conv_shift reg b) GEN_0 = parity (conv_shift reg b') GEN_0 \<longleftrightarrow> b = b'"
    "parity (conv_shift reg b) GEN_1 = parity (conv_shift reg b') GEN_1 \<longleftrightarrow> b = b'"
proof -
  have "parity 64 GEN_0 = 1" "parity 64 GEN_1 = 1" by code_simp+
  then have p: "parity (conv_shift reg 1) g \<noteq> parity (conv_shift reg 0) g" if "g = GEN_0 \<or> g = GEN_1" for g
    using that xor_cancel(2) [of "parity (conv_shift reg 0) g" 1 0] by (auto simp: conv_shift_1 [OF assms(1)] parity_xor)
  note q = p [of GEN_0, simplified] p [of GEN_0, simplified, symmetric] p [of GEN_1, simplified]
    p [of GEN_1, simplified, symmetric]
  show "parity (conv_shift reg b) GEN_0 = parity (conv_shift reg b') GEN_0 \<longleftrightarrow> b = b'"
    using assms(2,3) q by (elim disjE) simp_all
  show "parity (conv_shift reg b) GEN_1 = parity (conv_shift reg b') GEN_1 \<longleftrightarrow> b = b'"
    using assms(2,3) q by (elim disjE) simp_all
qed

text \<open>At least one bit of every received pair is known.\<close>

fun known :: "bytes \<Rightarrow> bool" where
  "known (r0 # r1 # rest) \<longleftrightarrow> (r0 \<noteq> ERASURE \<or> r1 \<noteq> ERASURE) \<and> known rest"
| "known rest \<longleftrightarrow> True"

lemma zero_cost_unique:
  "known rxs \<Longrightarrow> length rxs = 2 * length u \<Longrightarrow> length v = length u \<Longrightarrow> is_bits u \<Longrightarrow> is_bits v \<Longrightarrow> unat reg < 128
   \<Longrightarrow> path_cost reg rxs u = 0 \<Longrightarrow> path_cost reg rxs v = 0 \<Longrightarrow> u = v"
proof (induction u arbitrary: reg rxs v)
  case (Cons b u)
  then obtain c w where v: "v = c # w" by (cases v) auto
  obtain x y rest where r: "rxs = x # y # rest" "length rest = 2 * length u"
    using Cons.prems(2) by (cases rxs; cases "tl rxs") auto
  have bits: "b = 0 \<or> b = 1" "c = 0 \<or> c = 1" using Cons.prems v by auto
  have "unat (branch_metric x y (conv_shift reg b)) = 0" "unat (branch_metric x y (conv_shift reg c)) = 0"
    using Cons.prems by (simp_all add: v r)
  then have "b = c"
    using parity_new_bit [OF Cons.prems(6) bits] Cons.prems(1) unfolding r(1)
    by (auto simp: branch_metric_def unat_eq_0 split: if_splits)
  then show ?case using Cons.IH [of rest w "conv_shift reg b"] Cons.prems by (simp add: v r conv_shift_less)
qed simp

section \<open>A clean channel\<close>

definition input_bits :: "bytes \<Rightarrow> bytes" where
  "input_bits data = bytes_to_bits data @ replicate TAIL_BITS 0"

definition coded_bits :: "code_rate \<Rightarrow> bytes \<Rightarrow> bytes" where
  "coded_bits rate data =
    (if rate = RATE_1_2 then conv_loop 0 (input_bits data) else puncture_loop 0 (conv_loop 0 (input_bits data)))"

definition received :: "code_rate \<Rightarrow> nat \<Rightarrow> bytes \<Rightarrow> bytes" where
  "received rate n coded =
    (let half = 2 * (n * 8 + TAIL_BITS) in
     if rate = RATE_1_2 then unpack_loop half [] (bytes_to_bits coded)
     else depuncture_loop 0 half (unpack_loop (punctured_length half) [] (bytes_to_bits coded)))"

lemma input_bits_simps [simp]:
  "length (input_bits data) = 8 * length data + 6" "is_bits (input_bits data)"
  by (simp_all add: input_bits_def TAIL_BITS_def) (simp add: is_bits_def)

lemma fec_encode_bits: "fec_encode rate data = pack_loop 0 0 (coded_bits rate data)"
  by (simp add: fec_encode_def coded_bits_def input_bits_def Let_def)

lemma parity_01: "parity v g = 0 \<or> parity v g = 1"
  unfolding parity_def Let_def and_one_eq by (simp add: mod2_eq_if)

lemma is_bits_conv_loop: "is_bits (conv_loop reg u)"
  using parity_01 by (induction reg u rule: conv_loop.induct) (auto simp: Let_def)

lemma is_bits_puncture: "is_bits xs \<Longrightarrow> is_bits (puncture_loop i xs)"
  by (induction i xs rule: puncture_loop.induct) auto

lemma is_bits_coded: "is_bits (coded_bits rate data)"
  by (simp add: coded_bits_def is_bits_conv_loop is_bits_puncture)

lemma length_coded_bits:
  "length (coded_bits rate data) = (if rate = RATE_1_2 then 16 * length data + 12
     else punctured_length (16 * length data + 12))"
  using length_puncture_loop [of 0 "conv_loop 0 (input_bits data)"]
  by (simp add: coded_bits_def punctured_length_def)

lemma coded_bits_nonempty: "0 < length (coded_bits rate data)"
proof -
  have "0 < (16 * length data + 12) div 6" by (simp add: div_greater_zero_iff)
  then show ?thesis by (simp add: length_coded_bits punctured_length_def PUNCTURE_PERIOD_def)
qed

lemma encode_unpacked:
  "bytes_to_bits (fec_encode rate data) = coded_bits rate data @ replicate (padding (length (coded_bits rate data))) 0"
  unfolding fec_encode_bits using pack_loop_bits [of 0 "coded_bits rate data" 0] is_bits_coded by simp

lemma received_clean:
  "received rate (length data) (fec_encode rate data) =
    (if rate = RATE_1_2 then conv_loop 0 (input_bits data) else erase_loop 0 (conv_loop 0 (input_bits data)))"
proof -
  let ?half = "2 * (length data * 8 + TAIL_BITS)"
  have h: "length (conv_loop 0 (input_bits data)) = ?half" by (simp add: TAIL_BITS_def)
  have c: "length (coded_bits rate data) = (if rate = RATE_1_2 then ?half else punctured_length ?half)"
    by (simp add: length_coded_bits TAIL_BITS_def)
  have u: "unpack_loop (length (coded_bits rate data)) [] (bytes_to_bits (fec_encode rate data)) = coded_bits rate data"
    using unpack_loop_take [of "[]" "length (coded_bits rate data)"] coded_bits_nonempty by (simp add: encode_unpacked)
  show ?thesis
  proof (cases "rate = RATE_1_2")
    case True
    then show ?thesis using u unfolding c by (simp add: received_def coded_bits_def)
  next
    case False
    then show ?thesis
      using u depuncture_puncture [of 0 "conv_loop 0 (input_bits data)"] unfolding c h
      by (simp add: received_def coded_bits_def Let_def)
  qed
qed

lemma known_bits: "is_bits xs \<Longrightarrow> known xs"
  by (induction xs rule: known.induct) (auto simp: ERASURE_def)

lemma known_erased: "is_bits xs \<Longrightarrow> even i \<Longrightarrow> known (erase_loop i xs)"
proof (induction xs arbitrary: i rule: known.induct)
  case (1 r0 r1 rest)
  have "i mod 6 = 0 \<or> i mod 6 = 2 \<or> i mod 6 = 4" using 1(3) by presburger
  moreover have "known (erase_loop (i + 2) rest)" using 1 by simp
  ultimately show ?case using 1(2)
    by (auto simp: ERASURE_def PUNCTURE_PATTERN_def PUNCTURE_PERIOD_def mod_Suc)
qed simp_all

lemma length_erase_loop [simp]: "length (erase_loop i xs) = length xs"
  by (induction i xs rule: erase_loop.induct) simp_all

lemma clean_path:
  fixes rate data
  defines "rx \<equiv> received rate (length data) (fec_encode rate data)"
  shows "length rx = 2 * (8 * length data + 6)" "known rx" "path_cost 0 rx (input_bits data) = 0"
proof -
  show l: "length rx = 2 * (8 * length data + 6)" by (simp add: rx_def received_clean)
  show "known rx"
    using is_bits_conv_loop by (auto simp: rx_def received_clean intro: known_bits known_erased)
  have "disagreements xs xs = 0" for xs by (induction xs) auto
  then show "path_cost 0 rx (input_bits data) = 0"
    using l by (subst path_cost_disagreements) (auto simp: rx_def received_clean disagreements_erase)
qed

lemma fec_decode_received:
  "fec_decode d coded n =
    (let output = assemble (take (n * 8) (viterbi (received (code_rate d) n coded)))
     in (output, d\<lparr>corrected_errors := corrected_errors d
           + of_nat (bit_errors (fec_encode (code_rate d) output) coded)\<rparr>))"
  by (simp add: fec_decode_def received_def Let_def)

lemma bit_errors_same: "bit_errors xs xs = 0"
  by (induction xs) (simp_all add: bit_errors_def count_ones.simps)

section \<open>One wrong bit\<close>

definition ham :: "bytes \<Rightarrow> bytes \<Rightarrow> nat" where
  "ham xs ys = (\<Sum>(x, y) \<leftarrow> zip xs ys. if x \<noteq> y then 1 else 0)"

lemma ham_simps [simp]:
  "ham [] ys = 0" "ham xs [] = 0" "ham (x # xs) (y # ys) = (if x \<noteq> y then 1 else 0) + ham xs ys"
  by (simp_all add: ham_def)

lemma ham_append: "length xs = length ys \<Longrightarrow> ham (xs @ xs') (ys @ ys') = ham xs ys + ham xs' ys'"
  by (induction xs ys rule: list_induct2) simp_all

lemma ham_sym: "ham xs ys = ham ys xs"
proof (induction xs arbitrary: ys)
  case (Cons x xs)
  then show ?case by (cases ys) auto
qed simp

lemma ham_triangle: "length xs = length ys \<Longrightarrow> length ys = length zs \<Longrightarrow> ham xs zs \<le> ham xs ys + ham ys zs"
proof (induction xs ys zs rule: list_induct3)
  case (Cons x xs y ys z zs)
  then show ?case by auto
qed simp

lemma ham_take: "ham (take n xs) (take n ys) \<le> ham xs ys"
proof (induction n arbitrary: xs ys)
  case (Suc n)
  show ?case using Suc.IH [of "tl xs" "tl ys"] by (cases xs; cases ys) auto
qed simp

lemma disagreements_ham: "is_bits rx \<Longrightarrow> disagreements rx cs = ham rx cs"
proof (induction rx arbitrary: cs)
  case (Cons r rx)
  then show ?case by (cases cs) (auto simp: ERASURE_def)
qed simp

lemma count_ones_bits: "unat w < 2 ^ n \<Longrightarrow> n \<le> 8 \<Longrightarrow> count_ones w = sum_list (map (\<lambda>b. unat b) (bits_of n w))"
proof (induction n arbitrary: w)
  case 0
  then have "w = 0" by (simp add: unat_eq_0)
  then show ?case by (simp add: count_ones.simps [of 0])
next
  case (Suc n)
  have snoc: "bits_of (Suc n) w = bits_of n (drop_bit 1 w) @ [of_bool (bit w 0)]"
    by (induction n) (simp_all add: bits_of_Suc bit_drop_bit_eq)
  have "unat (drop_bit 1 w) < 2 ^ n" using Suc.prems by (simp add: drop_bit_Suc unat_div)
  then have ih: "count_ones (drop_bit 1 w) = sum_list (map (\<lambda>b. unat b) (bits_of n (drop_bit 1 w)))"
    using Suc by simp
  have one: "unat (w AND 1) = unat (of_bool (bit w 0) :: u8)"
    by (simp add: and_one_eq mod2_eq_if bit_0)
  show ?case
  proof (cases "w = 0")
    case True
    have "\<forall>m. sum_list (map (\<lambda>b. unat b) (bits_of m (0 :: u8))) = 0"
    proof
      fix m show "sum_list (map (\<lambda>b. unat b) (bits_of m (0 :: u8))) = 0" by (induction m) (simp_all add: bits_of_Suc)
    qed
    then show ?thesis by (simp add: True count_ones.simps [of 0])
  next
    case False
    then have "count_ones w = unat (w AND 1) + count_ones (drop_bit 1 w)" by (subst count_ones.simps) simp
    then show ?thesis by (simp only: one ih snoc) simp
  qed
qed

lemma bit_errors_ham: "length xs = length ys \<Longrightarrow> bit_errors xs ys = ham (bytes_to_bits xs) (bytes_to_bits ys)"
proof (induction xs ys rule: list_induct2)
  case (Cons x xs y ys)
  have "sum_list (map (\<lambda>b. unat b) (bits_of n (x XOR y))) = ham (bits_of n x) (bits_of n y)" for n
    by (induction n) (auto simp: bits_of_Suc bit_xor_iff)
  moreover have "unat (x XOR y) < 2 ^ 8" using unsigned_less [of "x XOR y", where ?'a = nat] by simp
  ultimately have "count_ones (x XOR y) = ham (bits_of 8 x) (bits_of 8 y)"
    using count_ones_bits [of "x XOR y" 8] by simp
  then show ?case using Cons by (simp add: bit_errors_def ham_append)
qed (simp add: bit_errors_def)

lemma conv_loop_append: "conv_loop reg (u @ v) = conv_loop reg u @ conv_loop (foldl conv_shift reg u) v"
  by (induction u arbitrary: reg) (simp_all add: Let_def)

text \<open>Inputs that first differ before the last bit have code sequences three bits apart.\<close>

lemma conv_shift_flip:
  assumes "b = 0 \<or> b = 1"
  shows "conv_shift (r XOR 64) b = conv_shift r b XOR 32"
proof -
  have m: "x AND 0x7F = take_bit 7 x" for x :: u8
    by (simp add: take_bit_eq_mask mask_eq_exp_minus_1)
  have e: "bit (64 :: int) n \<longleftrightarrow> n = 6" "bit (64 :: nat) n \<longleftrightarrow> n = 6"
    "bit (32 :: int) n \<longleftrightarrow> n = 5" "bit (32 :: nat) n \<longleftrightarrow> n = 5" for n
    using bit_exp_iff [where ?'a = int, of 6 n] bit_exp_iff [where ?'a = nat, of 6 n]
      bit_exp_iff [where ?'a = int, of 5 n] bit_exp_iff [where ?'a = nat, of 5 n] by simp_all
  show ?thesis
    unfolding conv_shift_def m by (rule bit_eqI)
      (use assms in \<open>auto simp: e bit_or_iff bit_xor_iff bit_push_bit_iff bit_take_bit_iff bit_drop_bit_eq bit_1_iff\<close>)
qed

lemma second_pair:
  assumes "unat reg < 128" "b = 0 \<or> b = 1" "c = 0 \<or> c = 1" "b \<noteq> c" "x = 0 \<or> x = 1" "y = 0 \<or> y = 1"
  defines "p \<equiv> conv_shift (conv_shift reg b) x" and "q \<equiv> conv_shift (conv_shift reg c) y"
  shows "parity p GEN_0 \<noteq> parity q GEN_0 \<or> parity p GEN_1 \<noteq> parity q GEN_1"
proof -
  let ?r = "conv_shift reg 0"
  have "parity 32 GEN_0 = 1" "parity 64 GEN_1 = 1" "parity 32 GEN_1 = 0" by code_simp+
  then have g: "parity (z XOR 32) GEN_0 \<noteq> parity z GEN_0" "parity ((z XOR 64) XOR 32) GEN_1 \<noteq> parity z GEN_1"
    "parity (z XOR 32) GEN_1 = parity z GEN_1" "parity (z XOR 64) GEN_1 \<noteq> parity z GEN_1" for z
    using xor_cancel(2) [of "parity z GEN_0" 1 0] xor_cancel(2) [of "parity z GEN_1" 1 0] by (auto simp: parity_xor)
  have s: "conv_shift (conv_shift reg 1) w = conv_shift ?r w XOR 32" if "w = 0 \<or> w = 1" for w
    using that by (simp add: conv_shift_1 [OF assms(1)] conv_shift_flip)
  have one: "conv_shift ?r 1 = conv_shift ?r 0 XOR 64" by (simp add: conv_shift_1 conv_shift_less)
  show ?thesis
    using assms(2-6) s [of 0] s [of 1] g [of "conv_shift ?r 0"] g [of "conv_shift ?r 1"] one
    unfolding p_def q_def by (elim disjE) auto
qed

lemma first_difference:
  assumes reg: "unat reg < 128" and b: "b = 0 \<or> b = 1" "c = 0 \<or> c = 1" "b \<noteq> c"
    and u: "is_bits (x # u)" "is_bits (y # v)"
  shows "3 \<le> ham (conv_loop reg (b # x # u)) (conv_loop reg (c # y # v))"
  using parity_new_bit [OF reg b(1,2)] b(3) second_pair [OF reg b, of x y] u by (auto simp: Let_def)

lemma distance_three:
  "is_bits u \<Longrightarrow> is_bits v \<Longrightarrow> length u = length v \<Longrightarrow> take n u \<noteq> take n v \<Longrightarrow> n < length u \<Longrightarrow> unat reg < 128
   \<Longrightarrow> 3 \<le> ham (conv_loop reg u) (conv_loop reg v)"
proof (induction u arbitrary: v n reg)
  case (Cons b u)
  then obtain c w m where v: "v = c # w" "n = Suc m" by (cases v; cases n) auto
  show ?case
  proof (cases "b = c")
    case True
    then show ?thesis
      using Cons.IH [of w m "conv_shift reg b"] Cons.prems by (simp add: v Let_def conv_shift_less)
  next
    case False
    have "u \<noteq> []" using Cons.prems v by auto
    then obtain x u' y w' where "u = x # u'" "w = y # w'" using Cons.prems v by (cases u; cases w) auto
    then show ?thesis using first_difference [of reg b c x u' y w'] Cons.prems False by (simp add: v)
  qed
qed simp

section \<open>Properties\<close>

text \<open>The encoder's output has the length that \<open>coded_length\<close> announces, at either rate.\<close>

lemma fec_coded_length: "length (fec_encode rate data) = coded_length rate (length data)"
proof -
  let ?n = "length (coded_bits rate data)"
  have "8 * length (fec_encode rate data) = ?n + padding ?n"
    using arg_cong [OF encode_unpacked [of rate data], of length] by simp
  moreover have "?n + padding ?n = 8 * ((?n + 7) div 8)"
    by (rule padding_total)
  moreover have "coded_length rate (length data) = (?n + 7) div 8"
    by (simp add: coded_length_def length_coded_bits TAIL_BITS_def Let_def)
  ultimately show ?thesis by simp
qed

text \<open>C26. The decoder is a maximum-likelihood decoder: whatever was received (erased bits
  included), no input sequence has a code sequence that disagrees with it in fewer bits than that
  of the decoded one. The metrics have room for just under 2^24 code bits.\<close>

theorem viterbi_maximum_likelihood:
  assumes "length rx = 2 * n" "2 * n < 0xFFFFFF"
  shows "length (viterbi rx) = n \<and> set (viterbi rx) \<subseteq> {0, 1}
    \<and> (\<forall>u. length u = n \<and> set u \<subseteq> {0, 1} \<longrightarrow>
         disagreements rx (conv_loop 0 (viterbi rx)) \<le> disagreements rx (conv_loop 0 u))"
  using viterbi_least [OF assms] path_cost_disagreements assms(1) by (auto simp: is_bits_def)

lemma fec_decode_encode:
  assumes "16 * length data + 12 < 0xFFFFFF"
  shows "fec_decode d (fec_encode (code_rate d) data) (length data) = (data, d)"
proof -
  let ?rx = "received (code_rate d) (length data) (fec_encode (code_rate d) data)"
  have v: "is_bits (viterbi ?rx)" "length (viterbi ?rx) = 8 * length data + 6"
    "path_cost 0 ?rx (viterbi ?rx) \<le> path_cost 0 ?rx (input_bits data)"
    using viterbi_least [OF clean_path(1)] assms by auto
  have "input_bits data = viterbi ?rx"
    by (rule zero_cost_unique [OF clean_path(2)])
      (use v clean_path(1,3) [where rate = "code_rate d" and data = data] in auto)
  then have "take (length data * 8) (viterbi ?rx) = bytes_to_bits data"
    by (metis append_eq_conv_conj input_bits_def length_bytes_to_bits mult.commute)
  then show ?thesis by (simp add: fec_decode_received assemble_bits bit_errors_same Let_def)
qed

lemma fec_decode_one_error:
  assumes "code_rate d = RATE_1_2" "16 * length data + 12 < 0xFFFFFF"
    and "length coded = length (fec_encode RATE_1_2 data)" "bit_errors (fec_encode RATE_1_2 data) coded \<le> 1"
  shows "fec_decode d coded (length data)
    = (data, d\<lparr>corrected_errors := corrected_errors d + of_nat (bit_errors (fec_encode RATE_1_2 data) coded)\<rparr>)"
proof -
  let ?n = "16 * length data + 12" and ?u = "input_bits data"
  let ?rx = "received RATE_1_2 (length data) coded" and ?sent = "bytes_to_bits (fec_encode RATE_1_2 data)"
  have sent: "take ?n ?sent = conv_loop 0 ?u" "?n \<le> length ?sent"
    by (simp_all add: encode_unpacked coded_bits_def)
  have rx: "?rx = take ?n (bytes_to_bits coded)"
    using unpack_loop_take [of "[]" ?n "bytes_to_bits coded"] by (simp add: received_def TAIL_BITS_def Let_def)
  have l: "length ?rx = 2 * (8 * length data + 6)" using sent(2) assms(3) by (simp add: rx)
  have bits: "is_bits ?rx" unfolding rx using bytes_to_bits_01 by (auto simp: is_bits_def dest: in_set_takeD)
  have "ham (conv_loop 0 ?u) ?rx \<le> 1"
    using ham_take [of ?n ?sent "bytes_to_bits coded"] assms(3,4) bit_errors_ham [of "fec_encode RATE_1_2 data" coded]
    unfolding sent(1) rx by simp
  let ?v = "viterbi ?rx"
  have v: "is_bits ?v" "length ?v = 8 * length data + 6" "path_cost 0 ?rx ?v \<le> path_cost 0 ?rx ?u"
    using viterbi_least [OF l] assms(2) by auto
  then have "ham ?rx (conv_loop 0 ?v) \<le> ham ?rx (conv_loop 0 ?u)"
    using l by (simp add: path_cost_disagreements disagreements_ham bits)
  then have close: "ham (conv_loop 0 ?u) (conv_loop 0 ?v) \<le> 2"
    using ham_triangle [of "conv_loop 0 ?u" ?rx "conv_loop 0 ?v"] l v(2)
      \<open>ham (conv_loop 0 ?u) ?rx \<le> 1\<close> ham_sym [of ?rx "conv_loop 0 ?u"] by simp
  have "take (8 * length data) ?u = take (8 * length data) ?v"
    using distance_three [of ?u ?v "8 * length data" 0] v(1,2) close by fastforce
  then have "take (length data * 8) ?v = bytes_to_bits data" by (simp add: input_bits_def mult.commute)
  then show ?thesis using assms(1) by (simp add: fec_decode_received assemble_bits Let_def)
qed

text \<open>Decoding what the encoder produced gives the data back, at both rates, and counts no
  corrected error.\<close>

theorem fec_roundtrip:
  assumes "16 * length data + 12 < 0xFFFFFF"
  shows "fec_decode d (fec_encode (code_rate d) data) (length data) = (data, d)"
  using assms by (rule fec_decode_encode)

text \<open>At rate 1/2 any single wrong bit, in whatever byte, is corrected, and the counter of
  corrected errors grows by the number of wrong bits.\<close>

theorem fec_corrects_error:
  assumes "code_rate d = RATE_1_2" "16 * length data + 12 < 0xFFFFFF"
    and "length coded = length (fec_encode RATE_1_2 data)" "bit_errors (fec_encode RATE_1_2 data) coded \<le> 1"
  shows "fec_decode d coded (length data)
    = (data, d\<lparr>corrected_errors := corrected_errors d + of_nat (bit_errors (fec_encode RATE_1_2 data) coded)\<rparr>)"
  using assms by (rule fec_decode_one_error)

theorem viterbi_maximum_likelihood_witness:
  "disagreements [2, 1, 0, 2] (conv_loop 0 (viterbi [2, 1, 0, 2])) \<le> disagreements [2, 1, 0, 2] (conv_loop 0 [1, 0])"
  using viterbi_maximum_likelihood [of "[2, 1, 0, 2]" 2] by (simp del: conv_loop.simps)

theorem fec_roundtrip_witness:
  "fec_decode \<lparr>code_rate = RATE_3_4, corrected_errors = 5\<rparr> (fec_encode RATE_3_4 [1, 2, 255]) 3
    = ([1, 2, 255], \<lparr>code_rate = RATE_3_4, corrected_errors = 5\<rparr>)"
  using fec_roundtrip [of "[1, 2, 255]" "\<lparr>code_rate = RATE_3_4, corrected_errors = 5\<rparr>"]
  by (simp add: numeral_3_eq_3)

theorem fec_corrects_error_witness:
  "fec_decode \<lparr>code_rate = RATE_1_2, corrected_errors = 0\<rparr> [0, 50, 138, 176] 1
     = ([7], \<lparr>code_rate = RATE_1_2, corrected_errors = 1\<rparr>)"
proof -
  have e: "fec_encode RATE_1_2 [7] = [0, 54, 138, 176]" by code_simp
  have b: "bit_errors [0, 54, 138, 176] [0, 50, 138, 176] = 1" by code_simp
  show ?thesis
    using fec_corrects_error [of "\<lparr>code_rate = RATE_1_2, corrected_errors = 0\<rparr>" "[7]" "[0, 50, 138, 176]"]
    unfolding e b by simp
qed

end
