(* ===== verification/Spsc.thy ===== *)
theory Spsc
  imports Prelude "HOL-Library.Sublist"
begin

text \<open>
  The single-producer single-consumer queue of \<^verbatim>\<open>include/qpsk_b200/spsc_queue.h\<close>. First
  its operations run one at a time, behind the interface of a bounded first-in first-out queue;
  then the loads and stores of one producer thread and one consumer thread interleaved in any
  order. The acquire and release orders make the buffer accesses of one side visible to the other,
  so each atomic access is one step of the interleaving. The condition variable only wakes the
  consumer early and is not modelled.
\<close>

section \<open>The queue\<close>

record 'a spsc =
  capacity :: nat
  buffer :: "'a list"
  head :: nat
  tail :: nat

definition new_spsc :: "nat \<Rightarrow> 'a \<Rightarrow> 'a spsc" where
  "new_spsc cap x = \<lparr>capacity = cap, buffer = replicate cap x, head = 0, tail = 0\<rparr>"

text \<open>Division by a capacity of 0 is undefined.\<close>

definition next_index :: "'a spsc \<Rightarrow> nat \<Rightarrow> nat res" where
  "next_index q i = (if capacity q = 0 then Inl Undefined_Behaviour else Inr ((i + 1) mod capacity q))"

definition try_push :: "'a spsc \<Rightarrow> 'a \<Rightarrow> (bool \<times> 'a spsc) res" where
  "try_push q item =
    (let cur_head = head q in
     rbind (next_index q cur_head) (\<lambda>next_head.
     if next_head = tail q then Inr (False, q)
     else Inr (True, q\<lparr>buffer := (buffer q)[cur_head := item], head := next_head\<rparr>)))"

definition try_pop :: "'a spsc \<Rightarrow> ('a option \<times> 'a spsc) res" where
  "try_pop q =
    (let cur_tail = tail q in
     if cur_tail = head q then Inr (None, q)
     else
       let item = buffer q ! cur_tail in
       rbind (next_index q cur_tail) (\<lambda>next_tail. Inr (Some item, q\<lparr>tail := next_tail\<rparr>)))"

definition queue_size :: "'a spsc \<Rightarrow> nat" where
  "queue_size q = (if head q \<ge> tail q then head q - tail q else capacity q - tail q + head q)"

definition queue_empty :: "'a spsc \<Rightarrow> bool" where
  "queue_empty q \<longleftrightarrow> head q = tail q"

definition queue_full :: "'a spsc \<Rightarrow> bool res" where
  "queue_full q = rbind (next_index q (head q)) (\<lambda>next_head. Inr (next_head = tail q))"

section \<open>What it holds\<close>

definition spsc_inv :: "'a spsc \<Rightarrow> bool" where
  "spsc_inv q \<longleftrightarrow> 0 < capacity q \<and> length (buffer q) = capacity q \<and> head q < capacity q \<and> tail q < capacity q"

definition elements :: "'a spsc \<Rightarrow> 'a list" where
  "elements q = map (\<lambda>i. buffer q ! ((tail q + i) mod capacity q)) [0 ..< queue_size q]"

lemma length_elements [simp]: "length (elements q) = queue_size q"
  by (simp add: elements_def)

lemma spsc_inv_new: "0 < cap \<Longrightarrow> spsc_inv (new_spsc cap x)"
  by (simp add: spsc_inv_def new_spsc_def)

lemma elements_new [simp]: "elements (new_spsc cap x) = []"
  by (simp add: elements_def new_spsc_def queue_size_def)

lemma size_bound: "spsc_inv q \<Longrightarrow> queue_size q < capacity q"
  by (auto simp: spsc_inv_def queue_size_def)

lemma head_index: "spsc_inv q \<Longrightarrow> (tail q + queue_size q) mod capacity q = head q"
  by (auto simp: spsc_inv_def queue_size_def)

lemma index_neq_head:
  assumes "spsc_inv q" "i < queue_size q"
  shows "(tail q + i) mod capacity q \<noteq> head q"
proof -
  have b: "head q < capacity q" "tail q < capacity q" "i < capacity q"
    using assms size_bound [OF assms(1)] by (simp_all add: spsc_inv_def)
  have "(tail q + i) mod capacity q = (if tail q + i < capacity q then tail q + i else tail q + i - capacity q)"
    using b by (simp add: mod_if)
  then show ?thesis using b assms(2) by (simp add: queue_size_def split: if_splits)
qed

lemma next_eq_tail:
  assumes "spsc_inv q"
  shows "(head q + 1) mod capacity q = tail q \<longleftrightarrow> queue_size q = capacity q - 1"
proof -
  have b: "head q < capacity q" "tail q < capacity q" using assms by (simp_all add: spsc_inv_def)
  have "(head q + 1) mod capacity q = (if head q + 1 = capacity q then 0 else head q + 1)" using b by simp
  then show ?thesis using b by (simp add: queue_size_def) arith
qed

lemma try_push_cases:
  assumes "spsc_inv q"
  shows "if queue_size q = capacity q - 1 then try_push q x = Inr (False, q)
    else \<exists>q'. try_push q x = Inr (True, q') \<and> spsc_inv q' \<and> capacity q' = capacity q \<and> elements q' = elements q @ [x]"
proof (cases "queue_size q = capacity q - 1")
  case False
  let ?q' = "q\<lparr>buffer := (buffer q)[head q := x], head := Suc (head q) mod capacity q\<rparr>"
  have n: "(head q + 1) mod capacity q \<noteq> tail q" using next_eq_tail [OF assms] False by simp
  have inv: "spsc_inv ?q'" using assms by (simp add: spsc_inv_def)
  have size: "queue_size ?q' = Suc (queue_size q)"
    using assms n by (auto simp: spsc_inv_def queue_size_def mod_Suc split: if_splits)
  have "elements ?q' = elements q @ [x]"
  proof (rule nth_equalityI)
    fix i assume "i < length (elements ?q')"
    then have i: "i < Suc (queue_size q)" by (simp add: size)
    show "elements ?q' ! i = (elements q @ [x]) ! i"
    proof (cases "i < queue_size q")
      case True
      then show ?thesis using index_neq_head [OF assms True] size by (simp add: elements_def nth_append)
    next
      case False
      then have "i = queue_size q" using i by simp
      then show ?thesis using head_index [OF assms] assms size
        by (simp add: elements_def nth_append spsc_inv_def del: upt_Suc)
    qed
  qed (simp add: size)
  moreover have "try_push q x = Inr (True, ?q')"
    using assms n by (simp add: try_push_def next_index_def spsc_inv_def Let_def)
  ultimately show ?thesis using False inv by auto
qed (use assms next_eq_tail [OF assms] in \<open>simp add: try_push_def next_index_def spsc_inv_def Let_def\<close>)

lemma try_pop_cases:
  assumes "spsc_inv q"
  shows "case elements q of [] \<Rightarrow> try_pop q = Inr (None, q)
    | x # xs \<Rightarrow> \<exists>q'. try_pop q = Inr (Some x, q') \<and> spsc_inv q' \<and> capacity q' = capacity q \<and> elements q' = xs"
proof (cases "head q = tail q")
  case True
  then have "elements q = []" by (simp add: elements_def queue_size_def)
  then show ?thesis using True by (simp add: try_pop_def)
next
  case False
  let ?q' = "q\<lparr>tail := Suc (tail q) mod capacity q\<rparr>"
  have inv: "spsc_inv ?q'" using assms by (simp add: spsc_inv_def)
  have size: "queue_size q = Suc (queue_size ?q')"
    using assms False by (auto simp: spsc_inv_def queue_size_def mod_Suc split: if_splits)
  have "elements q = buffer q ! tail q # elements ?q'"
  proof -
    have "elements q = map (\<lambda>i. buffer q ! ((tail q + i) mod capacity q)) (0 # map Suc [0 ..< queue_size ?q'])"
      unfolding elements_def size by (simp add: map_Suc_upt upt_conv_Cons del: upt_Suc)
    then show ?thesis using assms
      by (simp add: elements_def spsc_inv_def mod_add_left_eq comp_def)
  qed
  moreover have "try_pop q = Inr (Some (buffer q ! tail q), ?q')"
    using False assms by (simp add: try_pop_def next_index_def spsc_inv_def Let_def)
  ultimately show ?thesis using inv by auto
qed

section \<open>The interface\<close>

text \<open>A bounded queue whose operations may refuse: what its client relies on.\<close>

locale bounded_fifo =
  fixes push :: "'q \<Rightarrow> 'a \<Rightarrow> (bool \<times> 'q) res"
    and pop :: "'q \<Rightarrow> ('a option \<times> 'q) res"
    and items :: "'q \<Rightarrow> 'a list" and inv :: "'q \<Rightarrow> bool" and limit :: "'q \<Rightarrow> nat"
  assumes push_ok: "inv q \<Longrightarrow> \<exists>q'. push q x = Inr (length (items q) < limit q, q') \<and> inv q' \<and> limit q' = limit q
        \<and> items q' = (if length (items q) < limit q then items q @ [x] else items q)"
    and pop_ok: "inv q \<Longrightarrow> \<exists>q'. pop q = Inr (if items q = [] then None else Some (hd (items q)), q')
        \<and> inv q' \<and> limit q' = limit q \<and> items q' = tl (items q)"
begin

text \<open>A run of pushes (an item) and pops: what was accepted and what came out.\<close>

fun run :: "'q \<Rightarrow> 'a option list \<Rightarrow> ('a list \<times> 'a list \<times> 'q) res" where
  "run q [] = Inr ([], [], q)"
| "run q (Some x # ops) =
     rbind (push q x) (\<lambda>(ok, q). rbind (run q ops) (\<lambda>(acc, out, q). Inr (if ok then x # acc else acc, out, q)))"
| "run q (None # ops) =
     rbind (pop q) (\<lambda>(r, q). rbind (run q ops) (\<lambda>(acc, out, q). Inr (acc, case r of None \<Rightarrow> out | Some x \<Rightarrow> x # out, q)))"

lemma run_fifo:
  "inv q \<Longrightarrow> \<exists>acc out q'. run q ops = Inr (acc, out, q') \<and> inv q' \<and> limit q' = limit q
     \<and> items q @ acc = out @ items q' \<and> (length (items q) \<le> limit q \<longrightarrow> length (items q') \<le> limit q)"
proof (induction ops arbitrary: q)
  case (Cons op ops)
  show ?case
  proof (cases op)
    case None
    obtain q1 where q1: "pop q = Inr (if items q = [] then None else Some (hd (items q)), q1)" "inv q1"
      "limit q1 = limit q" "items q1 = tl (items q)" using pop_ok [OF Cons.prems] by blast
    obtain acc out q' where r: "run q1 ops = Inr (acc, out, q')" "inv q'" "limit q' = limit q1"
      "items q1 @ acc = out @ items q'" "length (items q1) \<le> limit q1 \<longrightarrow> length (items q') \<le> limit q1"
      using Cons.IH [OF q1(2)] by blast
    show ?thesis using q1 r None by (cases "items q") auto
  next
    case (Some x)
    obtain q1 where q1: "push q x = Inr (length (items q) < limit q, q1)" "inv q1" "limit q1 = limit q"
      "items q1 = (if length (items q) < limit q then items q @ [x] else items q)"
      using push_ok [OF Cons.prems] by blast
    obtain acc out q' where r: "run q1 ops = Inr (acc, out, q')" "inv q'" "limit q' = limit q1"
      "items q1 @ acc = out @ items q'" "length (items q1) \<le> limit q1 \<longrightarrow> length (items q') \<le> limit q1"
      using Cons.IH [OF q1(2)] by blast
    show ?thesis using q1 r Some by (auto split: if_splits)
  qed
qed simp

end

interpretation ring: bounded_fifo try_push try_pop elements spsc_inv "\<lambda>q. capacity q - 1"
proof unfold_locales
  fix q :: "'a spsc" and x
  assume inv: "spsc_inv q"
  show "\<exists>q'. try_push q x = Inr (length (elements q) < capacity q - 1, q') \<and> spsc_inv q'
      \<and> capacity q' - 1 = capacity q - 1
      \<and> elements q' = (if length (elements q) < capacity q - 1 then elements q @ [x] else elements q)"
    using try_push_cases [OF inv, of x] size_bound [OF inv] inv by (auto split: if_splits)
next
  fix q :: "'a spsc"
  assume inv: "spsc_inv q"
  show "\<exists>q'. try_pop q = Inr (if elements q = [] then None else Some (hd (elements q)), q') \<and> spsc_inv q'
      \<and> capacity q' - 1 = capacity q - 1 \<and> elements q' = tl (elements q)"
    using try_pop_cases [OF inv] inv by (cases "elements q") auto
qed

text \<open>What a producer pushes between two calls of the consumer; a full queue refuses.\<close>

fun push_all :: "bytes spsc \<Rightarrow> bytes list \<Rightarrow> bytes spsc res" where
  "push_all q [] = Inr q"
| "push_all q (x # xs) = rbind (try_push q x) (\<lambda>(_, q). push_all q xs)"

lemma push_all_inv:
  "push_all q ps = Inr q' \<Longrightarrow> spsc_inv q \<Longrightarrow> \<exists>acc. spsc_inv q' \<and> elements q' = elements q @ acc \<and> subseq acc ps"
proof (induction ps arbitrary: q)
  case (Cons x ps)
  obtain q1 where q1: "try_push q x = Inr (length (elements q) < capacity q - 1, q1)" "spsc_inv q1"
    "elements q1 = (if length (elements q) < capacity q - 1 then elements q @ [x] else elements q)"
    using ring.push_ok [OF Cons.prems(2), of x] by blast
  then obtain acc where "spsc_inv q'" "elements q' = elements q1 @ acc" "subseq acc ps"
    using Cons.IH [of q1] Cons.prems(1) by auto
  then show ?case using q1(3) by (cases "length (elements q) < capacity q - 1") auto
qed simp

lemma push_all_ok: "spsc_inv q \<Longrightarrow> \<exists>q'. push_all q ps = Inr q'"
proof (induction ps arbitrary: q)
  case (Cons x ps)
  then show ?case using ring.push_ok [OF Cons.prems, of x] by fastforce
qed simp

section \<open>Two threads\<close>

text \<open>Where each thread is inside its call: between the atomic accesses of \<open>try_push\<close> and
  \<open>try_pop\<close>, with the values of its local variables.\<close>

datatype 'a producer =
    P_Idle
  | P_Loaded 'a nat      \<comment> \<open>item and \<open>cur_head\<close>\<close>
  | P_Room 'a nat        \<comment> \<open>the tail was read, there is room\<close>
  | P_Written 'a nat     \<comment> \<open>the slot is written\<close>

datatype 'a consumer =
    C_Idle
  | C_Loaded nat         \<comment> \<open>\<open>cur_tail\<close>\<close>
  | C_Avail nat          \<comment> \<open>the head was read, there is an item\<close>
  | C_Read 'a nat        \<comment> \<open>the slot is read\<close>

record 'a threads =
  queue :: "'a spsc"
  producer :: "'a producer"
  consumer :: "'a consumer"

datatype 'a event = Internal | Pushed 'a bool | Popped "'a option"

definition wrap :: "'a spsc \<Rightarrow> nat \<Rightarrow> nat" where
  "wrap q i = (i + 1) mod capacity q"

inductive spsc_step :: "'a threads \<Rightarrow> 'a event \<Rightarrow> 'a threads \<Rightarrow> bool" where
  load_head: "producer s = P_Idle
      \<Longrightarrow> spsc_step s Internal (s\<lparr>producer := P_Loaded x (head (queue s))\<rparr>)"
| see_full: "producer s = P_Loaded x h \<Longrightarrow> wrap (queue s) h = tail (queue s)
      \<Longrightarrow> spsc_step s (Pushed x False) (s\<lparr>producer := P_Idle\<rparr>)"
| see_room: "producer s = P_Loaded x h \<Longrightarrow> wrap (queue s) h \<noteq> tail (queue s)
      \<Longrightarrow> spsc_step s Internal (s\<lparr>producer := P_Room x h\<rparr>)"
| write_slot: "producer s = P_Room x h
      \<Longrightarrow> spsc_step s Internal (s\<lparr>queue := (queue s)\<lparr>buffer := (buffer (queue s))[h := x]\<rparr>,
                                   producer := P_Written x h\<rparr>)"
| store_head: "producer s = P_Written x h
      \<Longrightarrow> spsc_step s (Pushed x True) (s\<lparr>queue := (queue s)\<lparr>head := wrap (queue s) h\<rparr>, producer := P_Idle\<rparr>)"
| load_tail: "consumer s = C_Idle
      \<Longrightarrow> spsc_step s Internal (s\<lparr>consumer := C_Loaded (tail (queue s))\<rparr>)"
| see_empty: "consumer s = C_Loaded t \<Longrightarrow> t = head (queue s)
      \<Longrightarrow> spsc_step s (Popped None) (s\<lparr>consumer := C_Idle\<rparr>)"
| see_item: "consumer s = C_Loaded t \<Longrightarrow> t \<noteq> head (queue s)
      \<Longrightarrow> spsc_step s Internal (s\<lparr>consumer := C_Avail t\<rparr>)"
| read_slot: "consumer s = C_Avail t
      \<Longrightarrow> spsc_step s Internal (s\<lparr>consumer := C_Read (buffer (queue s) ! t) t\<rparr>)"
| store_tail: "consumer s = C_Read x t
      \<Longrightarrow> spsc_step s (Popped (Some x)) (s\<lparr>queue := (queue s)\<lparr>tail := wrap (queue s) t\<rparr>, consumer := C_Idle\<rparr>)"

inductive spsc_trace :: "'a threads \<Rightarrow> 'a event list \<Rightarrow> 'a threads \<Rightarrow> bool" where
  trace_start: "spsc_trace s [] s"
| trace_step: "spsc_trace s ls t \<Longrightarrow> spsc_step t l u \<Longrightarrow> spsc_trace s (ls @ [l]) u"

inductive_cases spsc_stepE: "spsc_step s l t"

fun accepted :: "'a event \<Rightarrow> 'a list" where
  "accepted (Pushed x True) = [x]" | "accepted _ = []"

fun returned :: "'a event \<Rightarrow> 'a list" where
  "returned (Popped (Some x)) = [x]" | "returned _ = []"

definition producer_ok :: "'a spsc \<Rightarrow> 'a producer \<Rightarrow> bool" where
  "producer_ok q p = (case p of P_Idle \<Rightarrow> True | P_Loaded x h \<Rightarrow> h = head q
     | P_Room x h \<Rightarrow> h = head q \<and> queue_size q < capacity q - 1
     | P_Written x h \<Rightarrow> h = head q \<and> queue_size q < capacity q - 1 \<and> buffer q ! h = x)"

definition consumer_ok :: "'a spsc \<Rightarrow> 'a consumer \<Rightarrow> bool" where
  "consumer_ok q c = (case c of C_Idle \<Rightarrow> True | C_Loaded t \<Rightarrow> t = tail q
     | C_Avail t \<Rightarrow> t = tail q \<and> elements q \<noteq> []
     | C_Read x t \<Rightarrow> t = tail q \<and> elements q \<noteq> [] \<and> hd (elements q) = x)"

definition threads_ok :: "'a threads \<Rightarrow> bool" where
  "threads_ok s \<longleftrightarrow> spsc_inv (queue s) \<and> producer_ok (queue s) (producer s) \<and> consumer_ok (queue s) (consumer s)"

text \<open>The effect of the three stores on what the queue holds.\<close>

lemma write_free_slot:
  fixes q x
  assumes "spsc_inv q"
  defines "q' \<equiv> q\<lparr>buffer := (buffer q)[head q := x]\<rparr>"
  shows "spsc_inv q'" "elements q' = elements q" "queue_size q' = queue_size q" "buffer q' ! head q = x"
proof -
  show "spsc_inv q'" "queue_size q' = queue_size q" "buffer q' ! head q = x"
    using assms(1) by (simp_all add: q'_def spsc_inv_def queue_size_def)
  then show "elements q' = elements q"
    using index_neq_head [OF assms(1), THEN not_sym] by (auto simp: elements_def q'_def)
qed

lemma publish_head:
  assumes "spsc_inv q" "queue_size q < capacity q - 1"
  defines "q' \<equiv> q\<lparr>head := wrap q (head q)\<rparr>"
  shows "spsc_inv q'" "elements q' = elements q @ [buffer q ! head q]"
proof -
  have "try_push q (buffer q ! head q) = Inr (True, q')"
    using assms next_eq_tail [OF assms(1)]
    by (simp add: try_push_def next_index_def spsc_inv_def Let_def wrap_def)
  then show "spsc_inv q'" "elements q' = elements q @ [buffer q ! head q]"
    using try_push_cases [OF assms(1), of "buffer q ! head q"] assms(2) by (auto split: if_splits)
qed

lemma publish_tail:
  assumes "spsc_inv q" "elements q \<noteq> []"
  defines "q' \<equiv> q\<lparr>tail := wrap q (tail q)\<rparr>"
  shows "spsc_inv q'" "elements q' = tl (elements q)" "queue_size q' \<le> queue_size q" "hd (elements q) = buffer q ! tail q"
proof -
  have ne: "tail q \<noteq> head q" using assms(2) by (auto simp: elements_def queue_size_def)
  have p: "try_pop q = Inr (Some (buffer q ! tail q), q')"
    using assms(1) ne by (simp add: try_pop_def next_index_def spsc_inv_def Let_def wrap_def q'_def)
  then show e: "spsc_inv q'" "elements q' = tl (elements q)" "hd (elements q) = buffer q ! tail q"
    using try_pop_cases [OF assms(1)] assms(2) by (auto split: list.splits)
  have "length (elements q') \<le> length (elements q)" unfolding e by simp
  then show "queue_size q' \<le> queue_size q" by simp
qed

lemma threads_step:
  assumes "spsc_step s l t" "threads_ok s"
  shows "threads_ok t \<and> capacity (queue t) = capacity (queue s)
    \<and> elements (queue s) @ accepted l = returned l @ elements (queue t)"
  using assms(1)
proof cases
  case (write_slot x h)
  then have "h = head (queue s)" "queue_size (queue s) < capacity (queue s) - 1" "spsc_inv (queue s)"
    using assms(2) by (simp_all add: threads_ok_def producer_ok_def)
  then show ?thesis
    using write_slot assms(2) write_free_slot [of "queue s" x]
    by (auto simp: threads_ok_def producer_ok_def consumer_ok_def split: consumer.splits)
next
  case (store_head x h)
  then have c: "h = head (queue s)" "queue_size (queue s) < capacity (queue s) - 1" "spsc_inv (queue s)"
    "buffer (queue s) ! head (queue s) = x"
    using assms(2) by (auto simp: threads_ok_def producer_ok_def)
  show ?thesis
    using store_head(1,2) assms(2) publish_head [OF c(3,2)] c
    by (auto simp: threads_ok_def producer_ok_def consumer_ok_def split: consumer.splits)
next
  case (store_tail x u)
  then have c: "u = tail (queue s)" "elements (queue s) \<noteq> []" "spsc_inv (queue s)" "hd (elements (queue s)) = x"
    using assms(2) by (simp_all add: threads_ok_def consumer_ok_def)
  note p = publish_tail [OF c(3,2)]
  then show ?thesis
    using store_tail(1,2) c assms(2) hd_Cons_tl [OF c(2)] p
    by (auto simp: threads_ok_def producer_ok_def consumer_ok_def split: producer.splits)
next
  case (read_slot u)
  then have "u = tail (queue s)" "elements (queue s) \<noteq> []" "spsc_inv (queue s)"
    using assms(2) by (simp_all add: threads_ok_def consumer_ok_def)
  then show ?thesis using read_slot assms(2) publish_tail(4) [of "queue s"]
    by (auto simp: threads_ok_def consumer_ok_def)
next
  case (see_room x h)
  then show ?thesis using assms(2) next_eq_tail [of "queue s"] size_bound [of "queue s"]
    by (auto simp: threads_ok_def producer_ok_def wrap_def)
next
  case (see_item u)
  then show ?thesis using assms(2)
    by (auto simp: threads_ok_def spsc_inv_def consumer_ok_def elements_def queue_size_def)
qed (use assms(2) in \<open>auto simp: threads_ok_def producer_ok_def consumer_ok_def\<close>)

lemma trace_ok:
  assumes "spsc_trace s ls t" "threads_ok s"
  shows "threads_ok t \<and> capacity (queue t) = capacity (queue s)
    \<and> elements (queue s) @ concat (map accepted ls) = concat (map returned ls) @ elements (queue t)"
  using assms
proof (induction rule: spsc_trace.induct)
  case (trace_step s ls t l u)
  then show ?case using threads_step [of t l u] by (auto simp flip: append_assoc) (metis append_assoc)
qed simp

definition new_threads :: "nat \<Rightarrow> 'a \<Rightarrow> 'a threads" where
  "new_threads cap x = \<lparr>queue = new_spsc cap x, producer = P_Idle, consumer = C_Idle\<rparr>"

lemma new_threads_ok: "0 < cap \<Longrightarrow> threads_ok (new_threads cap x)"
  by (simp add: threads_ok_def new_threads_def producer_ok_def consumer_ok_def spsc_inv_new)

lemma new_threads_queue [simp]:
  "elements (queue (new_threads cap x)) = []" "capacity (queue (new_threads cap x)) = cap"
  by (simp_all add: new_threads_def) (simp add: new_spsc_def)

text \<open>Called from one thread, the ring buffer is a first-in first-out queue of \<open>capacity - 1\<close>
  elements: over any sequence of pushes and pops, what was accepted is what was returned followed
  by what is still held, in order.\<close>

theorem spsc_sequential_fifo:
  assumes "0 < cap"
  shows "\<exists>acc out q'. ring.run (new_spsc cap x) ops = Inr (acc, out, q') \<and> acc = out @ elements q'
    \<and> queue_size q' \<le> cap - 1 \<and> queue_full q' = Inr (queue_size q' = cap - 1)
    \<and> (queue_empty q' \<longleftrightarrow> acc = out)"
proof -
  let ?q = "new_spsc cap x"
  have inv: "spsc_inv ?q" and cap: "capacity ?q = cap" using assms spsc_inv_new by (auto simp: new_spsc_def)
  obtain acc out q' where r: "ring.run ?q ops = Inr (acc, out, q')" "spsc_inv q'" "capacity q' - 1 = cap - 1"
    "acc = out @ elements q'" "queue_size q' \<le> cap - 1"
    using ring.run_fifo [OF inv, of ops] by (auto simp: cap)
  have "capacity q' = cap" using r(2,3) assms unfolding spsc_inv_def by linarith
  then have "queue_full q' = Inr (queue_size q' = cap - 1)"
    using next_eq_tail [OF r(2)] r(2) by (simp add: queue_full_def next_index_def spsc_inv_def)
  moreover have "queue_empty q' \<longleftrightarrow> elements q' = []"
    using r(2) by (auto simp: queue_empty_def elements_def queue_size_def spsc_inv_def)
  ultimately show ?thesis using r by simp
qed

theorem spsc_sequential_fifo_witness:
  "\<exists>q'. ring.run (new_spsc 3 (0 :: nat)) [Some 5, Some 6, Some 7, None] = Inr ([5, 6], [5], q') \<and> elements q' = [6]"
  using spsc_sequential_fifo [of 3 "0 :: nat" "[Some 5, Some 6, Some 7, None]"]
  by (auto simp: ring.run.simps try_push_def try_pop_def next_index_def new_spsc_def Let_def)

text \<open>C27. With one producer and one consumer thread, whatever the interleaving of their memory
  accesses: what the producer was told is accepted is, in order, what the consumer was given and
  what the queue still holds; a push is refused and a pop comes back empty only as the queue is
  full or empty at that moment; the slot being written is never the slot being read.\<close>

theorem spsc_concurrent_fifo:
  assumes "0 < cap" "spsc_trace (new_threads cap x) ls t"
  shows "concat (map accepted ls) = concat (map returned ls) @ elements (queue t)
    \<and> queue_size (queue t) \<le> cap - 1
    \<and> (\<forall>y u. spsc_step t (Pushed y False) u \<longrightarrow> queue_size (queue t) = cap - 1)
    \<and> (\<forall>u. spsc_step t (Popped None) u \<longrightarrow> elements (queue t) = [])
    \<and> (\<forall>y h k. producer t = P_Room y h \<and> consumer t = C_Avail k \<longrightarrow> h \<noteq> k \<and> h < cap \<and> k < cap)"
proof -
  have t: "threads_ok t" "capacity (queue t) = cap"
    "concat (map accepted ls) = concat (map returned ls) @ elements (queue t)"
    using trace_ok [OF assms(2) new_threads_ok [OF assms(1)]] by auto
  then have inv: "spsc_inv (queue t)" by (simp add: threads_ok_def)
  have full: "queue_size (queue t) = cap - 1" if "spsc_step t (Pushed y False) u" for y u
    using that t(1,2) next_eq_tail [OF inv]
    by cases (auto simp: threads_ok_def producer_ok_def wrap_def)
  have empty: "elements (queue t) = []" if "spsc_step t (Popped None) u" for u
    using that t(1) by cases (auto simp: threads_ok_def consumer_ok_def elements_def queue_size_def)
  have race: "h \<noteq> k \<and> h < cap \<and> k < cap" if "producer t = P_Room y h" "consumer t = C_Avail k" for y h k
    using that t(1,2) inv
    by (auto simp: threads_ok_def producer_ok_def consumer_ok_def elements_def queue_size_def spsc_inv_def)
  show ?thesis using t(2,3) size_bound [OF inv] full empty race by auto
qed

theorem spsc_concurrent_fifo_witness:
  "spsc_trace (new_threads 2 (0 :: nat)) [Internal, Internal, Internal, Pushed 7 True]
      \<lparr>queue = \<lparr>capacity = 2, buffer = [7, 0], head = 1, tail = 0\<rparr>, producer = P_Idle, consumer = C_Idle\<rparr>
    \<and> elements \<lparr>capacity = 2, buffer = [7, 0 :: nat], head = 1, tail = 0\<rparr> = [7]"
proof -
  let ?q = "new_spsc 2 (0 :: nat)" and ?q1 = "\<lparr>capacity = 2, buffer = [7, 0 :: nat], head = 0, tail = 0\<rparr>"
  let ?q2 = "\<lparr>capacity = 2, buffer = [7, 0 :: nat], head = 1, tail = 0\<rparr>"
  let ?s = "\<lambda>q p. \<lparr>queue = q, producer = p, consumer = C_Idle :: nat consumer\<rparr>"
  have q: "?q = \<lparr>capacity = 2, buffer = [0, 0], head = 0, tail = 0\<rparr>" by (simp add: new_spsc_def numeral_2_eq_2)
  have "spsc_step (?s ?q P_Idle) Internal (?s ?q (P_Loaded 7 0))"
    using spsc_step.load_head [of "?s ?q P_Idle" 7] by (simp add: q)
  moreover have "spsc_step (?s ?q (P_Loaded 7 0)) Internal (?s ?q (P_Room 7 0))"
    using spsc_step.see_room [of "?s ?q (P_Loaded 7 0)" 7 0] by (simp add: q wrap_def)
  moreover have "spsc_step (?s ?q (P_Room 7 0)) Internal (?s ?q1 (P_Written 7 0))"
    using spsc_step.write_slot [of "?s ?q (P_Room 7 0)" 7 0] by (simp add: q)
  moreover have "spsc_step (?s ?q1 (P_Written 7 0)) (Pushed 7 True) (?s ?q2 P_Idle)"
    using spsc_step.store_head [of "?s ?q1 (P_Written 7 0)" 7 0] by (simp add: wrap_def)
  ultimately have "spsc_trace (?s ?q P_Idle) (((([] @ [Internal]) @ [Internal]) @ [Internal]) @ [Pushed 7 True]) (?s ?q2 P_Idle)"
    by (intro spsc_trace.trace_step) (rule spsc_trace.trace_start)
  then have t: "spsc_trace (new_threads 2 0) [Internal, Internal, Internal, Pushed 7 True] (?s ?q2 P_Idle)"
    by (simp add: new_threads_def)
  then show ?thesis using spsc_concurrent_fifo [OF _ t] by simp
qed

end
