(* ===== verification/Text.thy ===== *)
theory Text
  imports Prelude "HOL-Library.Char_ord"
begin

text \<open>
  What the programs use of the standard library to print and read numbers. Strings are lists of
  characters.
\<close>

section \<open>Printing and reading\<close>

text \<open>\<open>std::to_string\<close> of an unsigned number.\<close>

definition digit_char :: "nat \<Rightarrow> char" where
  "digit_char d = char_of (48 + d)"

function to_string :: "nat \<Rightarrow> string" where
  "to_string n = (if n < 10 then [digit_char n] else to_string (n div 10) @ [digit_char (n mod 10)])"
  by auto
termination by (relation "measure id") auto

declare to_string.simps [simp del]

text \<open>\<open>std::stoull\<close>: leading white space, a sign, digits; the rest is ignored. No digits or a
  magnitude of \<open>2^64\<close> or more is an exception, a minus sign negates modulo \<open>2^64\<close>.
  \<open>unsigned long\<close> has 64 bits, so \<open>std::stoul\<close> is the same function.\<close>

definition is_space :: "char \<Rightarrow> bool" where
  "is_space c \<longleftrightarrow> (let n = of_char c :: nat in n = 32 \<or> 9 \<le> n \<and> n \<le> 13)"

definition is_digit :: "char \<Rightarrow> bool" where
  "is_digit c \<longleftrightarrow> (let n = of_char c :: nat in 48 \<le> n \<and> n \<le> 57)"

definition digits_value :: "string \<Rightarrow> nat" where
  "digits_value ds = foldl (\<lambda>n c. 10 * n + (of_char c - 48)) 0 ds"

fun sign_of :: "string \<Rightarrow> bool \<times> string" where
  "sign_of [] = (False, [])"
| "sign_of (c # cs) = (if c = CHR ''-'' then (True, cs) else if c = CHR ''+'' then (False, cs) else (False, c # cs))"

definition stoull :: "string \<Rightarrow> u64 option" where
  "stoull s =
    (let (negative, rest) = sign_of (dropWhile is_space s);
         ds = takeWhile is_digit rest
     in if ds = [] then None
        else if 2 ^ 64 \<le> digits_value ds then None
        else Some (if negative then - of_nat (digits_value ds) else of_nat (digits_value ds)))"

text \<open>\<open>std::stoi\<close>: the same grammar, an \<open>int\<close> of 32 bits.\<close>

definition stoi :: "string \<Rightarrow> int option" where
  "stoi s =
    (let (negative, rest) = sign_of (dropWhile is_space s);
         ds = takeWhile is_digit rest;
         n = (if negative then - int (digits_value ds) else int (digits_value ds))
     in if ds = [] then None
        else if n < - (2 ^ 31) \<or> 2 ^ 31 \<le> n then None
        else Some n)"

section \<open>Numbers printed and read\<close>

lemma digit_code: "d < 10 \<Longrightarrow> (of_char (digit_char d) :: nat) = 48 + d"
  by (simp add: digit_char_def)

lemma to_string_digits: "\<forall>c \<in> set (to_string n). is_digit c"
proof (induction n rule: to_string.induct)
  case (1 n)
  then show ?case
    by (subst to_string.simps) (auto simp: is_digit_def digit_code Let_def)
qed

lemma to_string_neq_Nil [simp]: "to_string n \<noteq> []"
  by (subst to_string.simps) simp

lemma to_string_value: "digits_value (to_string n) = n"
proof (induction n rule: to_string.induct)
  case (1 n)
  show ?case
  proof (cases "n < 10")
    case True
    then show ?thesis by (subst to_string.simps) (simp add: digits_value_def digit_code)
  next
    case False
    then show ?thesis using 1 by (subst to_string.simps) (simp add: digits_value_def digit_code)
  qed
qed

lemma stoull_to_string:
  assumes "n < 2 ^ 64"
  shows "stoull (to_string n) = Some (of_nat n)"
proof -
  obtain c cs where c: "to_string n = c # cs" by (cases "to_string n") auto
  then have d: "is_digit c" using to_string_digits [of n] by simp
  then have "\<not> is_space c" "c \<noteq> CHR ''-''" "c \<noteq> CHR ''+''" by (auto simp: is_digit_def is_space_def Let_def)
  then have sgn: "sign_of (dropWhile is_space (to_string n)) = (False, to_string n)" by (simp add: c)
  have tw: "takeWhile is_digit (to_string n) = to_string n" using to_string_digits [of n] by simp
  show ?thesis using assms
    by (simp only: stoull_def sgn Let_def prod.case tw to_string_neq_Nil if_False to_string_value) simp
qed

end
