(* ===== verification/Ieee.thy ===== *)
theory Ieee
  imports Complex_Main
begin

text \<open>
  IEEE floating-point values as far as the modelled code looks at them: literals, copies and
  comparisons, no arithmetic. A finite value is the rational number it stands for; the negative
  zero is a value of its own that compares equal to zero. Every comparison with a NaN is false.
\<close>

datatype ieee = Finite rat | Minus_Zero | Infinite bool | NaN   \<comment> \<open>the flag says negative\<close>

definition unsigned_zero :: "ieee \<Rightarrow> ieee" where
  "unsigned_zero x = (if x = Minus_Zero then Finite 0 else x)"

fun less_value :: "ieee \<Rightarrow> ieee \<Rightarrow> bool" where
  "less_value (Finite x) (Finite y) = (x < y)"
| "less_value (Finite x) (Infinite negative) = (\<not> negative)"
| "less_value (Infinite negative) (Finite y) = negative"
| "less_value (Infinite n) (Infinite m) = (n \<and> \<not> m)"
| "less_value _ _ = False"

definition ieee_less :: "ieee \<Rightarrow> ieee \<Rightarrow> bool" where
  "ieee_less x y = less_value (unsigned_zero x) (unsigned_zero y)"

definition ieee_le :: "ieee \<Rightarrow> ieee \<Rightarrow> bool" where
  "ieee_le x y \<longleftrightarrow> x \<noteq> NaN \<and> y \<noteq> NaN \<and> \<not> ieee_less y x"

lemma unsigned_zero_simps [simp]:
  "unsigned_zero (Finite x) = Finite x" "unsigned_zero Minus_Zero = Finite 0"
  "unsigned_zero (Infinite n) = Infinite n" "unsigned_zero NaN = NaN"
  by (simp_all add: unsigned_zero_def)

lemma ieee_less_simps [simp]:
  "ieee_less (Finite x) (Finite y) = (x < y)" "ieee_less (Finite x) (Infinite n) = (\<not> n)"
  "ieee_less (Infinite n) (Finite y) = n" "ieee_less (Infinite n) (Infinite m) = (n \<and> \<not> m)"
  "ieee_less Minus_Zero b = ieee_less (Finite 0) b" "ieee_less a Minus_Zero = ieee_less a (Finite 0)"
  by (simp_all add: ieee_less_def)

lemma ieee_le_simps [simp]:
  "ieee_le (Finite x) (Finite y) = (x \<le> y)" "ieee_le (Finite x) (Infinite n) = (\<not> n)"
  "ieee_le (Infinite n) (Finite y) = n" "ieee_le (Infinite n) (Infinite m) = (n \<or> \<not> m)"
  by (auto simp: ieee_le_def)

lemma ieee_NaN [simp]: "\<not> ieee_less NaN x" "\<not> ieee_less x NaN" "\<not> ieee_le NaN x" "\<not> ieee_le x NaN"
  by (cases x; simp add: ieee_less_def ieee_le_def)+

lemma ieee_le_iff: "x \<noteq> NaN \<Longrightarrow> y \<noteq> NaN \<Longrightarrow> ieee_le x y \<longleftrightarrow> \<not> ieee_less y x"
  by (simp add: ieee_le_def)

end
