(* ===== verification/Symbols.thy ===== *)
theory Symbols
  imports Bits Ieee
begin

text \<open>
  The QPSK symbol mapper of \<^verbatim>\<open>src/symbol_mapper.cpp\<close>. A symbol is a pair of
  single-precision values; the mapper writes constants and the demapper only compares with zero.
\<close>

type_synonym symbol = "ieee \<times> ieee"   \<comment> \<open>real and imaginary part\<close>

text \<open>\<open>static_cast<float>(M_SQRT1_2)\<close>, the single nearest to the square root of one half.\<close>

definition sqrt_half :: rat where
  "sqrt_half = 11863283 / 16777216"

definition CONSTELLATION :: "symbol list" where
  "CONSTELLATION =
    [(Finite sqrt_half, Finite sqrt_half), (Finite (- sqrt_half), Finite sqrt_half),
     (Finite sqrt_half, Finite (- sqrt_half)), (Finite (- sqrt_half), Finite (- sqrt_half))]"

definition dibit_to_symbol :: "u8 \<Rightarrow> symbol res" where
  "dibit_to_symbol dibit = (if dibit > 3 then Inl Out_Of_Range else Inr (CONSTELLATION ! unat dibit))"

definition symbol_to_dibit :: "symbol \<Rightarrow> u8" where
  "symbol_to_dibit s =
    (let (i, q) = s; zero = Finite 0 in
     if ieee_less zero i \<and> ieee_le zero q then 0
     else if ieee_le i zero \<and> ieee_less zero q then 1
     else if ieee_le i zero \<and> ieee_le q zero then 3
     else 2)"

text \<open>The table is read without a bound check: a dibit above 3 (bits other than 0 and 1) is undefined.\<close>

fun map_loop :: "bytes \<Rightarrow> symbol list res" where
  "map_loop (b0 # b1 # bits) =
    (let dibit = push_bit 1 b0 OR b1 in
     if dibit > 3 then Inl Undefined_Behaviour
     else rbind (map_loop bits) (\<lambda>symbols. Inr (CONSTELLATION ! unat dibit # symbols)))"
| "map_loop _ = Inr []"

definition map_symbols :: "bytes \<Rightarrow> (symbol list \<times> u8) res" where
  "map_symbols bits =
    (let (padded_bits, pad) = (if length bits mod 2 \<noteq> 0 then (bits @ [0], 1) else (bits, 0))
     in rbind (map_loop padded_bits) (\<lambda>symbols. Inr (symbols, pad)))"

definition demap :: "symbol list \<Rightarrow> bytes" where
  "demap symbols =
    concat (map (\<lambda>s. let dibit = symbol_to_dibit s in [drop_bit 1 dibit AND 1, dibit AND 1]) symbols)"

section \<open>Round trip\<close>

lemma length_demap [simp]: "length (demap symbols) = 2 * length symbols"
  by (induction symbols) (simp_all add: demap_def Let_def)

lemma demap_simps [simp]:
  "demap [] = []" "demap (s # ss) = [drop_bit 1 (symbol_to_dibit s) AND 1, symbol_to_dibit s AND 1] @ demap ss"
  "demap (ss @ ts) = demap ss @ demap ts"
  by (simp_all add: demap_def Let_def)

text \<open>A symbol of the constellation and the dibit the demapper reads from it.\<close>

lemma constellation_simps:
  "symbol_to_dibit (CONSTELLATION ! 0) = 0" "symbol_to_dibit (CONSTELLATION ! 1) = 1"
  "symbol_to_dibit (CONSTELLATION ! 2) = 2" "symbol_to_dibit (CONSTELLATION ! 3) = 3"
  by (simp_all add: CONSTELLATION_def sqrt_half_def symbol_to_dibit_def)

lemma dibit_cases:
  assumes "b0 \<in> {0, 1}" "b1 \<in> {0, 1 :: u8}"
  obtains "b0 = 0" "b1 = 0" "push_bit 1 b0 OR b1 = 0" "unat (push_bit 1 b0 OR b1) = 0"
  | "b0 = 0" "b1 = 1" "push_bit 1 b0 OR b1 = 1" "unat (push_bit 1 b0 OR b1) = 1"
  | "b0 = 1" "b1 = 0" "push_bit 1 b0 OR b1 = 2" "unat (push_bit 1 b0 OR b1) = 2"
  | "b0 = 1" "b1 = 1" "push_bit 1 b0 OR b1 = 3" "unat (push_bit 1 b0 OR b1) = 3"
  using assms by auto

lemma constellation_dibit:
  assumes "b0 \<in> {0, 1}" "b1 \<in> {0, 1 :: u8}"
  shows "\<not> push_bit 1 b0 OR b1 > 3"
    "demap [CONSTELLATION ! unat (push_bit 1 b0 OR b1)] = [b0, b1]"
proof -
  show "\<not> push_bit 1 b0 OR b1 > 3" using assms by (cases rule: dibit_cases) (simp_all only:, simp_all)
  show "demap [CONSTELLATION ! unat (push_bit 1 b0 OR b1)] = [b0, b1]"
    using assms by (cases rule: dibit_cases) (simp_all only: demap_simps constellation_simps, simp_all)
qed

lemma map_loop_demap:
  "even (length bits) \<Longrightarrow> set bits \<subseteq> {0, 1} \<Longrightarrow>
    \<exists>symbols. map_loop bits = Inr symbols \<and> length symbols = length bits div 2 \<and> demap symbols = bits"
proof (induction bits rule: map_loop.induct)
  case (1 b0 b1 bits)
  have b: "b0 \<in> {0, 1}" "b1 \<in> {0, 1}" and e: "even (length bits)" "set bits \<subseteq> {0, 1}" using "1.prems" by simp_all
  obtain ss where ss: "map_loop bits = Inr ss" "length ss = length bits div 2" "demap ss = bits"
    using "1.IH" [OF refl constellation_dibit(1) [OF b] e] by blast
  let ?s = "CONSTELLATION ! unat (push_bit 1 b0 OR b1)"
  have "map_loop (b0 # b1 # bits) = Inr (?s # ss)"
    using constellation_dibit(1) [OF b] ss(1) by (simp only: map_loop.simps Let_def if_False rbind_simps)
  moreover have "demap (?s # ss) = b0 # b1 # bits"
    using demap_simps(3) [of "[?s]" ss] by (simp only: constellation_dibit(2) [OF b] ss(3) append_Cons append_Nil)
  moreover have "length (?s # ss) = length (b0 # b1 # bits) div 2" using ss(2) by simp
  ultimately show ?case by blast
qed simp_all

lemma map_symbols_demap:
  assumes "set bits \<subseteq> {0, 1}"
  shows "\<exists>symbols. map_symbols bits = Inr (symbols, of_nat (length bits mod 2))
    \<and> length symbols = (length bits + 1) div 2 \<and> take (length bits) (demap symbols) = bits"
proof (cases "even (length bits)")
  case True
  then have m: "length bits mod 2 = 0" "(length bits + 1) div 2 = length bits div 2" by presburger+
  from map_loop_demap [OF True assms] obtain ss where
    ss: "map_loop bits = Inr ss" "length ss = length bits div 2" "demap ss = bits" by blast
  have "map_symbols bits = Inr (ss, of_nat (length bits mod 2))" by (simp add: map_symbols_def m(1) ss(1))
  then show ?thesis using ss(2,3) m(2) by auto
next
  case False
  then have m: "length bits mod 2 = 1" "(length bits + 1) div 2 = length (bits @ [0]) div 2" by (presburger, simp)
  have "even (length (bits @ [0]))" "set (bits @ [0]) \<subseteq> {0, 1}" using False assms by simp_all
  from map_loop_demap [OF this] obtain ss where
    ss: "map_loop (bits @ [0]) = Inr ss" "length ss = length (bits @ [0]) div 2" "demap ss = bits @ [0]" by blast
  have "map_symbols bits = Inr (ss, of_nat (length bits mod 2))" by (simp add: map_symbols_def m(1) ss(1))
  moreover have "take (length bits) (demap ss) = bits" by (simp add: ss(3))
  ultimately show ?thesis using ss(2) m(2) by auto
qed

end
