(* ===== verification/Modem_Config.thy ===== *)
theory Modem_Config
  imports Frame Text Ieee
begin

text \<open>
  The modem's configuration: its parameters and defaults (\<^verbatim>\<open>include/qpsk_b200/types.h\<close>), the range
  checks (\<^verbatim>\<open>src/config.cpp\<close>) and the command line of \<^verbatim>\<open>src/main.cpp\<close>. An \<open>int\<close> is
  kept as an integer: every one comes from a parser that checks its 32 bits. Of a thrown
  \<open>invalid_argument\<close> the name of the offending parameter is kept.
\<close>

section \<open>Parameters\<close>

record modem_config =
  center_freq :: ieee
  tx_freq :: ieee
  rx_freq :: ieee
  sample_rate :: ieee
  tx_gain :: ieee
  rx_gain :: ieee
  tx_antenna :: string
  rx_antenna :: string
  samples_per_symbol :: int
  rrc_rolloff :: ieee
  rrc_span_symbols :: int
  barker :: bytes            \<comment> \<open>\<open>preamble\<close>\<close>
  acquisition_symbols :: int
  ramp_symbols :: int
  tcp_input_addr :: string
  tcp_input_port :: u16
  tcp_output_addr :: string
  tcp_output_port :: u16
  use_udp :: bool
  udp_input_addr :: string
  udp_input_port :: u16
  udp_output_addr :: string
  udp_output_port :: u16
  use_fec :: bool            \<comment> \<open>\<open>fec_enabled\<close>\<close>
  use_code_rate :: code_rate \<comment> \<open>\<open>fec_code_rate\<close>\<close>
  device_serial :: string

definition modem_defaults :: modem_config where
  "modem_defaults = \<lparr>center_freq = Finite 2400000000, tx_freq = Finite 0, rx_freq = Finite 0,
     sample_rate = Finite 1000000, tx_gain = Finite 40, rx_gain = Finite 40, tx_antenna = ''TX/RX'',
     rx_antenna = ''RX2'', samples_per_symbol = 4, rrc_rolloff = Finite (3152519739159347 / 9007199254740992),
     rrc_span_symbols = 6, barker = [1,1,1,1,1,0,0,1,1,0,1,0,1], acquisition_symbols = 128, ramp_symbols = 8,
     tcp_input_addr = ''127.0.0.1'', tcp_input_port = 5000, tcp_output_addr = ''127.0.0.1'', tcp_output_port = 5001,
     use_udp = False, udp_input_addr = ''127.0.0.1'', udp_input_port = 1113, udp_output_addr = ''127.0.0.1'',
     udp_output_port = 1114, use_fec = True, use_code_rate = RATE_1_2, device_serial = []\<rparr>"

definition effective_tx_freq :: "modem_config \<Rightarrow> ieee" where
  "effective_tx_freq c = (if ieee_less (Finite 0) (tx_freq c) then tx_freq c else center_freq c)"

definition effective_rx_freq :: "modem_config \<Rightarrow> ieee" where
  "effective_rx_freq c = (if ieee_less (Finite 0) (rx_freq c) then rx_freq c else center_freq c)"

section \<open>Validation\<close>

text \<open>What is thrown names the field. The message about the frequency converts it to \<open>long long\<close>, which is
  undefined for an infinite or a huge one.\<close>

datatype invalid = Field string | Undefined_Message

definition fits_long_long :: "ieee \<Rightarrow> bool" where
  "fits_long_long x =
    (case x of Finite q \<Rightarrow> - (2 ^ 63) - 1 < q \<and> q < 2 ^ 63 | Minus_Zero \<Rightarrow> True | _ \<Rightarrow> False)"

definition modem_validate :: "modem_config \<Rightarrow> invalid + unit" where
  "modem_validate c =
    (if ieee_less (center_freq c) (Finite 70000000) \<or> ieee_less (Finite 6000000000) (center_freq c) then Inl (if fits_long_long (center_freq c) then Field ''center_freq'' else Undefined_Message)
     else if ieee_le (sample_rate c) (Finite 0) \<or> ieee_less (Finite 56000000) (sample_rate c) then Inl (Field ''sample_rate'')
     else if ieee_less (tx_gain c) (Finite 0) \<or> ieee_less (Finite (359 / 4)) (tx_gain c) then Inl (Field ''tx_gain'')
     else if ieee_less (rx_gain c) (Finite 0) \<or> ieee_less (Finite 76) (rx_gain c) then Inl (Field ''rx_gain'')
     else if samples_per_symbol c < 2 then Inl (Field ''samples_per_symbol'')
     else if ieee_le (rrc_rolloff c) (Finite 0) \<or> ieee_less (Finite 1) (rrc_rolloff c) then Inl (Field ''rrc_rolloff'')
     else if rrc_span_symbols c < 1 then Inl (Field ''rrc_span_symbols'')
     else if use_code_rate c \<noteq> RATE_1_2 \<and> use_code_rate c \<noteq> RATE_3_4 then Inl (Field ''fec_code_rate'')
     else if tcp_input_port c = 0 then Inl (Field ''tcp_input_port'')
     else if tcp_output_port c = 0 then Inl (Field ''tcp_output_port'')
     else if barker c = [] then Inl (Field ''preamble'')
     else if acquisition_symbols c < 0 then Inl (Field ''acquisition_symbols'')
     else if ramp_symbols c < 0 then Inl (Field ''ramp_symbols'')
     else Inr ())"

section \<open>Command line\<close>

datatype app_mode = TX_ONLY | RX_ONLY | TX_RX

record app_options =
  app_config :: modem_config
  app_mode :: app_mode

text \<open>A call that may end the process, throw, have undefined behaviour, or return.\<close>

datatype 'a outcome = Exits nat | Throws | Undefined | Returns 'a

definition map_outcome :: "('a \<Rightarrow> 'b) \<Rightarrow> 'a outcome \<Rightarrow> 'b outcome" where
  "map_outcome f r = (case r of Exits n \<Rightarrow> Exits n | Throws \<Rightarrow> Throws | Undefined \<Rightarrow> Undefined | Returns x \<Rightarrow> Returns (f x))"

definition from_option :: "'a option \<Rightarrow> ('a \<Rightarrow> 'b) \<Rightarrow> 'b outcome" where
  "from_option x f = (case x of None \<Rightarrow> Throws | Some y \<Rightarrow> Returns (f y))"

text \<open>One option with its value. \<open>stod\<close> is the library's parser of doubles, whose exceptions are
  \<open>None\<close>; \<open>load\<close> reads a configuration file.\<close>

definition set_option ::
  "(string \<Rightarrow> ieee option) \<Rightarrow> (string \<Rightarrow> modem_config outcome) \<Rightarrow> app_options \<Rightarrow> string \<Rightarrow> string \<Rightarrow> app_options outcome" where
  "set_option stod load opts arg val =
    (let c = app_config opts;
         upd = (\<lambda>d. opts\<lparr>app_config := d\<rparr>)
     in
     if arg = ''--config'' then map_outcome upd (load val)
     else if arg = ''--mode'' then
       (if val = ''tx'' then Returns (opts\<lparr>app_mode := TX_ONLY\<rparr>)
        else if val = ''rx'' then Returns (opts\<lparr>app_mode := RX_ONLY\<rparr>)
        else if val = ''txrx'' then Returns (opts\<lparr>app_mode := TX_RX\<rparr>)
        else Exits 1)
     else if arg = ''--serial'' then Returns (upd (c\<lparr>device_serial := val\<rparr>))
     else if arg = ''--center-freq'' then from_option (stod val) (\<lambda>x. upd (c\<lparr>center_freq := x\<rparr>))
     else if arg = ''--tx-freq'' then from_option (stod val) (\<lambda>x. upd (c\<lparr>tx_freq := x\<rparr>))
     else if arg = ''--rx-freq'' then from_option (stod val) (\<lambda>x. upd (c\<lparr>rx_freq := x\<rparr>))
     else if arg = ''--sample-rate'' then from_option (stod val) (\<lambda>x. upd (c\<lparr>sample_rate := x\<rparr>))
     else if arg = ''--tx-gain'' then from_option (stod val) (\<lambda>x. upd (c\<lparr>tx_gain := x\<rparr>))
     else if arg = ''--rx-gain'' then from_option (stod val) (\<lambda>x. upd (c\<lparr>rx_gain := x\<rparr>))
     else if arg = ''--tx-antenna'' then Returns (upd (c\<lparr>tx_antenna := val\<rparr>))
     else if arg = ''--rx-antenna'' then Returns (upd (c\<lparr>rx_antenna := val\<rparr>))
     else if arg = ''--sps'' then from_option (stoi val) (\<lambda>n. upd (c\<lparr>samples_per_symbol := n\<rparr>))
     else if arg = ''--rrc-rolloff'' then from_option (stod val) (\<lambda>x. upd (c\<lparr>rrc_rolloff := x\<rparr>))
     else if arg = ''--tcp-input-addr'' then Returns (upd (c\<lparr>tcp_input_addr := val\<rparr>))
     else if arg = ''--tcp-input-port'' then from_option (stoi val) (\<lambda>n. upd (c\<lparr>tcp_input_port := of_int n\<rparr>))
     else if arg = ''--tcp-output-addr'' then Returns (upd (c\<lparr>tcp_output_addr := val\<rparr>))
     else if arg = ''--tcp-output-port'' then from_option (stoi val) (\<lambda>n. upd (c\<lparr>tcp_output_port := of_int n\<rparr>))
     else if arg = ''--fec-enabled'' then Returns (upd (c\<lparr>use_fec := (val = ''1'' \<or> val = ''true'')\<rparr>))
     else if arg = ''--fec-code-rate'' then
       (if val = ''1/2'' then Returns (upd (c\<lparr>use_code_rate := RATE_1_2\<rparr>))
        else if val = ''3/4'' then Returns (upd (c\<lparr>use_code_rate := RATE_3_4\<rparr>))
        else Exits 1)
     else if arg = ''--udp-input-addr'' then Returns (upd (c\<lparr>udp_input_addr := val\<rparr>))
     else if arg = ''--udp-input-port'' then from_option (stoi val) (\<lambda>n. upd (c\<lparr>udp_input_port := of_int n\<rparr>))
     else if arg = ''--udp-output-addr'' then Returns (upd (c\<lparr>udp_output_addr := val\<rparr>))
     else if arg = ''--udp-output-port'' then from_option (stoi val) (\<lambda>n. upd (c\<lparr>udp_output_port := of_int n\<rparr>))
     else if arg = ''--acquisition-symbols'' then from_option (stoi val) (\<lambda>n. upd (c\<lparr>acquisition_symbols := n\<rparr>))
     else if arg = ''--ramp-symbols'' then from_option (stoi val) (\<lambda>n. upd (c\<lparr>ramp_symbols := n\<rparr>))
     else Exits 1)"

function parse_loop ::
  "(string \<Rightarrow> ieee option) \<Rightarrow> (string \<Rightarrow> modem_config outcome) \<Rightarrow> app_options \<Rightarrow> string list \<Rightarrow> app_options outcome" where
  "parse_loop stod load opts args =
    (case args of
       [] \<Rightarrow> Returns opts
     | arg # rest \<Rightarrow>
         if arg = ''--help'' \<or> arg = ''-h'' then Exits 0
         else if arg = ''--udp'' then
           parse_loop stod load (opts\<lparr>app_config := (app_config opts)\<lparr>use_udp := True\<rparr>\<rparr>) rest
         else
           (case rest of
              [] \<Rightarrow> Exits 1
            | val # rest' \<Rightarrow>
                (case set_option stod load opts arg val of
                   Exits n \<Rightarrow> Exits n
                 | Throws \<Rightarrow> Throws
                 | Undefined \<Rightarrow> Undefined
                 | Returns opts' \<Rightarrow> parse_loop stod load opts' rest')))"
  by pat_completeness auto
termination by (relation "measure (\<lambda>(_, _, _, args). length args)") auto

declare parse_loop.simps [simp del]

definition parse_args ::
  "(string \<Rightarrow> ieee option) \<Rightarrow> (string \<Rightarrow> modem_config outcome) \<Rightarrow> string list \<Rightarrow> app_options outcome" where
  "parse_args stod load argv =
    (case parse_loop stod load \<lparr>app_config = modem_defaults, app_mode = TX_RX\<rparr> (tl argv) of
       Exits n \<Rightarrow> Exits n
     | Throws \<Rightarrow> Throws
     | Undefined \<Rightarrow> Undefined
     | Returns opts \<Rightarrow>
         (case modem_validate (app_config opts) of
            Inr _ \<Rightarrow> Returns opts
          | Inl (Field _) \<Rightarrow> Throws
          | Inl Undefined_Message \<Rightarrow> Undefined))"

end
