(* ===== verification/Modem.thy ===== *)
theory Modem
  imports Symbols Fec Modem_Config
begin

text \<open>
  The transmit pipeline up to the symbols (\<^verbatim>\<open>src/encoder.cpp\<close>) and the receive pipeline from
  recovered symbols on (\<^verbatim>\<open>src/decoder.cpp\<close>). The search for the preamble and the phase
  rotation compute with floating-point numbers and are parameters of the definitions that call them;
  theory \<open>Pipeline\<close> has both, the pulse shaping and the recovery of the symbols.
\<close>

section \<open>Encoder\<close>

record tx_diagnostics =
  frames_transmitted :: u64
  symbols_transmitted :: u64

record encoder =
  enc_config :: modem_config
  enc_builder :: frame_builder
  enc_diag :: tx_diagnostics

definition make_doubled_preamble :: "bytes \<Rightarrow> bytes" where
  "make_doubled_preamble p = p @ p"

definition bpsk_map_preamble :: "bytes \<Rightarrow> symbol list" where
  "bpsk_map_preamble bits = map (\<lambda>b. (if b = 0 then Finite 1 else Finite (-1), Finite 0)) bits"

text \<open>A negative count becomes a huge size that \<open>reserve\<close> rejects.\<close>

definition acquisition_pattern :: "symbol list" where
  "acquisition_pattern =
    [(Finite sqrt_half, Finite sqrt_half), (Finite sqrt_half, Finite (- sqrt_half)),
     (Finite (- sqrt_half), Finite (- sqrt_half)), (Finite (- sqrt_half), Finite sqrt_half)]"

definition generate_acquisition_symbols :: "int \<Rightarrow> symbol list res" where
  "generate_acquisition_symbols count =
    (if count < 0 then Inl Length_Error
     else Inr (map (\<lambda>i. acquisition_pattern ! (i mod 4)) [0 ..< nat count]))"

definition TAIL_SYMBOLS :: nat where "TAIL_SYMBOLS = 6"

definition new_encoder :: "modem_config \<Rightarrow> encoder res" where
  "new_encoder cfg =
    rbind (check_rate (use_code_rate cfg)) (\<lambda>_.
    Inr \<lparr>enc_config = cfg, enc_builder = new_builder (make_doubled_preamble (barker cfg)),
         enc_diag = \<lparr>frames_transmitted = 0, symbols_transmitted = 0\<rparr>\<rparr>)"

text \<open>Steps 1 and 2: the frame, its payload section replaced by the coded one when FEC is on.\<close>

definition splice_coded :: "nat \<Rightarrow> bytes \<Rightarrow> bytes \<Rightarrow> bytes" where
  "splice_coded preamble_bits_count fbits coded_bytes =
    (let coded_bits = bytes_to_bits coded_bytes;
         payload_start = preamble_bits_count + HEADER_BITS
     in take payload_start fbits @ coded_bits @ drop (length fbits - CRC_BITS) fbits)"

definition frame_to_send :: "encoder \<Rightarrow> bytes \<Rightarrow> bytes \<times> frame_builder" where
  "frame_to_send e data =
    (let cfg = enc_config e;
         (fbits, fb) = build_frame (enc_builder e) data 0 (use_fec cfg) (use_code_rate cfg)
     in (if use_fec cfg
         then splice_coded (length (barker cfg) * 2) fbits (fec_encode (use_code_rate cfg) data)
         else fbits, fb))"

text \<open>Steps 3 to 8 and 10: all symbols of the burst.\<close>

definition encode_symbols :: "encoder \<Rightarrow> bytes \<Rightarrow> (symbol list \<times> encoder) res" where
  "encode_symbols e data =
    (let cfg = enc_config e;
         n = length (barker cfg) * 2;
         (fbits, fb) = frame_to_send e data;
         preamble_symbols = bpsk_map_preamble (take n fbits)
     in rbind (map_symbols (drop n fbits)) (\<lambda>(data_symbols, pad).
        rbind (generate_acquisition_symbols (acquisition_symbols cfg)) (\<lambda>acquisition.
        let tail_symbols = replicate TAIL_SYMBOLS (Finite 0, Finite 0);
            all_symbols = acquisition @ preamble_symbols @ data_symbols @ tail_symbols;
            diag = enc_diag e
        in Inr (all_symbols, e\<lparr>enc_builder := fb,
             enc_diag := \<lparr>frames_transmitted = frames_transmitted diag + 1,
                          symbols_transmitted = symbols_transmitted diag + of_nat (length all_symbols)\<rparr>\<rparr>))))"

definition encode :: "(symbol list \<Rightarrow> 'samples) \<Rightarrow> encoder \<Rightarrow> bytes \<Rightarrow> ('samples \<times> encoder) res" where
  "encode shape e data = rbind (encode_symbols e data) (\<lambda>(symbols, e). Inr (shape symbols, e))"

section \<open>Decoder\<close>

record rx_diagnostics =
  frames_received :: u64
  crc_errors :: u64
  estimated_ber :: ieee         \<comment> \<open>never written\<close>
  last_freq_offset :: ieee
  last_phase_offset :: ieee
  last_timing_offset :: ieee
  fec_errors_corrected :: u64

definition no_rx_diagnostics :: rx_diagnostics where
  "no_rx_diagnostics = \<lparr>frames_received = 0, crc_errors = 0, estimated_ber = Finite 0, last_freq_offset = Finite 0,
     last_phase_offset = Finite 0, last_timing_offset = Finite 0, fec_errors_corrected = 0\<rparr>"

fun extract_bits_from_vec :: "bytes \<Rightarrow> nat \<Rightarrow> nat \<Rightarrow> u32 \<Rightarrow> u32" where
  "extract_bits_from_vec bits pos 0 value = value"
| "extract_bits_from_vec bits pos (Suc n) value =
     extract_bits_from_vec bits (pos + 1) n
       (if pos < length bits then push_bit 1 value OR ucast (bits ! pos AND 1) else value)"

text \<open>The number of payload bits on air that a header announces, if its rate is known.\<close>

definition payload_bits_on_air :: "bool \<Rightarrow> code_rate \<Rightarrow> u16 \<Rightarrow> nat option" where
  "payload_bits_on_air fec rate frame_length =
    (if fec then
       (if rate \<noteq> RATE_1_2 \<and> rate \<noteq> RATE_3_4 then None
        else Some (coded_length rate (unat frame_length) * 8))
     else Some (unat frame_length * 8))"

text \<open>The payload of a parsed frame: FEC decoding before the checksum, or the checksum alone.\<close>

definition frame_payload :: "frame \<Rightarrow> fec_decoder \<Rightarrow> rx_diagnostics \<Rightarrow> bytes option \<times> fec_decoder \<times> rx_diagnostics" where
  "frame_payload f fec_dec diag =
    (if fec_enabled (header f) then
       let (decoded, fec_dec) = fec_decode fec_dec (payload f) (unat (payload_length (header f)));
           diag = diag\<lparr>fec_errors_corrected := corrected_errors fec_dec\<rparr>
       in if \<not> verify_crc (f\<lparr>payload := decoded\<rparr>) then (None, fec_dec, diag)
          else (Some decoded, fec_dec, diag\<lparr>frames_received := frames_received diag + 1\<rparr>)
     else if \<not> crc_valid f then (None, fec_dec, diag)
     else (Some (take (unat (payload_length (header f))) (payload f)), fec_dec,
           diag\<lparr>frames_received := frames_received diag + 1\<rparr>))"

text \<open>From the symbols after the preamble, already rotated.\<close>

definition decode_data_symbols ::
  "symbol list \<Rightarrow> fec_decoder \<Rightarrow> rx_diagnostics \<Rightarrow> (bytes option \<times> fec_decoder \<times> rx_diagnostics) res" where
  "decode_data_symbols data_symbols fec_dec diag =
    (let header_symbols = (HEADER_BITS + 1) div 2 in
     if length data_symbols < header_symbols then Inr (None, fec_dec, diag)
     else
       let header_bits = demap (take header_symbols data_symbols);
           frame_length = ucast (extract_bits_from_vec header_bits 0 16 0) :: u16;
           fec_flag = extract_bits_from_vec header_bits 20 1 0 \<noteq> 0;
           rate = ucast (extract_bits_from_vec header_bits 21 2 0)
       in case payload_bits_on_air fec_flag rate frame_length of
            None \<Rightarrow> Inr (None, fec_dec, diag)
          | Some payload_bit_count \<Rightarrow>
              let total_data_bits = HEADER_BITS + payload_bit_count + CRC_BITS;
                  total_data_symbols = (total_data_bits + 1) div 2
              in if length data_symbols < total_data_symbols then Inr (None, fec_dec, diag)
                 else
                   let bits = take total_data_bits (demap (take total_data_symbols data_symbols))
                   in rbind (if fec_flag then parse_unchecked bits else parse bits) (\<lambda>frame_opt.
                      case frame_opt of
                        None \<Rightarrow> Inr (None, fec_dec, diag)
                      | Some f \<Rightarrow> Inr (frame_payload f fec_dec diag)))"

text \<open>\<open>detect\<close> finds the first symbol after the preamble, \<open>derotate\<close> corrects the phase of
  the data symbols by the received preamble, when there is one.\<close>

definition try_decode_frame ::
  "(symbol list \<Rightarrow> nat option) \<Rightarrow> (symbol list option \<Rightarrow> symbol list \<Rightarrow> symbol list) \<Rightarrow> symbol list \<Rightarrow> bytes
    \<Rightarrow> fec_decoder \<Rightarrow> rx_diagnostics \<Rightarrow> (bytes option \<times> fec_decoder \<times> rx_diagnostics) res" where
  "try_decode_frame detect derotate recovered doubled_preamble fec_dec diag =
    (case detect recovered of
       None \<Rightarrow> Inr (None, fec_dec, diag)
     | Some frame_start \<Rightarrow>
         if length recovered < frame_start then Inl Undefined_Behaviour
         else
           let preamble_len = length doubled_preamble;
               received_preamble = (if preamble_len \<le> frame_start
                  then Some (take preamble_len (drop (frame_start - preamble_len) recovered)) else None)
           in decode_data_symbols (derotate received_preamble (drop frame_start recovered)) fec_dec diag)"

text \<open>Every \<open>sps\<close>-th sample after the delay of the two filters; a validated configuration has
  at least two samples per symbol, with none the loop would not end.\<close>

function decimate :: "nat \<Rightarrow> nat \<Rightarrow> symbol list \<Rightarrow> symbol list" where
  "decimate pos sps samples =
    (if sps = 0 \<or> length samples \<le> pos then [] else samples ! pos # decimate (pos + sps) sps samples)"
  by auto
termination by (relation "measure (\<lambda>(pos, _, samples). length samples - pos)") auto

declare decimate.simps [simp del]

record decoder =
  dec_config :: modem_config
  dec_fec :: fec_decoder
  dec_diag :: rx_diagnostics

definition new_modem_decoder :: "modem_config \<Rightarrow> decoder res" where
  "new_modem_decoder cfg =
    rbind (new_decoder (use_code_rate cfg)) (\<lambda>fec.
    Inr \<lparr>dec_config = cfg, dec_fec = fec, dec_diag = no_rx_diagnostics\<rparr>)"

definition modem_reset :: "decoder \<Rightarrow> decoder" where
  "modem_reset d = d\<lparr>dec_diag := no_rx_diagnostics\<rparr>"

end
