(* ===== verification/Link.thy ===== *)
theory Link
  imports Modem Fec_Correct
begin

text \<open>
  From payload to payload: what the encoder puts on air, the decoder gives back, as long as the
  signal processing in between keeps the quadrants of the symbols.
\<close>

section \<open>Demapped bits\<close>

lemma demap_01: "set (demap ss) \<subseteq> {0, 1}"
proof -
  have "x AND 1 = 0 \<or> x AND 1 = 1" for x :: u8 by (simp add: and_one_eq mod2_eq_if)
  then have "x AND 1 \<in> {0, 1}" for x :: u8 by blast
  then show ?thesis by (induction ss) auto
qed

lemma demap_take: "demap (take k ss) = take (2 * k) (demap ss)"
proof (induction ss arbitrary: k)
  case (Cons s ss)
  then show ?case by (cases k) simp_all
qed simp

section \<open>Reading the header\<close>

lemma extract_vec:
  "pos + n \<le> length bits \<Longrightarrow> extract_loop bits pos n v = Inr (extract_bits_from_vec bits pos n v)"
  by (induction n arbitrary: pos v) simp_all

lemma extract_vec_field:
  fixes v :: "'n :: len word"
  assumes "Prelude.at bits off (bits_of n v @ rest)"
  shows "extract_bits_from_vec bits off n 0 = take_bit n (ucast v)"
proof -
  have "off + n \<le> length bits" using Prelude.at_length [OF assms] by simp
  then have "Inr (extract_bits_from_vec bits off n 0) = extract_loop bits off n 0" by (simp add: extract_vec)
  also have "\<dots> = Inr (take_bit n (ucast v))" using extract_loop_bits_of [OF assms, of 0] by simp
  finally show ?thesis by simp
qed

lemma header_fields:
  fixes len pad fec rate seq pl c
  defines "b \<equiv> take 36 (frame_bits len pad fec rate seq pl c)"
  shows "extract_bits_from_vec b 0 16 0 = ucast len" "extract_bits_from_vec b 20 1 0 = of_bool fec"
    "extract_bits_from_vec b 21 2 0 = take_bit 2 (ucast rate)"
proof -
  obtain rest where b: "b = bits_of 16 len @ bits_of 4 pad @ [of_bool fec] @ bits_of 2 rate @ rest"
    unfolding b_def frame_bits_def by (simp add: take_append)
  have one: "[of_bool fec] = bits_of 1 (of_bool fec :: u8)" 
  proof -
    have "bits_of 1 (0 :: u8) = [0]" "bits_of 1 (1 :: u8) = [1]" by code_simp+
    then show ?thesis by (cases fec) (simp_all only: of_bool_eq)
  qed
  have a: "Prelude.at b 0 (bits_of 16 len @ bits_of 4 pad @ [of_bool fec] @ bits_of 2 rate @ rest)"
    "Prelude.at b 20 (bits_of 1 (of_bool fec :: u8) @ bits_of 2 rate @ rest)" "Prelude.at b 21 (bits_of 2 rate @ rest)"
    by (simp_all add: Prelude.at_def b one [symmetric] del: One_nat_def)
  have t: "take_bit 16 (ucast len :: u32) = ucast len" "take_bit 1 (ucast (of_bool fec :: u8) :: u32) = of_bool fec"
    by (rule bit_eqI, auto simp: bit_simps dest: bit_imp_le_length)
  show "extract_bits_from_vec b 0 16 0 = ucast len" using extract_vec_field [OF a(1)] t(1) by simp
  show "extract_bits_from_vec b 20 1 0 = of_bool fec" using extract_vec_field [OF a(2)] t(2) by simp
  show "extract_bits_from_vec b 21 2 0 = take_bit 2 (ucast rate)" by (rule extract_vec_field [OF a(3)])
qed

lemma decode_layout:
  assumes bits: "take (67 + 8 * length pl) (demap ss) = frame_bits len 0 fec rate seq pl c"
    and air: "payload_bits_on_air fec rate len = Some (8 * length pl)" and rate: "take_bit 2 rate = rate"
    and seq: "take_bit 12 seq = seq"
    and crc: "fec \<or> compute_crc32 (message len 0 fec rate seq pl) = c"
  shows "decode_data_symbols ss d diag = Inr (frame_payload
    \<lparr>header = \<lparr>payload_length = len, padding_bits = 0, sequence_number = seq, fec_enabled = fec, fec_code_rate = rate\<rparr>,
     payload = pl, crc = c, crc_valid = \<not> fec\<rparr> d diag)"
proof -
  have len: "67 + 8 * length pl \<le> 2 * length ss"
    using arg_cong [OF bits, of length] by (simp add: length_frame_bits)
  have odd: "(67 + 8 * length pl + 1) div 2 = 34 + 4 * length pl" by simp
  have n: "\<not> length ss < 34 + 4 * length pl" "\<not> length ss < 18" using len by simp_all
  have head: "demap (take 18 ss) = take 36 (frame_bits len 0 fec rate seq pl c)"
    unfolding demap_take bits [symmetric] by (simp add: min_def)
  have body: "take (8 * length pl + 67) (demap (take (4 * length pl + 34) ss)) = frame_bits len 0 fec rate seq pl c"
    unfolding demap_take bits [symmetric] by (simp add: min_def add.commute)
  have r: "ucast (take_bit 2 (ucast rate :: u32)) = rate"
  proof -
    have "ucast (take_bit 2 (ucast rate :: u32)) = take_bit 2 rate" by (rule bit_eqI) (auto simp: bit_simps)
    then show ?thesis by (simp add: rate)
  qed
  have l: "ucast (ucast len :: u32) = len" by (rule bit_eqI) (auto simp: bit_simps)
  have fields: "ucast (extract_bits_from_vec (demap (take 18 ss)) 0 16 0) = len"
    "(extract_bits_from_vec (demap (take 18 ss)) 20 1 0 \<noteq> 0) = fec"
    "ucast (extract_bits_from_vec (demap (take 18 ss)) 21 2 0) = rate"
    unfolding head header_fields using r l by simp_all
  have crc': "\<not> fec \<longrightarrow> compute_crc32 (message len 0 False rate seq pl) = c" using crc by auto
  show ?thesis
    using n crc'
    by (auto simp add: decode_data_symbols_def HEADER_BITS_def CRC_BITS_def Let_def fields air odd body
        parse_unchecked_def parse_fields_frame parse_frame rate seq add.commute
        simp del: extract_bits_from_vec.simps One_nat_def)
qed

section \<open>What goes on air\<close>

text \<open>A configuration an encoder can be built from, and what a burst carries after the preamble.\<close>

definition link_config :: "modem_config \<Rightarrow> bool" where
  "link_config c \<longleftrightarrow> check_rate (use_code_rate c) = Inr (use_code_rate c) \<and> 0 \<le> acquisition_symbols c"

definition on_air :: "modem_config \<Rightarrow> bytes \<Rightarrow> bytes" where
  "on_air c data = (if use_fec c then fec_encode (use_code_rate c) data else data)"

definition encoder_ok :: "encoder \<Rightarrow> bool" where
  "encoder_ok e \<longleftrightarrow> link_config (enc_config e)
     \<and> preamble (enc_builder e) = make_doubled_preamble (barker (enc_config e)) \<and> seq_num (enc_builder e) < 4096"

lemma rate_cases: "check_rate r = Inr r \<Longrightarrow> r = RATE_1_2 \<or> r = RATE_3_4"
  by (auto simp: check_rate_def split: if_splits)

lemma frame_on_air:
  assumes "encoder_ok e"
  shows "\<exists>seq c fb. frame_to_send e data = (preamble (enc_builder e)
      @ frame_bits (of_nat (length data)) 0 (use_fec (enc_config e)) (use_code_rate (enc_config e)) seq (on_air (enc_config e) data) c, fb)
    \<and> c = compute_crc32 (message (of_nat (length data)) 0 (use_fec (enc_config e)) (use_code_rate (enc_config e)) seq data)
    \<and> take_bit 12 seq = seq \<and> preamble fb = preamble (enc_builder e) \<and> seq_num fb < 4096"
proof -
  let ?cfg = "enc_config e" and ?fb = "enc_builder e"
  let ?rate = "use_code_rate ?cfg" and ?len = "of_nat (length data) :: u16"
  let ?seq = "ucast (take_bit 12 (seq_num ?fb)) :: u16"
  let ?c = "compute_crc32 (message ?len 0 (use_fec ?cfg) ?rate ?seq data)"
  have rate: "take_bit 2 ?rate = ?rate"
    using assms rate_cases [of ?rate] by (auto simp: encoder_ok_def link_config_def RATE_1_2_def RATE_3_4_def)
  have pre: "preamble ?fb = barker ?cfg @ barker ?cfg" using assms by (simp add: encoder_ok_def make_doubled_preamble_def)
  have b: "build_frame ?fb data 0 (use_fec ?cfg) ?rate = (preamble ?fb @ frame_bits ?len 0 (use_fec ?cfg) ?rate ?seq data ?c,
      ?fb\<lparr>seq_num := take_bit 12 (seq_num ?fb + 1)\<rparr>)"
    by (simp add: build_frame_bits rate Let_def)
  have splice: "splice_coded (length (barker ?cfg) * 2) (preamble ?fb @ frame_bits ?len 0 fec ?rate ?seq data ?c) coded
      = preamble ?fb @ frame_bits ?len 0 fec ?rate ?seq coded ?c" for fec coded
  proof -
    define H where "H = bits_of 16 ?len @ bits_of 4 (0 :: u8) @ [of_bool fec :: u8] @ bits_of 2 ?rate @ bits_of 12 ?seq"
    have "length H = 35" "frame_bits ?len 0 fec ?rate ?seq x ?c = H @ bytes_to_bits x @ bits_of 32 ?c" for x
      by (simp_all add: H_def frame_bits_def)
    then show ?thesis by (simp add: splice_coded_def pre HEADER_BITS_def CRC_BITS_def Let_def)
  qed
  have "take_bit 12 ?seq = ?seq" by (rule bit_eqI) (auto simp: bit_simps)
  moreover have "take_bit 12 (seq_num ?fb + 1) < 4096"
  proof -
    have "unat (take_bit 12 (seq_num ?fb + 1)) < 2 ^ 12" unfolding unsigned_take_bit_eq by (simp add: take_bit_eq_mod)
    then show ?thesis by (simp add: word_less_nat_alt)
  qed
  moreover have "frame_to_send e data = (preamble ?fb @ frame_bits ?len 0 (use_fec ?cfg) ?rate ?seq (on_air ?cfg data) ?c,
      ?fb\<lparr>seq_num := take_bit 12 (seq_num ?fb + 1)\<rparr>)"
    using splice [of True] by (auto simp: frame_to_send_def b on_air_def Let_def)
  ultimately show ?thesis by (intro exI [of _ ?seq] exI [of _ ?c] exI [of _ "?fb\<lparr>seq_num := take_bit 12 (seq_num ?fb + 1)\<rparr>"]) simp
qed

text \<open>The burst: training symbols, preamble, the data symbols, the tail.\<close>

lemma encode_burst:
  assumes "encoder_ok e"
  shows "\<exists>ds seq c e'. encode_symbols e data = Inr (map (\<lambda>i. acquisition_pattern ! (i mod 4)) [0 ..< nat (acquisition_symbols (enc_config e))]
      @ bpsk_map_preamble (make_doubled_preamble (barker (enc_config e))) @ ds @ replicate 6 (Finite 0, Finite 0), e')
    \<and> length ds = 34 + 4 * length (on_air (enc_config e) data)
    \<and> take (67 + 8 * length (on_air (enc_config e) data)) (demap ds)
      = frame_bits (of_nat (length data)) 0 (use_fec (enc_config e)) (use_code_rate (enc_config e)) seq (on_air (enc_config e) data) c
    \<and> c = compute_crc32 (message (of_nat (length data)) 0 (use_fec (enc_config e)) (use_code_rate (enc_config e)) seq data)
    \<and> take_bit 12 seq = seq \<and> encoder_ok e' \<and> enc_config e' = enc_config e
    \<and> frames_transmitted (enc_diag e') = frames_transmitted (enc_diag e) + 1"
proof -
  let ?cfg = "enc_config e" and ?air = "on_air (enc_config e) data"
  obtain seq c fb where f: "frame_to_send e data = (preamble (enc_builder e)
      @ frame_bits (of_nat (length data)) 0 (use_fec ?cfg) (use_code_rate ?cfg) seq ?air c, fb)"
    "c = compute_crc32 (message (of_nat (length data)) 0 (use_fec ?cfg) (use_code_rate ?cfg) seq data)"
    "take_bit 12 seq = seq" "preamble fb = preamble (enc_builder e)" "seq_num fb < 4096"
    using frame_on_air [OF assms] by blast
  let ?f = "frame_bits (of_nat (length data)) 0 (use_fec ?cfg) (use_code_rate ?cfg) seq ?air c"
  obtain ds where ds: "map_symbols ?f = Inr (ds, of_nat (length ?f mod 2))" "length ds = (length ?f + 1) div 2"
    "take (length ?f) (demap ds) = ?f"
    using map_symbols_demap [OF frame_bits_01] by blast
  have pre: "preamble (enc_builder e) = barker ?cfg @ barker ?cfg" and acq: "\<not> acquisition_symbols ?cfg < 0"
    using assms by (simp_all add: encoder_ok_def make_doubled_preamble_def link_config_def)
  obtain e' where e': "encode_symbols e data = Inr (map (\<lambda>i. acquisition_pattern ! (i mod 4)) [0 ..< nat (acquisition_symbols ?cfg)]
      @ bpsk_map_preamble (make_doubled_preamble (barker ?cfg)) @ ds @ replicate 6 (Finite 0, Finite 0), e')"
    "enc_config e' = ?cfg" "enc_builder e' = fb" "frames_transmitted (enc_diag e') = frames_transmitted (enc_diag e) + 1"
    using acq by (simp add: encode_symbols_def f(1) pre ds(1) generate_acquisition_symbols_def TAIL_SYMBOLS_def
        make_doubled_preamble_def Let_def)
  have "encoder_ok e'" using assms e'(2,3) f(4,5) by (simp add: encoder_ok_def)
  then show ?thesis using e' ds(2,3) f(2,3) by (auto simp: length_frame_bits)
qed

section \<open>The way back\<close>

lemma ham_same: "ham xs xs = 0"
  by (induction xs) simp_all

lemma ham_zero: "length xs = length ys \<Longrightarrow> ham xs ys = 0 \<Longrightarrow> xs = ys"
  by (induction xs ys rule: list_induct2) (auto split: if_splits)

text \<open>Damage that leaves header and checksum alone is damage of the payload section.\<close>

lemma damaged_frame:
  fixes len fec rate seq pl c
  defines "sent \<equiv> frame_bits len 0 fec rate seq pl c"
  assumes "set rcvd \<subseteq> {0, 1}" "length rcvd = length sent" "take 35 rcvd = take 35 sent"
    and "drop (length sent - 32) rcvd = drop (length sent - 32) sent"
  shows "\<exists>pl'. rcvd = frame_bits len 0 fec rate seq pl' c \<and> length pl' = length pl
    \<and> ham sent rcvd = bit_errors pl pl'"
proof -
  let ?n = "8 * length pl"
  let ?h = "bits_of 16 len @ bits_of 4 (0 :: u8) @ [of_bool fec :: u8] @ bits_of 2 rate @ bits_of 12 seq"
  have s: "sent = ?h @ bytes_to_bits pl @ bits_of 32 c" "length ?h = 35" "length sent = 35 + ?n + 32"
    by (simp_all add: sent_def frame_bits_def)
  let ?mid = "take ?n (drop 35 rcvd)"
  have "set ?mid \<subseteq> {0, 1}" "length ?mid = 8 * length pl"
    using assms(2,3) s(3) by (auto dest!: in_set_takeD in_set_dropD)
  then obtain pl' where pl': "?mid = bytes_to_bits pl'" "length pl' = length pl" using bytes_to_bits_surj by blast
  have tail: "drop (35 + ?n) sent = bits_of 32 c"
  proof -
    have "drop (length ?h + length (bytes_to_bits pl)) ((?h @ bytes_to_bits pl) @ bits_of 32 c) = bits_of 32 c"
      by (simp only: length_append [symmetric] append_eq_conv_conj [THEN iffD1, OF refl, THEN conjunct2, symmetric])
    then show ?thesis unfolding s(2) by (simp only: s(1) length_bytes_to_bits append_assoc)
  qed
  have "rcvd = take 35 rcvd @ ?mid @ drop (35 + ?n) rcvd"
    by (metis append_take_drop_id drop_drop add.commute)
  moreover have "take 35 rcvd = ?h" using assms(4) s(1,2) by simp
  moreover have "drop (35 + ?n) rcvd = bits_of 32 c" using tail assms(5) s(3) by simp
  ultimately have r: "rcvd = ?h @ bytes_to_bits pl' @ bits_of 32 c" using pl'(1) by simp
  have "ham sent rcvd = ham (bytes_to_bits pl) (bytes_to_bits pl')"
    unfolding s(1) r using pl'(2) by (simp add: ham_append ham_same)
  then show ?thesis using r pl'(2) by (auto simp: frame_bits_def bit_errors_ham)
qed

text \<open>The bits a burst carries after its preamble.\<close>

definition burst_bits :: "modem_config \<Rightarrow> bytes \<Rightarrow> symbol list \<Rightarrow> bytes" where
  "burst_bits c data burst = take (67 + 8 * length (on_air c data))
     (demap (drop (nat (acquisition_symbols c) + 2 * length (barker c)) burst))"

lemma payload_recovered:
  assumes "length pl' = length (on_air c data)" "bit_errors (on_air c data) pl' \<le> (if use_fec c \<and> use_code_rate c = RATE_1_2 then 1 else 0)"
    and "code_rate d = use_code_rate c" "length data < 2 ^ 16" "check_rate (use_code_rate c) = Inr (use_code_rate c)"
  shows "if use_fec c
    then fec_decode d pl' (length data) = (data, d\<lparr>corrected_errors := corrected_errors d + of_nat (bit_errors (on_air c data) pl')\<rparr>)
    else pl' = data"
proof (cases "bit_errors (on_air c data) pl' = 0")
  case True
  then have same: "pl' = on_air c data"
    using ham_zero [of "bytes_to_bits pl'" "bytes_to_bits (on_air c data)"] ham_zero [of "bytes_to_bits (on_air c data)" "bytes_to_bits pl'"]
      assms(1) by (simp add: bit_errors_ham bytes_to_bits_eq)
  show ?thesis
    using fec_decode_encode [of data d] assms(3,4) True unfolding same by (auto simp: on_air_def)
next
  case False
  then have m: "use_fec c" "use_code_rate c = RATE_1_2" using assms(2) by (auto split: if_splits)
  then show ?thesis
    using fec_decode_one_error [of d data pl'] assms by (simp add: on_air_def)
qed

text \<open>From what was heard to the payload.\<close>

lemma link_recovers:
  fixes derotate :: "symbol list option \<Rightarrow> symbol list \<Rightarrow> symbol list"
  assumes "encoder_ok e" "length data < 2 ^ 16" "encode_symbols e data = Inr (burst, e')"
    and "detect recovered = Some start" "start \<le> length recovered" "code_rate fec_dec = use_code_rate (enc_config e)"
    and c_def: "c = enc_config e" and sent_def: "sent = burst_bits c data burst"
    and heard_def: "heard = take (length sent) (demap (derotate (if 2 * length (barker c) \<le> start
      then Some (take (2 * length (barker c)) (drop (start - 2 * length (barker c)) recovered)) else None) (drop start recovered)))"
    and "length heard = length sent" "take 35 heard = take 35 sent"
    and "drop (length sent - 32) heard = drop (length sent - 32) sent"
    and "ham sent heard \<le> (if use_fec c \<and> use_code_rate c = RATE_1_2 then 1 else 0)"
  shows "\<exists>d diag'. try_decode_frame detect derotate recovered (make_doubled_preamble (barker c)) fec_dec diag = Inr (Some data, d, diag')
    \<and> frames_received diag' = frames_received diag + 1
    \<and> corrected_errors d = corrected_errors fec_dec + (if use_fec c then of_nat (ham sent heard) else 0)"
proof -
  let ?air = "on_air c data" and ?len = "of_nat (length data) :: u16"
  let ?ss = "derotate (if 2 * length (barker c) \<le> start
      then Some (take (2 * length (barker c)) (drop (start - 2 * length (barker c)) recovered)) else None) (drop start recovered)"
  obtain ds seq crcv e2 where b: "burst = map (\<lambda>i. acquisition_pattern ! (i mod 4)) [0 ..< nat (acquisition_symbols c)]
      @ bpsk_map_preamble (make_doubled_preamble (barker c)) @ ds @ replicate 6 (Finite 0, Finite 0)"
    "length ds = 34 + 4 * length ?air"
    "take (67 + 8 * length ?air) (demap ds) = frame_bits ?len 0 (use_fec c) (use_code_rate c) seq ?air crcv"
    "crcv = compute_crc32 (message ?len 0 (use_fec c) (use_code_rate c) seq data)" "take_bit 12 seq = seq"
    using encode_burst [OF assms(1), of data] assms(3) unfolding c_def by auto
  have rate: "check_rate (use_code_rate c) = Inr (use_code_rate c)"
    using assms(1) by (simp add: encoder_ok_def link_config_def c_def)
  have rate2: "take_bit 2 (use_code_rate c) = use_code_rate c"
    using rate_cases [OF rate] by (auto simp: RATE_1_2_def RATE_3_4_def)
  have "sent = take (67 + 8 * length ?air) (demap ds)"
    using b(2) by (simp add: sent_def burst_bits_def b(1) bpsk_map_preamble_def make_doubled_preamble_def)
  then have sent: "sent = frame_bits ?len 0 (use_fec c) (use_code_rate c) seq ?air crcv" using b(3) by simp
  have h01: "set heard \<subseteq> {0, 1}" unfolding heard_def using demap_01 by (auto dest!: in_set_takeD)
  obtain pl' where pl': "heard = frame_bits ?len 0 (use_fec c) (use_code_rate c) seq pl' crcv" "length pl' = length ?air"
    "ham sent heard = bit_errors ?air pl'"
    using damaged_frame [OF h01] assms(10-12) unfolding sent by blast
  have unat_len: "unat ?len = length data" using assms(2) by (simp add: unat_of_nat)
  have air: "payload_bits_on_air (use_fec c) (use_code_rate c) ?len = Some (8 * length pl')"
    using rate_cases [OF rate]
    by (auto simp: payload_bits_on_air_def unat_len pl'(2) on_air_def fec_coded_length mult.commute)
  note recovered = payload_recovered [OF pl'(2) _ _ assms(2) rate, of fec_dec]
  have rec: "if use_fec c
    then fec_decode fec_dec pl' (length data) = (data, fec_dec\<lparr>corrected_errors := corrected_errors fec_dec + of_nat (ham sent heard)\<rparr>)
    else pl' = data"
    using recovered assms(6,13) pl'(3) unfolding c_def by simp
  have "length sent = 67 + 8 * length pl'" by (simp add: sent length_frame_bits pl'(2))
  then have bits: "take (67 + 8 * length pl') (demap ?ss) = frame_bits ?len 0 (use_fec c) (use_code_rate c) seq pl' crcv"
    using pl'(1) by (simp add: heard_def)
  have "use_fec c \<or> compute_crc32 (message ?len 0 (use_fec c) (use_code_rate c) seq pl') = crcv"
    using b(4) rec by (cases "use_fec c") simp_all
  then have "decode_data_symbols ?ss fec_dec diag = Inr (frame_payload
    \<lparr>header = \<lparr>payload_length = ?len, padding_bits = 0, sequence_number = seq, fec_enabled = use_fec c,
       fec_code_rate = use_code_rate c\<rparr>, payload = pl', crc = crcv, crc_valid = \<not> use_fec c\<rparr> fec_dec diag)"
    by (rule decode_layout [OF bits air rate2 b(5)])
  moreover have "verify_crc \<lparr>header = \<lparr>payload_length = ?len, padding_bits = 0, sequence_number = seq, fec_enabled = use_fec c,
       fec_code_rate = use_code_rate c\<rparr>, payload = data, crc = crcv, crc_valid = v\<rparr>" for v
    by (simp add: verify_crc_def b(4) message_def Let_def of_bool_def)
  moreover have "try_decode_frame detect derotate recovered (make_doubled_preamble (barker c)) fec_dec diag
      = decode_data_symbols ?ss fec_dec diag"
    using assms(4,5) by (simp add: try_decode_frame_def make_doubled_preamble_def Let_def mult_2)
  ultimately show ?thesis using rec unat_len by (auto simp: frame_payload_def)
qed

text \<open>C1. The link delivers: whatever the payload (up to the 65535 bytes the header can count), with FEC
  on or off and at either rate, the decoder returns exactly the bytes the encoder was given, when
  the signal processing finds the end of the preamble and the symbols after it are read in the
  quadrants they were sent in. At rate 1/2 one misread bit of the coded payload is corrected.\<close>

theorem link_delivers:
  fixes derotate :: "symbol list option \<Rightarrow> symbol list \<Rightarrow> symbol list"
  assumes "encoder_ok e" "length data < 2 ^ 16" "encode_symbols e data = Inr (burst, e')"
    and "detect recovered = Some start" "start \<le> length recovered" "code_rate fec_dec = use_code_rate (enc_config e)"
  defines "c \<equiv> enc_config e"
  defines "sent \<equiv> burst_bits c data burst"
  defines "heard \<equiv> take (length sent) (demap (derotate (if 2 * length (barker c) \<le> start
      then Some (take (2 * length (barker c)) (drop (start - 2 * length (barker c)) recovered)) else None) (drop start recovered)))"
  assumes "length heard = length sent" "take 35 heard = take 35 sent"
    and "drop (length sent - 32) heard = drop (length sent - 32) sent"
    and "ham sent heard \<le> (if use_fec c \<and> use_code_rate c = RATE_1_2 then 1 else 0)"
  shows "\<exists>d diag'. try_decode_frame detect derotate recovered (make_doubled_preamble (barker c)) fec_dec diag = Inr (Some data, d, diag')
    \<and> frames_received diag' = frames_received diag + 1
    \<and> corrected_errors d = corrected_errors fec_dec + (if use_fec c then of_nat (ham sent heard) else 0)"
  by (rule link_recovers [where derotate = derotate and detect = detect, OF assms(1-6) c_def [THEN meta_eq_to_obj_eq] sent_def [THEN meta_eq_to_obj_eq]
    heard_def [THEN meta_eq_to_obj_eq] assms(10-13)])

theorem link_delivers_witness:
  "\<exists>burst e' d diag'. encode_symbols \<lparr>enc_config = modem_defaults, enc_builder = new_builder (make_doubled_preamble (barker modem_defaults)),
      enc_diag = \<lparr>frames_transmitted = 0, symbols_transmitted = 0\<rparr>\<rparr> [7, 8] = Inr (burst, e')
    \<and> try_decode_frame (\<lambda>_. Some 154) (\<lambda>_ ss. ss) burst (make_doubled_preamble (barker modem_defaults))
         \<lparr>code_rate = RATE_1_2, corrected_errors = 0\<rparr> no_rx_diagnostics = Inr (Some [7, 8], d, diag')
    \<and> frames_received diag' = 1 \<and> corrected_errors d = 0"
proof -
  let ?e = "\<lparr>enc_config = modem_defaults, enc_builder = new_builder (make_doubled_preamble (barker modem_defaults)),
      enc_diag = \<lparr>frames_transmitted = 0, symbols_transmitted = 0\<rparr>\<rparr>"
  have ok: "encoder_ok ?e"
    by (simp add: encoder_ok_def link_config_def modem_defaults_def new_builder_def check_rate_def)
  obtain burst e' where b: "encode_symbols ?e [7, 8] = Inr (burst, e')" "154 \<le> length burst"
    using encode_burst [OF ok, of "[7, 8]"]
    by (auto simp: modem_defaults_def bpsk_map_preamble_def make_doubled_preamble_def)
  have n: "nat (acquisition_symbols modem_defaults) + 2 * length (barker modem_defaults) = 154"
    "2 * length (barker modem_defaults) \<le> 154" by (simp_all add: modem_defaults_def)
  let ?d = "\<lparr>code_rate = RATE_1_2, corrected_errors = 0\<rparr>"
  let ?sent = "burst_bits modem_defaults [7, 8] burst"
  have heard: "take (length ?sent) (demap (drop 154 burst)) = ?sent"
    unfolding burst_bits_def n(1) by (simp add: min_def)
  have c: "enc_config ?e = modem_defaults" "code_rate ?d = use_code_rate modem_defaults"
    by (simp_all add: modem_defaults_def)
  have "\<exists>d diag'. try_decode_frame (\<lambda>_. Some 154) (\<lambda>_ ss. ss) burst (make_doubled_preamble (barker modem_defaults))
        ?d no_rx_diagnostics = Inr (Some [7, 8], d, diag')
    \<and> frames_received diag' = frames_received no_rx_diagnostics + 1
    \<and> corrected_errors d = corrected_errors ?d + (if use_fec modem_defaults then of_nat (ham ?sent ?sent) else 0)"
    by (rule link_delivers [where e = ?e and data = "[7, 8]" and burst = burst and e' = e' and detect = "\<lambda>_. Some 154"
          and recovered = burst and start = 154 and fec_dec = ?d and derotate = "\<lambda>_ ss. ss" and diag = no_rx_diagnostics,
          unfolded c(1) heard, OF ok _ b(1) refl b(2) c(2) refl refl refl])
      (simp_all add: ham_same)
  then show ?thesis using b(1) by (auto simp: no_rx_diagnostics_def heard ham_same)
qed

end
