(* ===== verification/Listener.thy ===== *)
theory Listener
  imports Prelude
begin

text \<open>
  Opening a listening TCP socket, the same sequence of calls in \<^verbatim>\<open>src/ltp_cla/tcp_ingress.cpp\<close>
  and \<^verbatim>\<open>src/ltp_cla/tcp_egress.cpp\<close>; what the calls return is an input.
\<close>

record listen_answers =
  socket_result :: int
  address_valid :: bool
  bind_result :: int
  listen_result :: int
  bound_port :: "u16 option"   \<comment> \<open>from \<open>getsockname\<close>\<close>

text \<open>The descriptor (negative when it failed) and the port, which \<open>getsockname\<close> may update.\<close>

definition open_listener :: "listen_answers \<Rightarrow> u16 \<Rightarrow> int \<times> u16" where
  "open_listener a listening_port =
    (if socket_result a < 0 then (socket_result a, listening_port)
     else if \<not> address_valid a then (-1, listening_port)
     else if bind_result a < 0 then (-1, listening_port)
     else if listen_result a < 0 then (-1, listening_port)
     else (socket_result a, case bound_port a of None \<Rightarrow> listening_port | Some p \<Rightarrow> p))"

text \<open>What \<open>poll\<close> says: a signal, an error, nothing within 200 ms, or descriptors to look at.\<close>

datatype poll_result = Poll_Interrupted | Poll_Failed | Poll_Timeout | Poll_Ready

end
