(* ===== verification/Tcp_Input.thy ===== *)
theory Tcp_Input
  imports Listener Spsc
begin

text \<open>
  The modem's TCP input: the server of \<^verbatim>\<open>src/tcp_input_server.cpp\<close> and the thread of
  \<^verbatim>\<open>src/main.cpp\<close> that polls it, cuts the byte stream into chunks and queues them for the
  transmitter. What the sockets and the clock answer is an input of each step; what
  \<open>try_push\<close> was offered and said is kept.
\<close>

section \<open>Server\<close>

record tcp_input =
  tin_frame_size :: nat
  tin_listen_fd :: int
  tin_client_fd :: int
  tin_client_addr :: string
  tin_client_port :: u16
  tin_bytes_received :: u64
  tin_buffer :: bytes

definition new_tcp_input :: "nat \<Rightarrow> tcp_input" where
  "new_tcp_input frame_size = \<lparr>tin_frame_size = frame_size, tin_listen_fd = -1, tin_client_fd = -1, tin_client_addr = [],
     tin_client_port = 0, tin_bytes_received = 0, tin_buffer = []\<rparr>"

definition disconnect_client :: "tcp_input \<Rightarrow> tcp_input" where
  "disconnect_client s =
    (if 0 \<le> tin_client_fd s
     then s\<lparr>tin_client_fd := -1, tin_client_addr := [], tin_client_port := 0, tin_bytes_received := 0\<rparr>
     else s)"

text \<open>The flag says whether \<open>start\<close> returned; it throws \<open>runtime_error\<close> otherwise.\<close>

definition tcp_input_start :: "tcp_input \<Rightarrow> listen_answers \<Rightarrow> tcp_input \<times> bool" where
  "tcp_input_start s a =
    (let fd = fst (open_listener a 0) in (s\<lparr>tin_listen_fd := fd\<rparr>, 0 \<le> fd))"

definition tcp_input_stop :: "tcp_input \<Rightarrow> tcp_input" where
  "tcp_input_stop s =
    (let s = disconnect_client s;
         s = (if 0 \<le> tin_listen_fd s then s\<lparr>tin_listen_fd := -1\<rparr> else s)
     in s\<lparr>tin_buffer := []\<rparr>)"

text \<open>\<open>recv\<close> on a blocking socket gives up to 4096 of the bytes that are there, fails or
  reports the end of the stream, or waits while there is nothing to read.\<close>

datatype recv_answer = Received bytes | Stream_Ended | Recv_Waits

record poll_answers =
  polled :: poll_result
  listen_readable :: bool
  accept_result :: "int \<times> string \<times> u16"
  client_readable :: bool        \<comment> \<open>\<open>POLLIN\<close>, \<open>POLLHUP\<close> or \<open>POLLERR\<close>\<close>
  recv_answer :: "int \<Rightarrow> recv_answer"

definition accept_client :: "tcp_input \<Rightarrow> poll_answers \<Rightarrow> tcp_input" where
  "accept_client s a =
    (let (new_fd, ip, new_port) = accept_result a in
     if listen_readable a \<and> 0 \<le> new_fd
     then s\<lparr>tin_client_fd := new_fd, tin_client_addr := ip, tin_client_port := new_port, tin_bytes_received := 0\<rparr>
     else s)"

definition poll_once :: "tcp_input \<Rightarrow> poll_answers \<Rightarrow> tcp_input res" where
  "poll_once s a =
    (if tin_listen_fd s < 0 then Inr s
     else if polled a \<noteq> Poll_Ready then Inr s
     else
       let client_polled = 0 \<le> tin_client_fd s;
           s = accept_client s a
       in if client_polled \<and> client_readable a then
            (case recv_answer a (tin_client_fd s) of
               Received there \<Rightarrow>
                 let tmp = take 4096 there in
                 if tmp \<noteq> [] then Inr (s\<lparr>tin_buffer := tin_buffer s @ tmp, tin_bytes_received := tin_bytes_received s + of_nat (length tmp)\<rparr>)
                 else Inr (disconnect_client s)
             | Stream_Ended \<Rightarrow> Inr (disconnect_client s)
             | Recv_Waits \<Rightarrow> Inl Diverges)
          else Inr s)"

definition read_frame :: "tcp_input \<Rightarrow> bytes \<times> tcp_input" where
  "read_frame s =
    (if length (tin_buffer s) < tin_frame_size s then ([], s)
     else (take (tin_frame_size s) (tin_buffer s), s\<lparr>tin_buffer := drop (tin_frame_size s) (tin_buffer s)\<rparr>))"

definition flush :: "tcp_input \<Rightarrow> bytes \<times> tcp_input" where
  "flush s = (tin_buffer s, s\<lparr>tin_buffer := []\<rparr>)"

definition has_frame :: "tcp_input \<Rightarrow> bool" where
  "has_frame s \<longleftrightarrow> tin_frame_size s \<le> length (tin_buffer s)"

definition connected :: "tcp_input \<Rightarrow> bool" where
  "connected s \<longleftrightarrow> 0 \<le> tin_client_fd s"

definition buffered_bytes :: "tcp_input \<Rightarrow> nat" where
  "buffered_bytes s = length (tin_buffer s)"

section \<open>Thread\<close>

text \<open>The clock counts nanoseconds.\<close>

record input_thread =
  tin_server :: tcp_input
  tin_queue :: "bytes spsc"
  was_connected :: bool
  last_data_time :: int
  last_buffered :: nat
  offered :: "(bytes \<times> bool) list"

definition offer :: "input_thread \<Rightarrow> bytes \<Rightarrow> input_thread res" where
  "offer t chunk = rbind (try_push (tin_queue t) chunk) (\<lambda>(pushed, q).
     Inr (t\<lparr>tin_queue := q, offered := offered t @ [(chunk, pushed)]\<rparr>))"

lemma offer_server: "offer t chunk = Inr u \<Longrightarrow> tin_server u = tin_server t"
  by (auto simp: offer_def rbind_eq_Inr)

text \<open>All complete frames; \<open>now\<close> is the time after the last of them.\<close>

function send_frames :: "input_thread \<Rightarrow> int \<Rightarrow> input_thread res" where
  "send_frames t now =
    (if has_frame (tin_server t) then
       let (frame_data, srv) = read_frame (tin_server t);
           t = t\<lparr>tin_server := srv\<rparr>
       in if frame_data = [] then Inr t
          else rbind (offer t frame_data) (\<lambda>t. send_frames (t\<lparr>last_data_time := now, last_buffered := 0\<rparr>) now)
     else Inr t)"
  by auto
termination
  by (relation "measure (\<lambda>(t, _). length (tin_buffer (tin_server t)))")
    (auto simp: read_frame_def dest!: offer_server split: if_splits)

declare send_frames.simps [simp del]

definition flush_leftover :: "input_thread \<Rightarrow> input_thread res" where
  "flush_leftover t =
    (let (data, srv) = flush (tin_server t);
         t = t\<lparr>tin_server := srv\<rparr>
     in if data \<noteq> [] then offer t data else Inr t)"

definition idle_flush :: "input_thread \<Rightarrow> int \<Rightarrow> input_thread res" where
  "idle_flush t now =
    (let current_buffered = buffered_bytes (tin_server t) in
     if current_buffered > 0 \<and> current_buffered = last_buffered t then
       (if (now - last_data_time t) div 1000000 > 100
        then rbind (flush_leftover t) (\<lambda>t. Inr (t\<lparr>last_buffered := 0\<rparr>))
        else Inr t)
     else if current_buffered \<noteq> last_buffered t then
       Inr (t\<lparr>last_data_time := now, last_buffered := current_buffered\<rparr>)
     else Inr t)"

text \<open>One round of the loop: what the sockets say, and the clock when it is read.\<close>

definition input_round :: "input_thread \<Rightarrow> poll_answers \<Rightarrow> int \<Rightarrow> int \<Rightarrow> input_thread res" where
  "input_round t a now_frames now_idle =
    rbind (poll_once (tin_server t) a) (\<lambda>srv.
    rbind (send_frames (t\<lparr>tin_server := srv\<rparr>) now_frames) (\<lambda>t.
    rbind (if was_connected t \<and> \<not> connected (tin_server t) then flush_leftover t else Inr t) (\<lambda>t.
    rbind (idle_flush t now_idle) (\<lambda>t.
    Inr (t\<lparr>was_connected := connected (tin_server t)\<rparr>)))))"

definition new_input_thread :: "tcp_input \<Rightarrow> bytes spsc \<Rightarrow> int \<Rightarrow> input_thread" where
  "new_input_thread srv q now = \<lparr>tin_server = srv, tin_queue = q, was_connected = False, last_data_time = now,
     last_buffered = 0, offered = []\<rparr>"

text \<open>The rounds of a run; before each, the transmitter may have taken chunks from the queue.\<close>

fun input_run :: "input_thread \<Rightarrow> (bytes spsc \<times> poll_answers \<times> int \<times> int) list \<Rightarrow> input_thread res" where
  "input_run t [] = Inr t"
| "input_run t ((q, a, now_frames, now_idle) # rounds) =
     rbind (input_round (t\<lparr>tin_queue := q\<rparr>) a now_frames now_idle) (\<lambda>u. input_run u rounds)"

section \<open>Conservation\<close>

text \<open>The bytes a poll reads, and the stream a thread has seen: chunks offered and bytes waiting.\<close>

definition read_by :: "tcp_input \<Rightarrow> poll_answers \<Rightarrow> bytes" where
  "read_by s a =
    (if 0 \<le> tin_listen_fd s \<and> polled a = Poll_Ready \<and> 0 \<le> tin_client_fd s \<and> client_readable a
     then (case recv_answer a (tin_client_fd (accept_client s a)) of Received there \<Rightarrow> take 4096 there | _ \<Rightarrow> [])
     else [])"

definition stream_of :: "input_thread \<Rightarrow> bytes" where
  "stream_of t = concat (map fst (offered t)) @ tin_buffer (tin_server t)"

definition chunks_ok :: "input_thread \<Rightarrow> bool" where
  "chunks_ok t \<longleftrightarrow> (\<forall>(chunk, pushed) \<in> set (offered t). chunk \<noteq> [] \<and> length chunk \<le> tin_frame_size (tin_server t))"

lemma accept_client_simps [simp]:
  "tin_buffer (accept_client s a) = tin_buffer s" "tin_frame_size (accept_client s a) = tin_frame_size s"
  "tin_listen_fd (accept_client s a) = tin_listen_fd s"
  by (simp_all add: accept_client_def split: prod.split)

lemma disconnect_client_simps [simp]:
  "tin_buffer (disconnect_client s) = tin_buffer s" "tin_frame_size (disconnect_client s) = tin_frame_size s"
  "tin_listen_fd (disconnect_client s) = tin_listen_fd s" "\<not> connected (disconnect_client s)"
  by (simp_all add: disconnect_client_def connected_def)

lemma poll_once_buffer:
  "poll_once s a = Inr u \<Longrightarrow> tin_buffer u = tin_buffer s @ read_by s a \<and> tin_frame_size u = tin_frame_size s
    \<and> tin_listen_fd u = tin_listen_fd s"
  by (auto simp: poll_once_def read_by_def Let_def split: if_splits recv_answer.splits)

lemma offer_simps:
  assumes "offer t chunk = Inr u"
  shows "concat (map fst (offered u)) = concat (map fst (offered t)) @ chunk" "tin_server u = tin_server t"
    "chunks_ok u \<longleftrightarrow> chunks_ok t \<and> chunk \<noteq> [] \<and> length chunk \<le> tin_frame_size (tin_server t)"
    "last_buffered u = last_buffered t" "last_data_time u = last_data_time t" "was_connected u = was_connected t"
  using assms by (auto simp: offer_def rbind_eq_Inr chunks_ok_def)

lemma send_frames_stream:
  "send_frames t now = Inr u \<Longrightarrow> chunks_ok t \<Longrightarrow> 0 < tin_frame_size (tin_server t) \<Longrightarrow>
    stream_of u = stream_of t \<and> chunks_ok u \<and> tin_frame_size (tin_server u) = tin_frame_size (tin_server t)
    \<and> length (tin_buffer (tin_server u)) < tin_frame_size (tin_server u) \<and> was_connected u = was_connected t
    \<and> connected (tin_server u) = connected (tin_server t)"
proof (induction t now arbitrary: u rule: send_frames.induct)
  case (1 t now)
  show ?case
  proof (cases "has_frame (tin_server t)")
    case False
    then show ?thesis using "1.prems" by (auto simp: send_frames.simps [of t] has_frame_def)
  next
    case True
    let ?s = "tin_server t" and ?n = "tin_frame_size (tin_server t)"
    let ?t = "t\<lparr>tin_server := ?s\<lparr>tin_buffer := drop ?n (tin_buffer ?s)\<rparr>\<rparr>"
    have r: "read_frame ?s = (take ?n (tin_buffer ?s), ?s\<lparr>tin_buffer := drop ?n (tin_buffer ?s)\<rparr>)"
      "take ?n (tin_buffer ?s) \<noteq> []"
      using True "1.prems"(3) by (auto simp: read_frame_def has_frame_def)
    obtain v where v: "offer ?t (take ?n (tin_buffer ?s)) = Inr v"
      "send_frames (v\<lparr>last_data_time := now, last_buffered := 0\<rparr>) now = Inr u"
      using "1.prems"(1) True r by (auto simp: send_frames.simps [of t] rbind_eq_Inr)
    note o = offer_simps [OF v(1)]
    let ?v = "v\<lparr>last_data_time := now, last_buffered := 0\<rparr>"
    have "chunks_ok ?v" using o(2,3) "1.prems"(2) r(2) by (simp add: chunks_ok_def min_def)
    moreover have "stream_of ?v = stream_of t" using o(1,2) by (simp add: stream_of_def)
    ultimately show ?thesis
      using "1.IH" [OF True r(1) [symmetric] refl refl r(2) v(1,2)] o(2,6) "1.prems"(3)
      by (simp add: connected_def)
  qed
qed

lemma flush_leftover_stream:
  assumes "flush_leftover t = Inr u" "chunks_ok t" "length (tin_buffer (tin_server t)) \<le> tin_frame_size (tin_server t)"
  shows "stream_of u = stream_of t \<and> chunks_ok u \<and> tin_server u = (tin_server t)\<lparr>tin_buffer := []\<rparr>
    \<and> was_connected u = was_connected t \<and> last_buffered u = last_buffered t"
proof (cases "tin_buffer (tin_server t) = []")
  case True
  then show ?thesis using assms by (auto simp: flush_leftover_def flush_def stream_of_def chunks_ok_def)
next
  case False
  then have o: "offer (t\<lparr>tin_server := (tin_server t)\<lparr>tin_buffer := []\<rparr>\<rparr>) (tin_buffer (tin_server t)) = Inr u"
    using assms(1) by (simp add: flush_leftover_def flush_def Let_def)
  show ?thesis using offer_simps [OF o] assms(2,3) False by (simp add: stream_of_def chunks_ok_def)
qed

lemma idle_flush_stream:
  assumes "idle_flush t now = Inr u" "chunks_ok t" "length (tin_buffer (tin_server t)) \<le> tin_frame_size (tin_server t)"
  shows "stream_of u = stream_of t \<and> chunks_ok u \<and> was_connected u = was_connected t
    \<and> (tin_server u = tin_server t \<or> tin_server u = (tin_server t)\<lparr>tin_buffer := []\<rparr>)"
  using assms
  by (auto simp: idle_flush_def Let_def rbind_eq_Inr dest!: flush_leftover_stream split: if_splits)
    (auto simp: stream_of_def chunks_ok_def)

lemma input_round_stream:
  assumes "input_round t a now_frames now_idle = Inr u" "chunks_ok t" "0 < tin_frame_size (tin_server t)"
  shows "stream_of u = stream_of t @ read_by (tin_server t) a \<and> chunks_ok u
    \<and> tin_frame_size (tin_server u) = tin_frame_size (tin_server t)
    \<and> length (tin_buffer (tin_server u)) < tin_frame_size (tin_server u)
    \<and> was_connected u = connected (tin_server u)"
proof -
  obtain srv v w x where steps: "poll_once (tin_server t) a = Inr srv"
    "send_frames (t\<lparr>tin_server := srv\<rparr>) now_frames = Inr v"
    "(if was_connected v \<and> \<not> connected (tin_server v) then flush_leftover v else Inr v) = Inr w"
    "idle_flush w now_idle = Inr x" "u = x\<lparr>was_connected := connected (tin_server x)\<rparr>"
    using assms(1) by (auto simp: input_round_def rbind_eq_Inr)
  note p = poll_once_buffer [OF steps(1)]
  have "chunks_ok (t\<lparr>tin_server := srv\<rparr>)" using assms(2) p by (simp add: chunks_ok_def)
  note s = send_frames_stream [OF steps(2) this]
  have v: "stream_of v = stream_of t @ read_by (tin_server t) a" "chunks_ok v"
    "tin_frame_size (tin_server v) = tin_frame_size (tin_server t)"
    "length (tin_buffer (tin_server v)) < tin_frame_size (tin_server v)"
    using s p assms(3) by (auto simp: stream_of_def)
  have w: "stream_of w = stream_of v" "chunks_ok w" "tin_frame_size (tin_server w) = tin_frame_size (tin_server v)"
    "length (tin_buffer (tin_server w)) < tin_frame_size (tin_server v)"
    using steps(3) v flush_leftover_stream [of v w] assms(3) by (auto split: if_splits)
  have x: "stream_of x = stream_of w" "chunks_ok x" "tin_frame_size (tin_server x) = tin_frame_size (tin_server w)"
    "length (tin_buffer (tin_server x)) < tin_frame_size (tin_server w)"
    using idle_flush_stream [OF steps(4) w(2)] w assms(3) v(3) by auto
  show ?thesis using v w x steps(5) by (simp add: stream_of_def chunks_ok_def connected_def)
qed

text \<open>The bytes read along a run.\<close>

fun run_reads :: "input_thread \<Rightarrow> (bytes spsc \<times> poll_answers \<times> int \<times> int) list \<Rightarrow> bytes" where
  "run_reads t [] = []"
| "run_reads t ((q, a, now_frames, now_idle) # rounds) =
     read_by (tin_server t) a
     @ (case input_round (t\<lparr>tin_queue := q\<rparr>) a now_frames now_idle of Inl _ \<Rightarrow> [] | Inr u \<Rightarrow> run_reads u rounds)"

lemma input_run_stream:
  "input_run t rounds = Inr u \<Longrightarrow> chunks_ok t \<Longrightarrow> 0 < tin_frame_size (tin_server t) \<Longrightarrow>
    stream_of u = stream_of t @ run_reads t rounds \<and> chunks_ok u
    \<and> tin_frame_size (tin_server u) = tin_frame_size (tin_server t)
    \<and> (rounds \<noteq> [] \<longrightarrow> length (tin_buffer (tin_server u)) < tin_frame_size (tin_server u))"
proof (induction rounds arbitrary: t)
  case (Cons r rounds)
  obtain q a x y where r: "r = (q, a, x, y)" by (cases r)
  obtain v where v: "input_round (t\<lparr>tin_queue := q\<rparr>) a x y = Inr v" "input_run v rounds = Inr u"
    using Cons.prems(1) by (auto simp: r rbind_eq_Inr)
  have "chunks_ok (t\<lparr>tin_queue := q\<rparr>)" "stream_of (t\<lparr>tin_queue := q\<rparr>) = stream_of t"
    using Cons.prems(2) by (simp_all add: chunks_ok_def stream_of_def)
  with input_round_stream [OF v(1)] Cons.prems(3)
  have s: "stream_of v = stream_of t @ read_by (tin_server t) a" "chunks_ok v"
    "tin_frame_size (tin_server v) = tin_frame_size (tin_server t)"
    "length (tin_buffer (tin_server v)) < tin_frame_size (tin_server v)" by simp_all
  then show ?case
    using Cons.IH [OF v(2) s(2)] Cons.prems(3) v by (cases "rounds = []") (auto simp: r)
qed simp

section \<open>Properties\<close>

text \<open>C32. The stream from the clients is cut without loss: whatever the sockets and the clock do, the
  chunks the thread offers to the transmit queue, in order, and then the bytes still waiting are
  exactly the bytes read; every chunk has between one byte and the frame size, and less than a
  frame is ever left waiting. Only a chunk that meets a full queue is dropped.\<close>

theorem input_stream_conserved:
  assumes "input_run (new_input_thread srv q now) rounds = Inr u" "rounds \<noteq> []"
    and "tin_buffer srv = []" "0 < tin_frame_size srv"
  shows "concat (map fst (offered u)) @ tin_buffer (tin_server u) = run_reads (new_input_thread srv q now) rounds
    \<and> length (tin_buffer (tin_server u)) < tin_frame_size srv
    \<and> (\<forall>(chunk, pushed) \<in> set (offered u). 0 < length chunk \<and> length chunk \<le> tin_frame_size srv)"
proof -
  let ?t = "new_input_thread srv q now"
  have t: "chunks_ok ?t" "stream_of ?t = []" "tin_frame_size (tin_server ?t) = tin_frame_size srv"
    using assms(3) by (simp_all add: chunks_ok_def stream_of_def new_input_thread_def)
  then show ?thesis
    using input_run_stream [OF assms(1) t(1)] assms(2,4) by (auto simp: stream_of_def chunks_ok_def)
qed

text \<open>Client 7 sends three bytes, is silent for 200 ms and goes.\<close>

definition started_server :: tcp_input where
  "started_server = fst (tcp_input_start (new_tcp_input 1024)
     \<lparr>socket_result = 3, address_valid = True, bind_result = 0, listen_result = 0, bound_port = None\<rparr>)"

definition answers :: "bool \<Rightarrow> bool \<Rightarrow> recv_answer \<Rightarrow> poll_answers" where
  "answers new_client readable r = \<lparr>polled = Poll_Ready, listen_readable = new_client, accept_result = (7, ''10.0.0.1'', 40000),
     client_readable = readable, recv_answer = (\<lambda>_. r)\<rparr>"

lemmas round_defs = input_round_def poll_once_def accept_client_def send_frames.simps [of t for t] has_frame_def idle_flush_def
  flush_leftover_def flush_def offer_def try_push_def next_index_def buffered_bytes_def connected_def read_by_def
  started_server_def tcp_input_start_def new_tcp_input_def open_listener_def new_input_thread_def new_spsc_def
  answers_def disconnect_client_def

lemma sample_input_run:
  "\<exists>u. input_run (new_input_thread started_server (new_spsc 64 []) 0)
      [(new_spsc 64 [], answers True False Recv_Waits, 0, 0), (new_spsc 64 [], answers False True (Received [1, 2, 3]), 0, 1000000)] = Inr u
    \<and> tin_buffer (tin_server u) = [1, 2, 3] \<and> connected (tin_server u) \<and> offered u = [] \<and> last_data_time u = 1000000
    \<and> tin_listen_fd (tin_server u) = 3"
  by (simp add: round_defs)

theorem input_stream_conserved_witness:
  "\<exists>u. input_run (new_input_thread started_server (new_spsc 64 []) 0)
      [(new_spsc 64 [], answers True False Recv_Waits, 0, 0), (new_spsc 64 [], answers False True (Received [1, 2, 3]), 0, 1000000)] = Inr u
    \<and> concat (map fst (offered u)) @ tin_buffer (tin_server u) = [1, 2, 3]"
proof -
  have "run_reads (new_input_thread started_server (new_spsc 64 []) 0)
      [(new_spsc 64 [], answers True False Recv_Waits, 0, 0), (new_spsc 64 [], answers False True (Received [1, 2, 3]), 0, 1000000)]
    = [1, 2, 3]"
    by (simp add: round_defs)
  moreover have "tin_buffer started_server = []" "0 < tin_frame_size started_server"
    by (simp_all add: started_server_def tcp_input_start_def new_tcp_input_def Let_def)
  ultimately show ?thesis
    using sample_input_run input_stream_conserved [of started_server "new_spsc 64 []" 0] by fastforce
qed

section \<open>Flushing\<close>

text \<open>Between rounds the thread remembers how much is waiting.\<close>

definition remembers :: "input_thread \<Rightarrow> bool" where
  "remembers t \<longleftrightarrow> was_connected t = connected (tin_server t)
     \<and> length (tin_buffer (tin_server t)) < tin_frame_size (tin_server t)
     \<and> (tin_buffer (tin_server t) \<noteq> [] \<longrightarrow> last_buffered t = length (tin_buffer (tin_server t)))"

lemma idle_flush_remembers:
  assumes "idle_flush t now = Inr u"
  shows "tin_buffer (tin_server u) \<noteq> [] \<longrightarrow> last_buffered u = length (tin_buffer (tin_server u))"
proof -
  have "flush_leftover t = Inr v \<Longrightarrow> tin_buffer (tin_server v) = []" for v
    by (auto simp: flush_leftover_def flush_def Let_def dest!: offer_simps(2) split: if_splits)
  then show ?thesis using assms by (auto simp: idle_flush_def Let_def rbind_eq_Inr buffered_bytes_def split: if_splits)
qed

lemma input_round_remembers:
  assumes "input_round t a x y = Inr u" "chunks_ok t" "0 < tin_frame_size (tin_server t)"
  shows "remembers u"
proof -
  obtain w v where w: "idle_flush w y = Inr v" "u = v\<lparr>was_connected := connected (tin_server v)\<rparr>"
    using assms(1) by (auto simp: input_round_def rbind_eq_Inr)
  then show ?thesis using input_round_stream [OF assms] idle_flush_remembers [OF w(1)] by (simp add: remembers_def)
qed

lemma input_run_remembers:
  "input_run t rounds = Inr u \<Longrightarrow> chunks_ok t \<Longrightarrow> 0 < tin_frame_size (tin_server t) \<Longrightarrow> rounds \<noteq> [] \<Longrightarrow>
    remembers u \<and> chunks_ok u"
proof (induction rounds arbitrary: t)
  case (Cons r rounds)
  obtain q a x y where r: "r = (q, a, x, y)" by (cases r)
  obtain v where v: "input_round (t\<lparr>tin_queue := q\<rparr>) a x y = Inr v" "input_run v rounds = Inr u"
    using Cons.prems(1) by (auto simp: r rbind_eq_Inr)
  have t: "chunks_ok (t\<lparr>tin_queue := q\<rparr>)" "0 < tin_frame_size (tin_server (t\<lparr>tin_queue := q\<rparr>))"
    using Cons.prems(2,3) by (simp_all add: chunks_ok_def)
  show ?case
  proof (cases "rounds = []")
    case True
    then show ?thesis using input_round_remembers [OF v(1) t] input_round_stream [OF v(1) t] v(2) by simp
  next
    case False
    then show ?thesis using Cons.IH [OF v(2)] input_round_stream [OF v(1) t] t(2) by simp
  qed
qed simp

lemma flush_leftover_offers:
  assumes "flush_leftover t = Inr u" "tin_buffer (tin_server t) \<noteq> []"
  shows "\<exists>pushed. offered u = offered t @ [(tin_buffer (tin_server t), pushed)] \<and> tin_buffer (tin_server u) = []"
  using assms by (auto simp: flush_leftover_def flush_def Let_def offer_def rbind_eq_Inr)

text \<open>A round that reads nothing either offers what is waiting, all of it, or leaves everything as it was: then
  the client is not gone and the clock has not passed 101 ms after the last change.\<close>

definition held :: "input_thread \<Rightarrow> input_thread \<Rightarrow> int \<Rightarrow> bool" where
  "held t u now \<longleftrightarrow> offered u = offered t \<and> tin_buffer (tin_server u) = tin_buffer (tin_server t)
     \<and> last_data_time u = last_data_time t \<and> remembers u \<and> now < last_data_time t + 101000000
     \<and> tin_frame_size (tin_server u) = tin_frame_size (tin_server t)
     \<and> (connected (tin_server t) \<longrightarrow> connected (tin_server u))"

definition flushed :: "input_thread \<Rightarrow> input_thread \<Rightarrow> bool" where
  "flushed t u \<longleftrightarrow> (\<exists>pushed. offered u = offered t @ [(tin_buffer (tin_server t), pushed)]) \<and> tin_buffer (tin_server u) = []
     \<and> tin_frame_size (tin_server u) = tin_frame_size (tin_server t)"

lemma flush_leftover_size: "flush_leftover t = Inr u \<Longrightarrow> tin_frame_size (tin_server u) = tin_frame_size (tin_server t)"
  by (auto simp: flush_leftover_def flush_def Let_def dest!: offer_simps(2) split: if_splits)

lemma quiet_round:
  assumes round: "input_round (t\<lparr>tin_queue := q'\<rparr>) a now_frames now_idle = Inr u" and quiet: "read_by (tin_server t) a = []"
    and m: "remembers t" and ne: "tin_buffer (tin_server t) \<noteq> []"
  shows "flushed t u \<or> held t u now_idle"
proof -
  let ?t = "t\<lparr>tin_queue := q'\<rparr>"
  obtain s v w x where steps: "poll_once (tin_server t) a = Inr s"
    "send_frames (?t\<lparr>tin_server := s\<rparr>) now_frames = Inr v"
    "(if was_connected v \<and> \<not> connected (tin_server v) then flush_leftover v else Inr v) = Inr w"
    "idle_flush w now_idle = Inr x" "u = x\<lparr>was_connected := connected (tin_server x)\<rparr>"
    using round by (auto simp: input_round_def rbind_eq_Inr)
  have s: "tin_buffer s = tin_buffer (tin_server t)" "tin_frame_size s = tin_frame_size (tin_server t)"
    using poll_once_buffer [OF steps(1)] quiet by simp_all
  have v: "v = ?t\<lparr>tin_server := s\<rparr>"
    using steps(2) m s by (auto simp: send_frames.simps [of "?t\<lparr>tin_server := s\<rparr>"] has_frame_def remembers_def)
  show ?thesis
  proof (cases "was_connected v \<and> \<not> connected (tin_server v)")
    case True
    then have f: "flush_leftover v = Inr w" using steps(3) by simp
    from flush_leftover_offers [OF f] obtain pushed where
      w: "offered w = offered t @ [(tin_buffer (tin_server t), pushed)]" "tin_buffer (tin_server w) = []"
      using v s ne by auto
    then have "offered x = offered w \<and> tin_server x = tin_server w"
      using steps(4) by (auto simp: idle_flush_def buffered_bytes_def Let_def split: if_splits)
    then show ?thesis using w steps(5) flush_leftover_size [OF f] v s by (auto simp: flushed_def)
  next
    case False
    then have w: "w = v" using steps(3) by (simp only: if_False sum.inject)
    have b: "buffered_bytes (tin_server w) > 0" "buffered_bytes (tin_server w) = last_buffered w"
      using m v w s ne by (simp_all add: buffered_bytes_def remembers_def)
    show ?thesis
    proof (cases "(now_idle - last_data_time w) div 1000000 > 100")
      case True
      then obtain y where y: "flush_leftover w = Inr y" "x = y\<lparr>last_buffered := 0\<rparr>"
        using steps(4) b by (auto simp: idle_flush_def Let_def rbind_eq_Inr)
      then show ?thesis
        using flush_leftover_offers [OF y(1)] flush_leftover_size [OF y(1)] v w s ne steps(5) by (auto simp: flushed_def)
    next
      case young: False
      then have x: "x = w" using steps(4) b by (simp add: idle_flush_def)
      have "\<not> last_data_time t + 101000000 \<le> now_idle" using young v w by auto
      then show ?thesis using x v w s m False steps(5) by (auto simp: held_def remembers_def)
    qed
  qed
qed

text \<open>Nothing waiting and nothing read: nothing is offered.\<close>

lemma empty_round:
  assumes "input_round (t\<lparr>tin_queue := q'\<rparr>) a now_frames now_idle = Inr u" "read_by (tin_server t) a = []"
    and "tin_buffer (tin_server t) = []" "0 < tin_frame_size (tin_server t)"
  shows "offered u = offered t \<and> tin_buffer (tin_server u) = [] \<and> tin_frame_size (tin_server u) = tin_frame_size (tin_server t)"
proof -
  let ?t = "t\<lparr>tin_queue := q'\<rparr>"
  obtain s v w x where steps: "poll_once (tin_server t) a = Inr s"
    "send_frames (?t\<lparr>tin_server := s\<rparr>) now_frames = Inr v"
    "(if was_connected v \<and> \<not> connected (tin_server v) then flush_leftover v else Inr v) = Inr w"
    "idle_flush w now_idle = Inr x" "u = x\<lparr>was_connected := connected (tin_server x)\<rparr>"
    using assms(1) by (auto simp: input_round_def rbind_eq_Inr)
  have s: "tin_buffer s = []" "tin_frame_size s = tin_frame_size (tin_server t)"
    using poll_once_buffer [OF steps(1)] assms(2,3) by simp_all
  have v: "v = ?t\<lparr>tin_server := s\<rparr>"
    using steps(2) s assms(4) by (auto simp: send_frames.simps [of "?t\<lparr>tin_server := s\<rparr>"] has_frame_def)
  have "offered w = offered t \<and> tin_buffer (tin_server w) = [] \<and> tin_frame_size (tin_server w) = tin_frame_size (tin_server t)"
    using steps(3) v s by (auto simp: flush_leftover_def flush_def split: if_splits)
  then show ?thesis using steps(4,5) by (auto simp: idle_flush_def buffered_bytes_def Let_def split: if_splits)
qed

text \<open>The readings of the clock along a run, and the last of them; the thread's own time is never later.\<close>

definition clocks :: "(bytes spsc \<times> poll_answers \<times> int \<times> int) list \<Rightarrow> int list" where
  "clocks rounds = concat (map (\<lambda>(_, _, now_frames, now_idle). [now_frames, now_idle]) rounds)"

lemma clocks_simps [simp]: "clocks [] = []" "clocks ((q, a, x, y) # rounds) = x # y # clocks rounds"
  by (simp_all add: clocks_def)

lemma send_frames_time: "send_frames t now = Inr u \<Longrightarrow> last_data_time u = last_data_time t \<or> last_data_time u = now"
proof (induction t now arbitrary: u rule: send_frames.induct)
  case (1 t now)
  show ?case
  proof (cases "has_frame (tin_server t) \<and> fst (read_frame (tin_server t)) \<noteq> []")
    case False
    then show ?thesis using "1.prems" by (auto simp: send_frames.simps [of t] split: prod.splits if_splits)
  next
    case True
    obtain d srv where r: "read_frame (tin_server t) = (d, srv)" by force
    then obtain v where v: "offer (t\<lparr>tin_server := srv\<rparr>) d = Inr v"
      "send_frames (v\<lparr>last_data_time := now, last_buffered := 0\<rparr>) now = Inr u"
      using "1.prems" True by (auto simp: send_frames.simps [of t] rbind_eq_Inr)
    show ?thesis using "1.IH" [OF _ r [symmetric] refl refl _ v(1,2)] True r by simp
  qed
qed

lemma input_round_time:
  assumes "input_round t a now_frames now_idle = Inr u"
  shows "last_data_time u \<in> {last_data_time t, now_frames, now_idle}"
proof -
  have fl: "flush_leftover w = Inr v \<Longrightarrow> last_data_time v = last_data_time w" for v w
    by (auto simp: flush_leftover_def flush_def Let_def dest!: offer_simps(5) split: if_splits)
  obtain srv v w x where steps: "send_frames (t\<lparr>tin_server := srv\<rparr>) now_frames = Inr v"
    "(if was_connected v \<and> \<not> connected (tin_server v) then flush_leftover v else Inr v) = Inr w"
    "idle_flush w now_idle = Inr x" "u = x\<lparr>was_connected := connected (tin_server x)\<rparr>"
    using assms by (auto simp: input_round_def rbind_eq_Inr)
  have "last_data_time w = last_data_time v" using steps(2) fl by (auto split: if_splits)
  moreover have "last_data_time x = last_data_time w \<or> last_data_time x = now_idle"
    using steps(3) fl by (auto simp: idle_flush_def Let_def rbind_eq_Inr split: if_splits)
  ultimately show ?thesis using send_frames_time [OF steps(1)] steps(4) by auto
qed

lemma input_run_time:
  "input_run t rounds = Inr u \<Longrightarrow> last_data_time t \<le> now \<Longrightarrow> sorted (now # clocks rounds) \<Longrightarrow>
    last_data_time u \<le> last (now # clocks rounds)"
proof (induction rounds arbitrary: t now)
  case (Cons r rounds)
  obtain q a x y where r: "r = (q, a, x, y)" by (cases r)
  obtain v where v: "input_round (t\<lparr>tin_queue := q\<rparr>) a x y = Inr v" "input_run v rounds = Inr u"
    using Cons.prems(1) by (auto simp: r rbind_eq_Inr)
  have "last_data_time v \<le> y" using input_round_time [OF v(1)] Cons.prems(2,3) by (auto simp: r)
  then show ?case using Cons.IH [OF v(2), of y] Cons.prems(3) by (auto simp: r)
qed simp

lemma quiet_empty_run:
  "input_run t rounds = Inr u \<Longrightarrow> run_reads t rounds = [] \<Longrightarrow> tin_buffer (tin_server t) = [] \<Longrightarrow>
    0 < tin_frame_size (tin_server t) \<Longrightarrow> offered u = offered t \<and> tin_buffer (tin_server u) = []"
proof (induction rounds arbitrary: t)
  case (Cons r rounds)
  obtain q a x y where r: "r = (q, a, x, y)" by (cases r)
  obtain v where v: "input_round (t\<lparr>tin_queue := q\<rparr>) a x y = Inr v" "input_run v rounds = Inr u"
    using Cons.prems(1) by (auto simp: r rbind_eq_Inr)
  have "read_by (tin_server t) a = []" "run_reads v rounds = []" using Cons.prems(2) v(1) by (simp_all add: r)
  with empty_round [OF v(1)] Cons.IH [OF v(2)] Cons.prems(3,4) show ?case by simp
qed simp

lemma quiet_run:
  "input_run t rounds = Inr u \<Longrightarrow> run_reads t rounds = [] \<Longrightarrow> remembers t \<Longrightarrow> tin_buffer (tin_server t) \<noteq> [] \<Longrightarrow>
    (\<exists>pushed. offered u = offered t @ [(tin_buffer (tin_server t), pushed)]) \<and> tin_buffer (tin_server u) = []
    \<or> (connected (tin_server t) \<longrightarrow> connected (tin_server u))
      \<and> (rounds \<noteq> [] \<longrightarrow> last (clocks rounds) < last_data_time t + 101000000)"
proof (induction rounds arbitrary: t)
  case (Cons r rounds)
  obtain q a x y where r: "r = (q, a, x, y)" by (cases r)
  obtain v where v: "input_round (t\<lparr>tin_queue := q\<rparr>) a x y = Inr v" "input_run v rounds = Inr u"
    using Cons.prems(1) by (auto simp: r rbind_eq_Inr)
  have quiet: "read_by (tin_server t) a = []" "run_reads v rounds = []" using Cons.prems(2) v(1) by (simp_all add: r)
  have size: "0 < tin_frame_size (tin_server t)" using Cons.prems(3) by (auto simp: remembers_def)
  from quiet_round [OF v(1) quiet(1) Cons.prems(3,4)] show ?case
  proof
    assume "flushed t v"
    then show ?thesis using quiet_empty_run [OF v(2) quiet(2)] size by (auto simp: flushed_def)
  next
    assume h: "held t v y"
    then have "clocks rounds = [] \<longleftrightarrow> rounds = []" by (cases rounds) auto
    with h show ?thesis using Cons.IH [OF v(2) quiet(2)] Cons.prems(4) by (auto simp: held_def r)
  qed
qed simp

text \<open>C33. No byte waits for long: when, after any rounds, bytes short of a frame are waiting and then
  nothing more is read, they are offered to the transmitter as one chunk, and once only, by the time the
  client is gone or the clock is 101 ms past the last reading before the silence.\<close>

theorem waiting_bytes_flushed:
  assumes "input_run (new_input_thread srv q now) rounds = Inr t" "rounds \<noteq> []" "0 < tin_frame_size srv" "tin_buffer srv = []"
    and "input_run t silent = Inr u" "run_reads t silent = []" "tin_buffer (tin_server t) \<noteq> []"
    and "sorted (now # clocks rounds)"
    and "connected (tin_server t) \<and> \<not> connected (tin_server u)
      \<or> silent \<noteq> [] \<and> last (clocks rounds) + 101000000 \<le> last (clocks silent)"
  shows "\<exists>pushed. offered u = offered t @ [(tin_buffer (tin_server t), pushed)] \<and> tin_buffer (tin_server u) = []"
proof -
  have c: "chunks_ok (new_input_thread srv q now)" by (simp add: chunks_ok_def new_input_thread_def)
  have m: "remembers t" using input_run_remembers [OF assms(1) c] assms(2,3) by (simp add: new_input_thread_def)
  have "clocks rounds \<noteq> []" using assms(2) by (cases rounds) auto
  then have "last_data_time t \<le> last (clocks rounds)"
    using input_run_time [OF assms(1) _ assms(8)] by (simp add: new_input_thread_def)
  then show ?thesis using quiet_run [OF assms(5,6) m assms(7)] assms(9) by auto
qed

theorem waiting_bytes_flushed_witness:
  "\<exists>t u pushed. input_run (new_input_thread started_server (new_spsc 64 []) 0)
      [(new_spsc 64 [], answers True False Recv_Waits, 0, 0), (new_spsc 64 [], answers False True (Received [1, 2, 3]), 0, 1000000)] = Inr t
    \<and> input_run t [(new_spsc 64 [], answers False False Recv_Waits, 51000000, 51000000),
        (new_spsc 64 [], answers False False Recv_Waits, 102000000, 102000000)] = Inr u
    \<and> offered u = [([1, 2, 3], pushed)] \<and> tin_buffer (tin_server u) = []"
proof -
  let ?q = "new_spsc 64 [] :: bytes spsc" and ?a = "answers False False Recv_Waits"
  let ?silent = "[(?q, ?a, 51000000, 51000000), (?q, ?a, 102000000, 102000000)]"
  obtain t where t: "input_run (new_input_thread started_server ?q 0)
      [(?q, answers True False Recv_Waits, 0, 0), (?q, answers False True (Received [1, 2, 3]), 0, 1000000)] = Inr t"
    "tin_buffer (tin_server t) = [1, 2, 3]" "offered t = []" "last_data_time t = 1000000"
    using sample_input_run by blast
  obtain u where u: "input_run t ?silent = Inr u" using t(1) by (auto simp: round_defs)
  have r: "run_reads t ?silent = []" using u by (auto simp: read_by_def answers_def rbind_eq_Inr split: sum.splits)
  have st: "0 < tin_frame_size started_server" "tin_buffer started_server = []"
    by (simp_all add: started_server_def tcp_input_start_def new_tcp_input_def Let_def)
  show ?thesis
    using waiting_bytes_flushed [OF t(1) _ st u r] t(2-4) u t(1) by auto
qed

section \<open>Faults\<close>



end
