(* ===== verification/Tcp_Output.thy ===== *)
theory Tcp_Output
  imports Listener Spsc "HOL-Library.Multiset"
begin

text \<open>
  The modem's TCP output: the server of \<^verbatim>\<open>src/tcp_output_server.cpp\<close>, which sends every
  decoded payload to all its clients, and the thread of \<^verbatim>\<open>src/main.cpp\<close> that feeds it from
  the receiver's queue. What the sockets answer is an input; the bytes the kernel took from each
  client's \<open>send\<close> calls, the payloads \<open>write_to_all\<close> was called with, how many of
  them there were when a client joined and the clients that were removed are kept beside the state.
\<close>

section \<open>Server\<close>

record out_client =
  client_fd :: int
  client_addr :: string
  client_port :: u16
  client_bytes_sent :: u64
  client_stream :: bytes        \<comment> \<open>what the kernel took\<close>
  client_since :: nat           \<comment> \<open>payloads written before it was accepted\<close>

record tcp_output =
  tout_listen_fd :: int
  tout_clients :: "out_client list"
  tout_removed :: "out_client list"
  tout_log :: "bytes list"      \<comment> \<open>what \<open>write_to_all\<close> was called with\<close>

definition new_tcp_output :: tcp_output where
  "new_tcp_output = \<lparr>tout_listen_fd = -1, tout_clients = [], tout_removed = [], tout_log = []\<rparr>"

definition tcp_output_start :: "tcp_output \<Rightarrow> listen_answers \<Rightarrow> tcp_output \<times> bool" where
  "tcp_output_start s a =
    (let fd = fst (open_listener a 0) in (s\<lparr>tout_listen_fd := fd\<rparr>, 0 \<le> fd))"

definition tcp_output_stop :: "tcp_output \<Rightarrow> tcp_output" where
  "tcp_output_stop s =
    (let s = s\<lparr>tout_clients := []\<rparr> in if 0 \<le> tout_listen_fd s then s\<lparr>tout_listen_fd := -1\<rparr> else s)"

definition client_count :: "tcp_output \<Rightarrow> nat" where
  "client_count s = length (tout_clients s)"

text \<open>A poll of the listening socket, with the answer of \<open>accept\<close>.\<close>

definition accept_output :: "tcp_output \<Rightarrow> poll_result \<Rightarrow> bool \<Rightarrow> int \<times> string \<times> u16 \<Rightarrow> tcp_output" where
  "accept_output s polled readable peer =
    (let (fd, ip, port) = peer in
     if tout_listen_fd s < 0 then s
     else if polled \<noteq> Poll_Ready then s
     else if readable \<and> 0 \<le> fd then
       s\<lparr>tout_clients := tout_clients s @ [\<lparr>client_fd = fd, client_addr = ip, client_port = port,
                                             client_bytes_sent = 0, client_stream = [],
                                             client_since = length (tout_log s)\<rparr>]\<rparr>
     else s)"

definition remove_client :: "tcp_output \<Rightarrow> nat \<Rightarrow> tcp_output" where
  "remove_client s index =
    s\<lparr>tout_removed := tout_removed s @ [tout_clients s ! index],
      tout_clients := take index (tout_clients s) @ drop (index + 1) (tout_clients s)\<rparr>"

text \<open>A call of \<open>send\<close> takes what the kernel has room for, at most what it is given; a result
  that is not positive is a failure.\<close>

definition send_result :: "int \<Rightarrow> bytes \<Rightarrow> int" where
  "send_result room remaining = min room (int (length remaining))"

text \<open>The calls for one client, given the room each finds: the client afterwards, and whether it
  took everything. With no more room the call blocks.\<close>

fun send_loop :: "bytes \<Rightarrow> int list \<Rightarrow> out_client \<Rightarrow> (out_client \<times> bool) option" where
  "send_loop remaining [] c = (if remaining = [] then Some (c, True) else None)"
| "send_loop remaining (room # rooms) c =
    (if remaining = [] then Some (c, True)
     else
       let n = send_result room remaining in
       if n > 0 then
         send_loop (drop (nat n) remaining) rooms
           (c\<lparr>client_bytes_sent := client_bytes_sent c + of_int n, client_stream := client_stream c @ take (nat n) remaining\<rparr>)
       else Some (c, False))"

text \<open>The walk over the clients, from the last to the first.\<close>

fun write_back :: "bytes \<Rightarrow> (int \<Rightarrow> int list) \<Rightarrow> nat \<Rightarrow> tcp_output \<Rightarrow> tcp_output option" where
  "write_back data answers 0 s = Some s"
| "write_back data answers (Suc i) s =
    (case send_loop data (answers (client_fd (tout_clients s ! i))) (tout_clients s ! i) of
       None \<Rightarrow> None
     | Some (c, alive) \<Rightarrow>
         let s = s\<lparr>tout_clients := (tout_clients s)[i := c]\<rparr>
         in write_back data answers i (if alive then s else remove_client s i))"

definition write_to_all :: "bytes \<Rightarrow> (int \<Rightarrow> int list) \<Rightarrow> tcp_output \<Rightarrow> tcp_output option" where
  "write_to_all data answers s =
    (let s = s\<lparr>tout_log := tout_log s @ [data]\<rparr>
     in if data = [] then Some s else write_back data answers (length (tout_clients s)) s)"

section \<open>Thread\<close>

record output_thread =
  tout_server :: tcp_output
  tout_queue :: "bytes spsc"
  popped :: "bytes list"        \<comment> \<open>what \<open>try_pop\<close> gave\<close>

text \<open>The inner loop: one set of answers for each payload. \<open>None\<close> is a call that blocks.\<close>

fun drain :: "output_thread \<Rightarrow> (int \<Rightarrow> int list) list \<Rightarrow> output_thread res option" where
  "drain t answers =
    (case try_pop (tout_queue t) of
       Inl e \<Rightarrow> Some (Inl e)
     | Inr (None, q) \<Rightarrow> Some (Inr t)
     | Inr (Some payload, q) \<Rightarrow>
         (case answers of
            [] \<Rightarrow> None
          | a # later \<Rightarrow>
              (case write_to_all payload a (tout_server t) of
                 None \<Rightarrow> None
               | Some srv \<Rightarrow> drain \<lparr>tout_server = srv, tout_queue = q, popped = popped t @ [payload]\<rparr> later)))"

declare drain.simps [simp del]

text \<open>A round of the loop; in the meantime the receiver has pushed the given payloads.\<close>

record output_answers =
  pushes :: "bytes list"
  out_polled :: poll_result
  out_readable :: bool
  out_accepted :: "int \<times> string \<times> u16"
  send_answers :: "(int \<Rightarrow> int list) list"

definition output_round :: "output_thread \<Rightarrow> output_answers \<Rightarrow> output_thread res option" where
  "output_round t a =
    (case push_all (tout_queue t) (pushes a) of
       Inl e \<Rightarrow> Some (Inl e)
     | Inr q \<Rightarrow>
         drain (t\<lparr>tout_server := accept_output (tout_server t) (out_polled a) (out_readable a) (out_accepted a),
                  tout_queue := q\<rparr>) (send_answers a))"

fun output_run :: "output_thread \<Rightarrow> output_answers list \<Rightarrow> output_thread res option" where
  "output_run t [] = Some (Inr t)"
| "output_run t (a # later) =
    (case output_round t a of Some (Inr u) \<Rightarrow> output_run u later | r \<Rightarrow> r)"

section \<open>What each client gets\<close>

text \<open>After the payloads \<open>ps\<close> were written, a client has got all since it joined, a removed one
  a beginning of that.\<close>

definition served :: "bytes list \<Rightarrow> out_client \<Rightarrow> bool" where
  "served ps c \<longleftrightarrow> client_since c \<le> length ps \<and> client_stream c = concat (drop (client_since c) ps)
     \<and> client_bytes_sent c = of_nat (length (client_stream c))"

definition broke_off :: "bytes list \<Rightarrow> out_client \<Rightarrow> bool" where
  "broke_off ps c \<longleftrightarrow> client_since c \<le> length ps \<and> prefix (client_stream c) (concat (drop (client_since c) ps))"

definition all_served :: "bytes list \<Rightarrow> tcp_output \<Rightarrow> bool" where
  "all_served ps s \<longleftrightarrow> tout_log s = ps
     \<and> (\<forall>c \<in> set (tout_clients s). served ps c) \<and> (\<forall>c \<in> set (tout_removed s). broke_off ps c)"

lemma send_loop_stream:
  "send_loop rest rooms c = Some (c', alive) \<Longrightarrow> client_bytes_sent c = of_nat (length (client_stream c)) \<Longrightarrow>
    \<exists>sent. client_stream c' = client_stream c @ sent \<and> prefix sent rest \<and> (alive \<longrightarrow> sent = rest)
      \<and> client_bytes_sent c' = of_nat (length (client_stream c'))"
proof (induction rest rooms c rule: send_loop.induct)
  case (2 rest room rooms c)
  let ?n = "send_result room rest"
  show ?case
  proof (cases "rest \<noteq> [] \<and> ?n > 0")
    case True
    let ?c = "c\<lparr>client_bytes_sent := client_bytes_sent c + of_int ?n, client_stream := client_stream c @ take (nat ?n) rest\<rparr>"
    have n: "?n \<le> int (length rest)" by (simp add: send_result_def)
    have "of_int ?n = (of_nat (nat ?n) :: u64)" using True by simp
    then have "client_bytes_sent ?c = of_nat (length (client_stream ?c))"
      using n "2.prems"(2) by (simp add: min_absorb2)
    moreover have "send_loop (drop (nat ?n) rest) rooms ?c = Some (c', alive)" using True "2.prems"(1) by (simp add: Let_def)
    ultimately obtain sent where sent: "client_stream c' = client_stream ?c @ sent"
      "prefix sent (drop (nat ?n) rest)" "alive \<longrightarrow> sent = drop (nat ?n) rest"
      "client_bytes_sent c' = of_nat (length (client_stream c'))"
      using "2.IH" True by blast
    have "prefix (take (nat ?n) rest @ sent) (take (nat ?n) rest @ drop (nat ?n) rest)"
      using sent(2) by (simp only: same_prefix_prefix)
    then have "prefix (take (nat ?n) rest @ sent) rest" by (simp only: append_take_drop_id)
    then show ?thesis using sent(1,3,4) by (intro exI [of _ "take (nat ?n) rest @ sent"]) auto
  next
    case False
    then show ?thesis using "2.prems" by (auto simp: Let_def split: if_splits)
  qed
qed (auto split: if_splits)

text \<open>A client keeps its socket and its beginning, and is given up only when a call fails.\<close>

lemma send_loop_client:
  "send_loop rest rooms c = Some (c', alive) \<Longrightarrow> client_since c' = client_since c \<and> client_fd c' = client_fd c
    \<and> (\<not> alive \<longrightarrow> (\<exists>room \<in> set rooms. room \<le> 0))"
proof (induction rest rooms c rule: send_loop.induct)
  case (2 rest room rooms c)
  show ?case
  proof (cases "rest \<noteq> [] \<and> send_result room rest > 0")
    case True
    then show ?thesis using 2 by (fastforce simp: Let_def)
  next
    case False
    then have "\<not> alive \<longrightarrow> room \<le> 0" using "2.prems" by (auto simp: Let_def send_result_def split: if_splits)
    then show ?thesis using False "2.prems" by (auto simp: Let_def split: if_splits)
  qed
qed (auto split: if_splits)

lemma send_loop_served:
  assumes "send_loop d ns c = Some (c', alive)" "served ps c"
  shows "if alive then served (ps @ [d]) c' else broke_off (ps @ [d]) c'"
proof -
  have k: "client_since c \<le> length ps" "client_stream c = concat (drop (client_since c) ps)"
    "client_bytes_sent c = of_nat (length (client_stream c))"
    using assms(2) by (auto simp: served_def)
  obtain sent where s: "client_stream c' = client_stream c @ sent" "prefix sent d" "alive \<longrightarrow> sent = d"
    "client_bytes_sent c' = of_nat (length (client_stream c'))"
    using send_loop_stream [OF assms(1) k(3)] by blast
  show ?thesis using s k send_loop_client [OF assms(1)] by (auto simp: served_def broke_off_def)
qed

lemma broke_off_snoc: "broke_off ps c \<Longrightarrow> broke_off (ps @ [d]) c"
  by (auto simp: broke_off_def intro: prefix_prefix)

lemma write_back_served:
  "write_back d answers i s = Some s' \<Longrightarrow> i \<le> length (tout_clients s) \<Longrightarrow> tout_log s = ps @ [d] \<Longrightarrow>
    (\<forall>c \<in> set (take i (tout_clients s)). served ps c) \<Longrightarrow> (\<forall>c \<in> set (drop i (tout_clients s)). served (ps @ [d]) c) \<Longrightarrow>
    (\<forall>c \<in> set (tout_removed s). broke_off (ps @ [d]) c) \<Longrightarrow> all_served (ps @ [d]) s'"
proof (induction i arbitrary: s)
  case 0
  then show ?case by (simp add: all_served_def)
next
  case (Suc i)
  let ?cs = "tout_clients s" and ?c = "tout_clients s ! i"
  obtain c alive where c: "send_loop d (answers (client_fd ?c)) ?c = Some (c, alive)"
    "write_back d answers i (if alive then s\<lparr>tout_clients := ?cs[i := c]\<rparr> else remove_client (s\<lparr>tout_clients := ?cs[i := c]\<rparr>) i) = Some s'"
    using Suc.prems(1) by (auto simp: Let_def split: option.splits)
  have i: "i < length ?cs" using Suc.prems(2) by simp
  have "?c \<in> set (take (Suc i) ?cs)" using i by (simp add: take_Suc_conv_app_nth)
  then have r: "if alive then served (ps @ [d]) c else broke_off (ps @ [d]) c"
    using send_loop_served [OF c(1)] Suc.prems(4) by simp
  let ?s = "if alive then s\<lparr>tout_clients := ?cs[i := c]\<rparr> else remove_client (s\<lparr>tout_clients := ?cs[i := c]\<rparr>) i"
  have t: "take i (tout_clients ?s) = take i ?cs" "i \<le> length (tout_clients ?s)"
    "drop i (tout_clients ?s) = (if alive then [c] else []) @ drop (Suc i) ?cs"
    "tout_removed ?s = tout_removed s @ (if alive then [] else [c])" "tout_log ?s = tout_log s"
    using i by (auto simp: remove_client_def drop_update_swap min_def Cons_nth_drop_Suc [symmetric] upd_conv_take_nth_drop nth_append)
  have "set (take i ?cs) \<subseteq> set (take (Suc i) ?cs)" by (rule set_take_subset_set_take) simp
  then show ?case
    using Suc.prems(3-6) r t(1,3,4,5) by (intro Suc.IH [OF c(2) t(2)]) (auto split: if_splits)
qed

lemma write_to_all_served:
  assumes "write_to_all d answers s = Some s'" "all_served ps s"
  shows "all_served (ps @ [d]) s'"
proof (cases "d = []")
  case True
  have "served ps c \<Longrightarrow> served (ps @ [[]]) c" for c by (auto simp: served_def)
  then show ?thesis using assms True broke_off_snoc by (auto simp: write_to_all_def all_served_def)
next
  case False
  then show ?thesis
    using assms write_back_served [of d answers "length (tout_clients s)" "s\<lparr>tout_log := tout_log s @ [d]\<rparr>" s' ps]
      broke_off_snoc
    by (auto simp: write_to_all_def all_served_def Let_def)
qed

lemma accept_output_served: "all_served ps s \<Longrightarrow> all_served ps (accept_output s polled readable peer)"
  by (auto simp: all_served_def accept_output_def served_def split: prod.split)

text \<open>No client is lost: all that were accepted are connected or were removed, and a removed one had a
  call of \<open>send\<close> that failed.\<close>

definition sockets :: "tcp_output \<Rightarrow> int multiset" where
  "sockets s = mset (map client_fd (tout_removed s @ tout_clients s))"

definition accepts :: "int \<Rightarrow> output_answers \<Rightarrow> int list" where
  "accepts listening a = (if 0 \<le> listening \<and> out_polled a = Poll_Ready \<and> out_readable a \<and> 0 \<le> fst (out_accepted a)
     then [fst (out_accepted a)] else [])"

definition send_failed :: "(int \<Rightarrow> int list) list \<Rightarrow> int \<Rightarrow> bool" where
  "send_failed answers fd \<longleftrightarrow> (\<exists>a \<in> set answers. \<exists>room \<in> set (a fd). room \<le> 0)"

definition removals_ok :: "(int \<Rightarrow> int list) list \<Rightarrow> tcp_output \<Rightarrow> bool" where
  "removals_ok answers s \<longleftrightarrow> (\<forall>c \<in> set (tout_removed s). send_failed answers (client_fd c))"

lemma removals_mono: "removals_ok answers s \<Longrightarrow> set answers \<subseteq> set answers' \<Longrightarrow> removals_ok answers' s"
  by (fastforce simp: removals_ok_def send_failed_def)

lemma accept_output_sockets:
  "sockets (accept_output s (out_polled a) (out_readable a) (out_accepted a)) = sockets s + mset (accepts (tout_listen_fd s) a)
   \<and> tout_listen_fd (accept_output s (out_polled a) (out_readable a) (out_accepted a)) = tout_listen_fd s
   \<and> tout_removed (accept_output s (out_polled a) (out_readable a) (out_accepted a)) = tout_removed s"
  by (auto simp: accept_output_def sockets_def accepts_def split: prod.split)

lemma write_back_sockets:
  "write_back d a i s = Some s' \<Longrightarrow> i \<le> length (tout_clients s) \<Longrightarrow> removals_ok (answers @ [a]) s \<Longrightarrow>
    sockets s' = sockets s \<and> tout_listen_fd s' = tout_listen_fd s \<and> removals_ok (answers @ [a]) s'"
proof (induction i arbitrary: s)
  case (Suc i)
  let ?cs = "tout_clients s" and ?c = "tout_clients s ! i"
  obtain c alive where c: "send_loop d (a (client_fd ?c)) ?c = Some (c, alive)"
    "write_back d a i (if alive then s\<lparr>tout_clients := ?cs[i := c]\<rparr> else remove_client (s\<lparr>tout_clients := ?cs[i := c]\<rparr>) i) = Some s'"
    using Suc.prems(1) by (auto simp: Let_def split: option.splits)
  let ?s = "if alive then s\<lparr>tout_clients := ?cs[i := c]\<rparr> else remove_client (s\<lparr>tout_clients := ?cs[i := c]\<rparr>) i"
  have i: "i < length ?cs" using Suc.prems(2) by simp
  then have split: "?cs = take i ?cs @ ?c # drop (Suc i) ?cs" by (rule id_take_nth_drop)
  have fd: "client_fd c = client_fd ?c" and f: "\<not> alive \<Longrightarrow> send_failed (answers @ [a]) (client_fd c)"
    using send_loop_client [OF c(1)] by (auto simp: send_failed_def)
  have "mset (map client_fd ?cs) = mset (map client_fd (take i ?cs)) + {#client_fd c#} + mset (map client_fd (drop (Suc i) ?cs))"
    by (subst split) (simp add: fd)
  moreover have "mset (map client_fd (?cs[i := c]))
      = mset (map client_fd (take i ?cs)) + {#client_fd c#} + mset (map client_fd (drop (Suc i) ?cs))"
    using i by (simp add: upd_conv_take_nth_drop)
  ultimately have "sockets ?s = sockets s" "tout_listen_fd ?s = tout_listen_fd s"
    using i by (simp_all add: sockets_def remove_client_def)
  moreover have "removals_ok (answers @ [a]) ?s"
    using Suc.prems(3) f i by (auto simp: removals_ok_def remove_client_def)
  moreover have "i \<le> length (tout_clients ?s)" using i by (auto simp: remove_client_def)
  ultimately show ?case using Suc.IH [OF c(2)] by simp
qed simp

lemma write_to_all_sockets:
  assumes "write_to_all d a s = Some s'" "removals_ok answers s"
  shows "sockets s' = sockets s \<and> tout_listen_fd s' = tout_listen_fd s \<and> removals_ok (answers @ [a]) s'"
proof -
  have "removals_ok (answers @ [a]) (s\<lparr>tout_log := tout_log s @ [d]\<rparr>)"
    using removals_mono [OF assms(2), of "answers @ [a]"] by (auto simp: removals_ok_def)
  then show ?thesis
    using assms(1) write_back_sockets [of d a _ "s\<lparr>tout_log := tout_log s @ [d]\<rparr>" s' answers]
    by (auto simp: write_to_all_def Let_def sockets_def split: if_splits)
qed

lemma drain_sockets:
  "drain t as = Some (Inr u) \<Longrightarrow> removals_ok answers (tout_server t) \<Longrightarrow>
    sockets (tout_server u) = sockets (tout_server t) \<and> tout_listen_fd (tout_server u) = tout_listen_fd (tout_server t)
    \<and> removals_ok (answers @ as) (tout_server u)"
proof (induction t as arbitrary: answers rule: drain.induct)
  case (1 t as)
  show ?case
  proof (cases "\<exists>q. try_pop (tout_queue t) = Inr (None, q)")
    case True
    then show ?thesis using "1.prems" removals_mono [OF "1.prems"(2), of "answers @ as"] by (auto simp: drain.simps [of t])
  next
    case False
    then obtain payload q where pop: "try_pop (tout_queue t) = Inr (Some payload, q)"
      using "1.prems"(1) by (auto simp: drain.simps [of t] split: sum.splits option.splits)
    then obtain a later srv where a: "as = a # later" "write_to_all payload a (tout_server t) = Some srv"
      "drain \<lparr>tout_server = srv, tout_queue = q, popped = popped t @ [payload]\<rparr> later = Some (Inr u)"
      using "1.prems"(1) by (auto simp: drain.simps [of t] split: list.splits option.splits)
    show ?thesis
      using "1.IH" [OF pop refl refl a, of "answers @ [a]"] write_to_all_sockets [OF a(2) "1.prems"(2)] a(1) by simp
  qed
qed

definition output_inv :: "bytes list \<Rightarrow> output_thread \<Rightarrow> bool" where
  "output_inv pushed t \<longleftrightarrow> spsc_inv (tout_queue t) \<and> popped t @ elements (tout_queue t) = pushed
     \<and> all_served (popped t) (tout_server t)"

lemma drain_inv:
  "drain t answers = Some (Inr u) \<Longrightarrow> output_inv pushed t \<Longrightarrow> output_inv pushed u \<and> elements (tout_queue u) = []"
proof (induction t answers rule: drain.induct)
  case (1 t answers)
  have inv: "spsc_inv (tout_queue t)" using "1.prems"(2) by (simp add: output_inv_def)
  obtain q where q: "try_pop (tout_queue t) = Inr (if elements (tout_queue t) = [] then None else Some (hd (elements (tout_queue t))), q)"
    "spsc_inv q" "elements q = tl (elements (tout_queue t))" using ring.pop_ok [OF inv] by blast
  show ?case
  proof (cases "elements (tout_queue t)")
    case Nil
    then show ?thesis using "1.prems" q(1) by (simp add: drain.simps [of t])
  next
    case (Cons payload rest)
    then have pop: "try_pop (tout_queue t) = Inr (Some payload, q)" using q(1) by simp
    obtain a later srv where a: "answers = a # later" "write_to_all payload a (tout_server t) = Some srv"
      "drain \<lparr>tout_server = srv, tout_queue = q, popped = popped t @ [payload]\<rparr> later = Some (Inr u)"
      using "1.prems"(1) pop by (auto simp: drain.simps [of t] split: list.splits option.splits)
    have "output_inv pushed \<lparr>tout_server = srv, tout_queue = q, popped = popped t @ [payload]\<rparr>"
      using "1.prems"(2) q(2,3) Cons write_to_all_served [OF a(2)] by (auto simp: output_inv_def)
    then show ?thesis using "1.IH" [OF pop refl refl a] by simp
  qed
qed

lemma output_run_inv:
  "output_run t rounds = Some (Inr u) \<Longrightarrow> output_inv pushed t \<Longrightarrow> elements (tout_queue t) = [] \<Longrightarrow>
    \<exists>acc. output_inv (pushed @ acc) u \<and> elements (tout_queue u) = [] \<and> subseq acc (concat (map pushes rounds))"
proof (induction rounds arbitrary: t pushed)
  case (Cons a later)
  obtain v where v: "output_round t a = Some (Inr v)" "output_run v later = Some (Inr u)"
    using Cons.prems(1) by (auto split: option.splits sum.splits)
  obtain q where q: "push_all (tout_queue t) (pushes a) = Inr q"
    using v(1) by (auto simp: output_round_def split: sum.splits)
  obtain acc where acc: "spsc_inv q" "elements q = elements (tout_queue t) @ acc" "subseq acc (pushes a)"
    using push_all_inv [OF q] Cons.prems(2) by (auto simp: output_inv_def)
  let ?t = "t\<lparr>tout_server := accept_output (tout_server t) (out_polled a) (out_readable a) (out_accepted a), tout_queue := q\<rparr>"
  have "output_inv (pushed @ acc) ?t"
    using Cons.prems(2) acc(1,2) accept_output_served by (auto simp: output_inv_def)
  then have inv: "output_inv (pushed @ acc) v" "elements (tout_queue v) = []"
    using drain_inv v(1) q by (auto simp: output_round_def)
  obtain acc' where "output_inv ((pushed @ acc) @ acc') u" "elements (tout_queue u) = []" "subseq acc' (concat (map pushes later))"
    using Cons.IH [OF v(2) inv] by blast
  then show ?case using acc(3) by (auto intro!: exI [of _ "acc @ acc'"] list_emb_append_mono)
qed (auto intro: exI [of _ "[]"])

lemma output_round_sockets:
  assumes "output_round t a = Some (Inr u)" "removals_ok answers (tout_server t)"
  shows "sockets (tout_server u) = sockets (tout_server t) + mset (accepts (tout_listen_fd (tout_server t)) a)
    \<and> tout_listen_fd (tout_server u) = tout_listen_fd (tout_server t)
    \<and> removals_ok (answers @ send_answers a) (tout_server u)"
proof -
  obtain q where d: "drain (t\<lparr>tout_server := accept_output (tout_server t) (out_polled a) (out_readable a) (out_accepted a),
      tout_queue := q\<rparr>) (send_answers a) = Some (Inr u)"
    using assms(1) by (auto simp: output_round_def split: sum.splits)
  note acc = accept_output_sockets [of "tout_server t" a]
  from drain_sockets [OF d, of answers] acc assms(2) show ?thesis by (simp add: removals_ok_def)
qed

lemma output_run_sockets:
  "output_run t rounds = Some (Inr u) \<Longrightarrow> removals_ok answers (tout_server t) \<Longrightarrow>
    sockets (tout_server u) = sockets (tout_server t) + mset (concat (map (accepts (tout_listen_fd (tout_server t))) rounds))
    \<and> removals_ok (answers @ concat (map send_answers rounds)) (tout_server u)"
proof (induction rounds arbitrary: t answers)
  case (Cons a later)
  obtain v where v: "output_round t a = Some (Inr v)" "output_run v later = Some (Inr u)"
    using Cons.prems(1) by (auto split: option.splits sum.splits)
  note r = output_round_sockets [OF v(1) Cons.prems(2)]
  show ?case using Cons.IH [OF v(2), of "answers @ send_answers a"] r by simp
qed simp

section \<open>Property\<close>

text \<open>C34. Every client reads the same ordered stream from the moment it joins: after any rounds of the
  thread, a client that is still connected has got exactly the payloads taken from the queue after
  it was accepted, one after the other and nothing else, and a removed one a beginning of that.
  Every accepted client is one of the two, and only a client with a failed \<open>send\<close> is
  removed. The payloads taken from the queue are those the receiver managed to push, in order, and
  none is left behind.\<close>

theorem output_broadcast:
  assumes "output_run \<lparr>tout_server = srv, tout_queue = new_spsc n [], popped = []\<rparr> rounds = Some (Inr t)"
    and "tout_clients srv = []" "tout_removed srv = []" "tout_log srv = []" "0 < n"
  shows "(\<forall>c \<in> set (tout_clients (tout_server t)). client_stream c = concat (drop (client_since c) (popped t)))
    \<and> (\<forall>c \<in> set (tout_removed (tout_server t)).
        prefix (client_stream c) (concat (drop (client_since c) (popped t)))
        \<and> send_failed (concat (map send_answers rounds)) (client_fd c))
    \<and> mset (map client_fd (tout_removed (tout_server t) @ tout_clients (tout_server t)))
        = mset (concat (map (accepts (tout_listen_fd srv)) rounds))
    \<and> tout_log (tout_server t) = popped t
    \<and> subseq (popped t) (concat (map pushes rounds)) \<and> elements (tout_queue t) = []"
proof -
  let ?t = "\<lparr>tout_server = srv, tout_queue = new_spsc n [], popped = []\<rparr>"
  have "output_inv [] ?t" using assms(2-5) by (simp add: output_inv_def all_served_def spsc_inv_new)
  then obtain acc where "output_inv acc t" "elements (tout_queue t) = []" "subseq acc (concat (map pushes rounds))"
    using output_run_inv [OF assms(1), of "[]"] by auto
  moreover have "removals_ok [] srv" "sockets srv = {#}" using assms(2,3) by (simp_all add: removals_ok_def sockets_def)
  ultimately show ?thesis using output_run_sockets [OF assms(1), of "[]"]
    by (auto simp: output_inv_def all_served_def served_def broke_off_def removals_ok_def sockets_def)
qed

text \<open>Two clients join; the second breaks off in the second payload.\<close>

definition sample_rounds :: "output_answers list" where
  "sample_rounds =
    [\<lparr>pushes = [], out_polled = Poll_Ready, out_readable = True, out_accepted = (4, ''a'', 1), send_answers = []\<rparr>,
     \<lparr>pushes = [[1, 2]], out_polled = Poll_Ready, out_readable = True, out_accepted = (5, ''b'', 2),
      send_answers = [\<lambda>_. [1, 9]]\<rparr>,
     \<lparr>pushes = [[3, 4]], out_polled = Poll_Timeout, out_readable = False, out_accepted = (-1, [], 0),
      send_answers = [\<lambda>fd. if fd = 4 then [9] else [1, -1]]\<rparr>]"

theorem output_broadcast_witness:
  "\<exists>t. output_run \<lparr>tout_server = new_tcp_output\<lparr>tout_listen_fd := 3\<rparr>, tout_queue = new_spsc 4 [], popped = []\<rparr> sample_rounds
      = Some (Inr t)
    \<and> map (\<lambda>c. (client_since c, client_stream c)) (tout_clients (tout_server t)) = [(0, [1, 2, 3, 4])]
    \<and> map (\<lambda>c. (client_since c, client_stream c)) (tout_removed (tout_server t)) = [(0, [1, 2, 3])]
    \<and> popped t = [[1, 2], [3, 4]]
    \<and> mset (map client_fd (tout_removed (tout_server t) @ tout_clients (tout_server t))) = {#4, 5#}"
proof -
  let ?t = "\<lparr>tout_server = new_tcp_output\<lparr>tout_listen_fd := 3\<rparr>, tout_queue = new_spsc 4 [], popped = []\<rparr>"
  have "(case output_run ?t sample_rounds of
      Some (Inr t) \<Rightarrow> map (\<lambda>c. (client_since c, client_stream c)) (tout_clients (tout_server t)) = [(0, [1, 2, 3, 4])]
        \<and> map (\<lambda>c. (client_since c, client_stream c)) (tout_removed (tout_server t)) = [(0, [1, 2, 3])]
        \<and> popped t = [[1, 2], [3, 4]]
    | _ \<Rightarrow> False)"
    by code_simp
  then obtain t where t: "output_run ?t sample_rounds = Some (Inr t)"
    "map (\<lambda>c. (client_since c, client_stream c)) (tout_clients (tout_server t)) = [(0, [1, 2, 3, 4])]"
    "map (\<lambda>c. (client_since c, client_stream c)) (tout_removed (tout_server t)) = [(0, [1, 2, 3])]"
    "popped t = [[1, 2], [3, 4]]"
    by (cases "output_run ?t sample_rounds" rule: option.exhaust; simp split: sum.splits)
  have "tout_clients (new_tcp_output\<lparr>tout_listen_fd := 3\<rparr>) = []" "tout_removed (new_tcp_output\<lparr>tout_listen_fd := 3\<rparr>) = []"
    "tout_log (new_tcp_output\<lparr>tout_listen_fd := 3\<rparr>) = []"
    by (simp_all add: new_tcp_output_def)
  from output_broadcast [OF t(1) this] show ?thesis
    using t by (intro exI [of _ t]) (simp add: sample_rounds_def accepts_def)
qed

end
