(* ===== verification/Udp.thy ===== *)
theory Udp
  imports Listener Spsc
begin

text \<open>
  The UDP transport of the modem: \<^verbatim>\<open>src/udp_input.cpp\<close>, \<^verbatim>\<open>src/udp_output.cpp\<close>
  and their threads in \<^verbatim>\<open>src/main.cpp\<close>. One datagram is one payload. What the sockets
  answer is an input; the datagrams that reached the network are kept.
\<close>

section \<open>Input\<close>

definition MAX_DATAGRAM_SIZE :: nat where "MAX_DATAGRAM_SIZE = 65535"

record udp_input =
  uin_fd :: int
  datagrams_received :: u64
  uin_bytes_received :: u64

definition new_udp_input :: udp_input where
  "new_udp_input = \<lparr>uin_fd = -1, datagrams_received = 0, uin_bytes_received = 0\<rparr>"

text \<open>The flag says whether \<open>start\<close> returned; it throws \<open>runtime_error\<close> otherwise.\<close>

definition udp_input_start :: "udp_input \<Rightarrow> listen_answers \<Rightarrow> udp_input \<times> bool" where
  "udp_input_start s a =
    (if socket_result a < 0 then (s\<lparr>uin_fd := socket_result a\<rparr>, False)
     else if \<not> address_valid a then (s\<lparr>uin_fd := -1\<rparr>, False)
     else if bind_result a < 0 then (s\<lparr>uin_fd := -1\<rparr>, False)
     else (s\<lparr>uin_fd := socket_result a, datagrams_received := 0, uin_bytes_received := 0\<rparr>, True))"

definition udp_input_stop :: "udp_input \<Rightarrow> udp_input" where
  "udp_input_stop s = (if 0 \<le> uin_fd s then s\<lparr>uin_fd := -1\<rparr> else s)"

text \<open>\<open>recvfrom\<close> fails, or gives a datagram cut off at the size of the buffer.\<close>

definition recv_datagram :: "udp_input \<Rightarrow> poll_result \<Rightarrow> bool \<Rightarrow> bytes option \<Rightarrow> bytes \<times> udp_input" where
  "recv_datagram s polled readable answer =
    (if uin_fd s < 0 then ([], s)
     else if polled \<noteq> Poll_Ready then ([], s)
     else if \<not> readable then ([], s)
     else
       (case answer of
          None \<Rightarrow> ([], s)
        | Some datagram \<Rightarrow>
            let buf = take MAX_DATAGRAM_SIZE datagram in
            if buf = [] then ([], s)
            else (buf, s\<lparr>datagrams_received := datagrams_received s + 1,
                         uin_bytes_received := uin_bytes_received s + of_nat (length buf)\<rparr>)))"

section \<open>Output\<close>

record udp_output =
  uout_fd :: int
  datagrams_sent :: u64
  uout_bytes_sent :: u64
  uout_sent :: "bytes list"

definition new_udp_output :: udp_output where
  "new_udp_output = \<lparr>uout_fd = -1, datagrams_sent = 0, uout_bytes_sent = 0, uout_sent = []\<rparr>"

definition udp_output_start :: "udp_output \<Rightarrow> int \<Rightarrow> udp_output \<times> bool" where
  "udp_output_start s fd =
    (if fd < 0 then (s\<lparr>uout_fd := fd\<rparr>, False)
     else (s\<lparr>uout_fd := fd, datagrams_sent := 0, uout_bytes_sent := 0\<rparr>, True))"

definition udp_output_stop :: "udp_output \<Rightarrow> udp_output" where
  "udp_output_stop s = (if 0 \<le> uout_fd s then s\<lparr>uout_fd := -1\<rparr> else s)"

text \<open>\<open>sendto\<close> sends a datagram whole or fails.\<close>

definition send_datagram :: "udp_output \<Rightarrow> bool \<Rightarrow> bool \<Rightarrow> bytes \<Rightarrow> bool \<times> udp_output" where
  "send_datagram s destination_valid sendto_ok data =
    (if uout_fd s < 0 \<or> data = [] then (False, s)
     else if \<not> destination_valid then (False, s)
     else if \<not> sendto_ok then (False, s)
     else (True, s\<lparr>datagrams_sent := datagrams_sent s + 1, uout_bytes_sent := uout_bytes_sent s + of_nat (length data),
                   uout_sent := uout_sent s @ [data]\<rparr>))"

section \<open>Threads\<close>

record udp_input_thread =
  uin_socket :: udp_input
  uin_queue :: "bytes spsc"
  uin_offered :: "(bytes \<times> bool) list"

definition udp_input_round :: "udp_input_thread \<Rightarrow> poll_result \<Rightarrow> bool \<Rightarrow> bytes option \<Rightarrow> udp_input_thread res" where
  "udp_input_round t polled readable answer =
    (let (datagram, s) = recv_datagram (uin_socket t) polled readable answer;
         t = t\<lparr>uin_socket := s\<rparr>
     in if datagram = [] then Inr t
        else rbind (try_push (uin_queue t) datagram) (\<lambda>(pushed, q).
             Inr (t\<lparr>uin_queue := q, uin_offered := uin_offered t @ [(datagram, pushed)]\<rparr>)))"

text \<open>Before each round the transmitter may have taken payloads from the queue.\<close>

fun udp_input_run :: "udp_input_thread \<Rightarrow> (bytes spsc \<times> poll_result \<times> bool \<times> bytes option) list \<Rightarrow> udp_input_thread res" where
  "udp_input_run t [] = Inr t"
| "udp_input_run t ((q, polled, readable, answer) # rounds) =
     rbind (udp_input_round (t\<lparr>uin_queue := q\<rparr>) polled readable answer) (\<lambda>t. udp_input_run t rounds)"

record udp_output_thread =
  uout_socket :: udp_output
  uout_queue :: "bytes spsc"
  uout_popped :: "bytes list"

text \<open>A round of the loop: \<open>pop_wait\<close> gives a payload if one is there within 100 ms. The
  payloads were pushed in the meantime; a running thread sends one a round, a stopping one all.\<close>

definition udp_output_step :: "udp_output_thread \<Rightarrow> bool \<Rightarrow> bool \<Rightarrow> udp_output_thread res" where
  "udp_output_step t destination_valid sendto_ok =
    rbind (try_pop (uout_queue t)) (\<lambda>(r, q).
    case r of
      None \<Rightarrow> Inr (t\<lparr>uout_queue := q\<rparr>)
    | Some payload \<Rightarrow>
        Inr (t\<lparr>uout_queue := q, uout_socket := snd (send_datagram (uout_socket t) destination_valid sendto_ok payload),
               uout_popped := uout_popped t @ [payload]\<rparr>))"

fun udp_output_run :: "udp_output_thread \<Rightarrow> (bytes list \<times> bool \<times> bool) list \<Rightarrow> udp_output_thread res" where
  "udp_output_run t [] = Inr t"
| "udp_output_run t ((pushes, destination_valid, sendto_ok) # rounds) =
     rbind (push_all (uout_queue t) pushes) (\<lambda>q.
     rbind (udp_output_step (t\<lparr>uout_queue := q\<rparr>) destination_valid sendto_ok) (\<lambda>t. udp_output_run t rounds))"

section \<open>Properties\<close>

text \<open>The datagrams a run receives.\<close>

definition datagram_of :: "udp_input \<Rightarrow> bytes spsc \<times> poll_result \<times> bool \<times> bytes option \<Rightarrow> bytes list" where
  "datagram_of s r =
    (let (q, polled, readable, answer) = r; d = fst (recv_datagram s polled readable answer) in if d = [] then [] else [d])"

lemma recv_datagram_fd: "uin_fd (snd (recv_datagram s polled readable answer)) = uin_fd s"
  by (auto simp: recv_datagram_def Let_def split: option.split)

lemma recv_datagram_same: "uin_fd s = uin_fd s' \<Longrightarrow> fst (recv_datagram s p r a) = fst (recv_datagram s' p r a)"
  by (auto simp: recv_datagram_def Let_def split: option.split)

lemma recv_datagram_counts:
  "recv_datagram s p r a = (d, s') \<Longrightarrow> d \<noteq> [] \<Longrightarrow>
    datagrams_received s' = datagrams_received s + 1 \<and> uin_bytes_received s' = uin_bytes_received s + of_nat (length d)"
  "recv_datagram s p r a = ([], s') \<Longrightarrow> s' = s"
  by (auto simp: recv_datagram_def Let_def split: if_splits option.splits)

lemma udp_input_run_offers:
  "udp_input_run t rounds = Inr u \<Longrightarrow>
    map fst (uin_offered u) = map fst (uin_offered t) @ concat (map (datagram_of (uin_socket t)) rounds)
    \<and> datagrams_received (uin_socket u) = datagrams_received (uin_socket t) + of_nat (length (concat (map (datagram_of (uin_socket t)) rounds)))
    \<and> uin_bytes_received (uin_socket u) = uin_bytes_received (uin_socket t) + of_nat (length (concat (concat (map (datagram_of (uin_socket t)) rounds))))"
proof (induction rounds arbitrary: t)
  case (Cons x rounds)
  obtain q p r a where x: "x = (q, p, r, a)" by (cases x)
  obtain v where v: "udp_input_round (t\<lparr>uin_queue := q\<rparr>) p r a = Inr v" "udp_input_run v rounds = Inr u"
    using Cons.prems by (auto simp: x rbind_eq_Inr)
  obtain d s where d: "recv_datagram (uin_socket t) p r a = (d, s)" by fastforce
  have fd: "uin_fd s = uin_fd (uin_socket t)" using recv_datagram_fd [of "uin_socket t" p r a] d by simp
  have s: "uin_socket v = s" "map fst (uin_offered v) = map fst (uin_offered t) @ datagram_of (uin_socket t) x"
    using v(1) d by (auto simp: udp_input_round_def datagram_of_def x rbind_eq_Inr Let_def split: if_splits)
  have same: "datagram_of (uin_socket v) = datagram_of (uin_socket t)"
    using recv_datagram_same [of s "uin_socket t"] fd s(1) by (auto simp: datagram_of_def)
  have "datagrams_received s = datagrams_received (uin_socket t) + of_nat (length (datagram_of (uin_socket t) x))
    \<and> uin_bytes_received s = uin_bytes_received (uin_socket t) + of_nat (length (concat (datagram_of (uin_socket t) x)))"
    using recv_datagram_counts [of "uin_socket t" p r a] d by (cases "d = []") (auto simp: datagram_of_def x)
  then show ?case using Cons.IH [OF v(2)] s unfolding same by (simp add: algebra_simps)
qed simp

lemma datagram_of_bound: "d \<in> set (datagram_of s r) \<Longrightarrow> 0 < length d \<and> length d \<le> 65535"
  by (cases r) (auto simp: datagram_of_def recv_datagram_def MAX_DATAGRAM_SIZE_def Let_def split: if_splits option.splits)

lemma udp_output_run_sent:
  "udp_output_run t rounds = Inr u \<Longrightarrow> spsc_inv (uout_queue t) \<Longrightarrow>
    \<exists>acc ps. uout_popped u = uout_popped t @ ps \<and> elements (uout_queue t) @ acc = ps @ elements (uout_queue u)
      \<and> subseq acc (concat (map fst rounds))
      \<and> (\<exists>ds. uout_sent (uout_socket u) = uout_sent (uout_socket t) @ ds \<and> subseq ds ps
          \<and> (0 \<le> uout_fd (uout_socket t) \<and> (\<forall>(_, v, ok) \<in> set rounds. v \<and> ok) \<longrightarrow> ds = filter (\<lambda>p. p \<noteq> []) ps))"
proof (induction rounds arbitrary: t)
  case Nil
  then show ?case by (intro exI [of _ "[]"]) simp
next
  case (Cons r rounds)
  obtain pushes v ok where r: "r = (pushes, v, ok)" by (cases r)
  obtain q w where q: "push_all (uout_queue t) pushes = Inr q" "udp_output_step (t\<lparr>uout_queue := q\<rparr>) v ok = Inr w"
    "udp_output_run w rounds = Inr u"
    using Cons.prems(1) by (auto simp: r rbind_eq_Inr)
  obtain acc where acc: "spsc_inv q" "elements q = elements (uout_queue t) @ acc" "subseq acc pushes"
    using push_all_inv [OF q(1) Cons.prems(2)] by blast
  obtain q' where pop: "try_pop q = Inr (if elements q = [] then None else Some (hd (elements q)), q')" "spsc_inv q'"
    "elements q' = tl (elements q)" using ring.pop_ok [OF acc(1)] by blast
  let ?p = "take 1 (elements q)"
  let ?d = "concat (map (\<lambda>p. if fst (send_datagram (uout_socket t) v ok p) then [p] else []) ?p)"
  have w: "uout_queue w = q'" "uout_popped w = uout_popped t @ ?p" "uout_sent (uout_socket w) = uout_sent (uout_socket t) @ ?d"
    "uout_fd (uout_socket w) = uout_fd (uout_socket t)" "elements q = ?p @ elements q'"
    using q(2) pop(1,3) by (cases "elements q"; auto simp: udp_output_step_def send_datagram_def)+
  have d: "subseq ?d ?p" "0 \<le> uout_fd (uout_socket t) \<and> v \<and> ok \<longrightarrow> ?d = filter (\<lambda>p. p \<noteq> []) ?p"
    by (cases "elements q"; auto simp: send_datagram_def)+
  obtain acc' ps ds where IH: "uout_popped u = uout_popped w @ ps" "elements (uout_queue w) @ acc' = ps @ elements (uout_queue u)"
    "subseq acc' (concat (map fst rounds))" "uout_sent (uout_socket u) = uout_sent (uout_socket w) @ ds" "subseq ds ps"
    "0 \<le> uout_fd (uout_socket w) \<and> (\<forall>(_, v, ok) \<in> set rounds. v \<and> ok) \<longrightarrow> ds = filter (\<lambda>p. p \<noteq> []) ps"
    using Cons.IH [OF q(3)] pop(2) unfolding w(1) by blast
  have "elements (uout_queue t) @ acc @ acc' = (?p @ ps) @ elements (uout_queue u)"
    using acc(2) w(1,5) IH(2) by (metis append_assoc)
  moreover have "subseq (acc @ acc') (concat (map fst (r # rounds)))" using acc(3) IH(3) by (simp add: r list_emb_append_mono)
  moreover have "subseq (?d @ ds) (?p @ ps)" using d(1) IH(5) by (rule list_emb_append_mono)
  moreover have "0 \<le> uout_fd (uout_socket t) \<and> (\<forall>(_, v, ok) \<in> set (r # rounds). v \<and> ok) \<longrightarrow> ?d @ ds = filter (\<lambda>p. p \<noteq> []) (?p @ ps)"
    using d(2) IH(6) w(4) by (simp add: r)
  ultimately show ?case using IH(1,4) w(2,3) by (intro exI [of _ "acc @ acc'"] exI [of _ "?p @ ps"]) auto
qed

text \<open>UDP keeps boundaries on the way in: one payload is offered to the transmitter for each datagram
  received, with between 1 and 65535 bytes and in order, and the counters are their number and
  their bytes.\<close>

theorem udp_input_boundaries:
  assumes "udp_input_run \<lparr>uin_socket = s, uin_queue = q, uin_offered = []\<rparr> rounds = Inr u"
    and "datagrams_received s = 0" "uin_bytes_received s = 0"
  shows "map fst (uin_offered u) = concat (map (datagram_of s) rounds)
    \<and> datagrams_received (uin_socket u) = of_nat (length (uin_offered u))
    \<and> uin_bytes_received (uin_socket u) = of_nat (length (concat (map fst (uin_offered u))))
    \<and> (\<forall>(d, pushed) \<in> set (uin_offered u). 0 < length d \<and> length d \<le> 65535)"
proof -
  have o: "map fst (uin_offered u) = concat (map (datagram_of s) rounds)"
    "datagrams_received (uin_socket u) = of_nat (length (concat (map (datagram_of s) rounds)))"
    "uin_bytes_received (uin_socket u) = of_nat (length (concat (concat (map (datagram_of s) rounds))))"
    using udp_input_run_offers [OF assms(1)] assms(2,3) by simp_all
  have "\<forall>d \<in> set (map fst (uin_offered u)). 0 < length d \<and> length d \<le> 65535"
    unfolding o(1) using datagram_of_bound by auto
  then have "\<forall>(d, pushed) \<in> set (uin_offered u). 0 < length d \<and> length d \<le> 65535"
    by force
  moreover have "length (concat (map (datagram_of s) rounds)) = length (uin_offered u)"
    using arg_cong [OF o(1), of length] by simp
  ultimately show ?thesis using o by (intro conjI) simp_all
qed

theorem udp_input_boundaries_witness:
  "\<exists>u. udp_input_run \<lparr>uin_socket = new_udp_input\<lparr>uin_fd := 3\<rparr>, uin_queue = new_spsc 4 [], uin_offered = []\<rparr>
      [(new_spsc 4 [], Poll_Ready, True, Some [1, 2]), (new_spsc 4 [], Poll_Timeout, False, None),
       (new_spsc 4 [], Poll_Ready, True, Some []), (new_spsc 4 [], Poll_Ready, True, Some [3])] = Inr u
    \<and> map fst (uin_offered u) = [[1, 2], [3]]"
proof -
  let ?s = "new_udp_input\<lparr>uin_fd := 3\<rparr>"
  let ?rounds = "[(new_spsc 4 [], Poll_Ready, True, Some [1, 2]), (new_spsc 4 [], Poll_Timeout, False, None),
       (new_spsc 4 [], Poll_Ready, True, Some []), (new_spsc 4 [], Poll_Ready, True, Some [3 :: u8])]"
  obtain u where u: "udp_input_run \<lparr>uin_socket = ?s, uin_queue = new_spsc 4 [], uin_offered = []\<rparr> ?rounds = Inr u"
    by (simp add: udp_input_round_def recv_datagram_def new_udp_input_def MAX_DATAGRAM_SIZE_def try_push_def next_index_def
        new_spsc_def Let_def)
  have "concat (map (datagram_of ?s) ?rounds) = [[1, 2], [3]]"
    by (simp add: datagram_of_def recv_datagram_def new_udp_input_def MAX_DATAGRAM_SIZE_def Let_def)
  then show ?thesis using udp_input_boundaries [OF u] u by (simp add: new_udp_input_def)
qed

text \<open>And on the way out: the payloads taken from the queue are those pushed, in order; each
  datagram sent is one of them, whole and in order, and none is missing while the destination is
  valid and the network accepts datagrams, empty payloads aside.\<close>

theorem udp_output_boundaries:
  assumes "udp_output_run \<lparr>uout_socket = s, uout_queue = new_spsc n [], uout_popped = []\<rparr> rounds = Inr u"
    and "0 < n" "uout_sent s = []"
  shows "subseq (uout_sent (uout_socket u)) (uout_popped u)
    \<and> (\<exists>acc. uout_popped u @ elements (uout_queue u) = acc \<and> subseq acc (concat (map fst rounds)))
    \<and> (0 \<le> uout_fd s \<and> (\<forall>(_, v, ok) \<in> set rounds. v \<and> ok) \<longrightarrow>
        uout_sent (uout_socket u) = filter (\<lambda>p. p \<noteq> []) (uout_popped u))"
  using udp_output_run_sent [OF assms(1)] assms(2,3) by (auto simp: spsc_inv_new)

theorem udp_output_boundaries_witness:
  "\<exists>u. udp_output_run \<lparr>uout_socket = new_udp_output\<lparr>uout_fd := 3\<rparr>, uout_queue = new_spsc 4 [], uout_popped = []\<rparr>
      [([[1], []], True, True), ([[2, 3]], True, True), ([], True, True)] = Inr u
    \<and> uout_popped u = [[1], [], [2, 3]] \<and> uout_sent (uout_socket u) = [[1], [2, 3]]"
proof -
  let ?s = "new_udp_output\<lparr>uout_fd := 3\<rparr>" and ?rounds = "[([[1], []], True, True), ([[2, 3 :: u8]], True, True), ([], True, True)]"
  obtain u where u: "udp_output_run \<lparr>uout_socket = ?s, uout_queue = new_spsc 4 [], uout_popped = []\<rparr> ?rounds = Inr u"
    "uout_popped u = [[1], [], [2, 3]]"
    by (simp add: udp_output_step_def send_datagram_def new_udp_output_def try_push_def try_pop_def next_index_def new_spsc_def)
  have "uout_sent ?s = []" "0 \<le> uout_fd ?s" by (simp_all add: new_udp_output_def)
  then show ?thesis using udp_output_boundaries [OF u(1)] u by auto
qed

end
