(* ===== verification/Radio.thy ===== *)
theory Radio
  imports Modem_Config
begin

text \<open>
  The radio of \<^verbatim>\<open>src/b200_interface.cpp\<close>: both builds, with and without the vendor's driver.
  What the driver answers is an input, and what it was told and given is kept.
\<close>

type_synonym sample = "ieee \<times> ieee"

datatype driver_call =
    Set_Rate ieee | Set_Freq ieee | Set_Gain ieee | Set_Antenna string | Get_Stream
  | Start_Continuous | Stop_Continuous

text \<open>A chunk handed to the transmit streamer with its metadata.\<close>

record tx_chunk =
  chunk_samples :: "sample list"
  start_of_burst :: bool
  end_of_burst :: bool

record radio =
  has_uhd :: bool
  tx_stream :: bool
  rx_stream :: bool
  tx_calls :: "driver_call list"
  rx_calls :: "driver_call list"
  tx_chunks :: "tx_chunk list"

text \<open>The constructor: with the driver it needs a device.\<close>

definition new_radio :: "bool \<Rightarrow> bool \<Rightarrow> radio res" where
  "new_radio uhd device_found =
    (if uhd \<and> \<not> device_found then Inl Runtime_Error
     else Inr \<lparr>has_uhd = uhd, tx_stream = False, rx_stream = False, tx_calls = [], rx_calls = [], tx_chunks = []\<rparr>)"

text \<open>Configuring, given how many of its calls the driver accepts before it throws: then the throwing call is
  the last, and the stream is not made. The flag says whether the function returned.\<close>

definition tx_setup :: "modem_config \<Rightarrow> driver_call list" where
  "tx_setup c = [Set_Rate (sample_rate c), Set_Freq (effective_tx_freq c), Set_Gain (tx_gain c),
                 Set_Antenna (tx_antenna c), Get_Stream]"

definition rx_setup :: "modem_config \<Rightarrow> driver_call list" where
  "rx_setup c = [Set_Rate (sample_rate c), Set_Freq (effective_rx_freq c), Set_Gain (rx_gain c),
                 Set_Antenna (rx_antenna c), Get_Stream]"

definition configure_tx :: "radio \<Rightarrow> modem_config \<Rightarrow> nat \<Rightarrow> radio \<times> bool" where
  "configure_tx r c accepted =
    (if \<not> has_uhd r then (r, False)
     else if accepted < length (tx_setup c) then (r\<lparr>tx_calls := tx_calls r @ take (Suc accepted) (tx_setup c)\<rparr>, False)
     else (r\<lparr>tx_calls := tx_calls r @ tx_setup c, tx_stream := True\<rparr>, True))"

definition configure_rx :: "radio \<Rightarrow> modem_config \<Rightarrow> nat \<Rightarrow> radio \<times> bool" where
  "configure_rx r c accepted =
    (if \<not> has_uhd r then (r, False)
     else if accepted < length (rx_setup c) then (r\<lparr>rx_calls := rx_calls r @ take (Suc accepted) (rx_setup c)\<rparr>, False)
     else (r\<lparr>rx_calls := rx_calls r @ rx_setup c, rx_stream := True\<rparr>, True))"

text \<open>Sending, given how many samples the streamer has room for in each call; with no more room
  the loop goes on for ever.\<close>

fun send_chunks :: "sample list \<Rightarrow> bool \<Rightarrow> nat list \<Rightarrow> tx_chunk list option" where
  "send_chunks [] first rooms = Some []"
| "send_chunks (s # ss) first [] = None"
| "send_chunks (s # ss) first (room # rooms) =
    (let sent = min room (length (s # ss)) in
     map_option (Cons \<lparr>chunk_samples = take sent (s # ss), start_of_burst = first, end_of_burst = True\<rparr>)
       (send_chunks (drop sent (s # ss)) False rooms))"

definition radio_send :: "radio \<Rightarrow> sample list \<Rightarrow> nat list \<Rightarrow> radio res" where
  "radio_send r samples rooms =
    (if \<not> has_uhd r \<or> \<not> tx_stream r then Inl Runtime_Error
     else
       (case send_chunks samples True rooms of
          None \<Rightarrow> Inl Diverges
        | Some chunks \<Rightarrow> Inr (r\<lparr>tx_chunks := tx_chunks r @ chunks\<rparr>)))"

text \<open>Receiving a fixed number of samples; each call of the driver gives some and a code.\<close>

datatype rx_code = Code_None | Code_Timeout | Code_Overflow | Code_Other

fun recv_loop :: "nat \<Rightarrow> sample list \<Rightarrow> (sample list \<times> rx_code) list \<Rightarrow> sample list res" where
  "recv_loop missing buffer answers =
    (if missing = 0 then Inr buffer
     else
       (case answers of
          [] \<Rightarrow> Inl Diverges
        | (given, code) # later \<Rightarrow>
            (let received = take missing given in
             if code = Code_Timeout then recv_loop missing buffer later
             else if code \<noteq> Code_None \<and> code \<noteq> Code_Overflow then Inl Runtime_Error
             else recv_loop (missing - length received) (buffer @ received) later)))"

declare recv_loop.simps [simp del]

definition radio_recv :: "radio \<Rightarrow> nat \<Rightarrow> (sample list \<times> rx_code) list \<Rightarrow> sample list res" where
  "radio_recv r num_samples answers =
    (if \<not> has_uhd r \<or> \<not> rx_stream r then Inl Runtime_Error else recv_loop num_samples [] answers)"

definition start_rx_stream :: "radio \<Rightarrow> radio res" where
  "start_rx_stream r =
    (if \<not> has_uhd r \<or> \<not> rx_stream r then Inl Runtime_Error else Inr (r\<lparr>rx_calls := rx_calls r @ [Start_Continuous]\<rparr>))"

definition stop_rx_stream :: "radio \<Rightarrow> radio res" where
  "stop_rx_stream r =
    (if \<not> has_uhd r \<or> \<not> rx_stream r then Inl Runtime_Error else Inr (r\<lparr>rx_calls := rx_calls r @ [Stop_Continuous]\<rparr>))"

section \<open>What reaches the driver\<close>

definition on_antenna :: "tx_chunk list \<Rightarrow> sample list" where
  "on_antenna chunks = concat (map chunk_samples chunks)"

lemma on_antenna_append [simp]: "on_antenna (xs @ ys) = on_antenna xs @ on_antenna ys" "on_antenna [] = []"
  by (simp_all add: on_antenna_def)

lemma send_chunks_samples:
  "send_chunks samples first rooms = Some chunks \<Longrightarrow> on_antenna chunks = samples
    \<and> (\<forall>i < length chunks. start_of_burst (chunks ! i) \<longleftrightarrow> first \<and> i = 0)"
proof (induction samples first rooms arbitrary: chunks rule: send_chunks.induct)
  case (3 s ss first room rooms)
  let ?n = "min room (length (s # ss))"
  obtain later where later: "send_chunks (drop ?n (s # ss)) False rooms = Some later"
    "chunks = \<lparr>chunk_samples = take ?n (s # ss), start_of_burst = first, end_of_burst = True\<rparr> # later"
    using "3.prems" by (auto simp: Let_def)
  show ?case using "3.IH" [OF refl later(1)] later(2) by (auto simp: on_antenna_def nth_Cons split: nat.split)
qed (simp_all add: on_antenna_def)

lemma send_chunks_enough:
  "length samples \<le> length (filter (\<lambda>n. 0 < n) rooms) \<Longrightarrow> \<exists>chunks. send_chunks samples first rooms = Some chunks"
proof (induction samples first rooms rule: send_chunks.induct)
  case (3 s ss first room rooms)
  let ?n = "min room (length (s # ss))"
  have "length (drop ?n (s # ss)) \<le> length (filter (\<lambda>n. 0 < n) rooms)" using 3(2) by (cases "room = 0") auto
  then obtain later where "send_chunks (drop ?n (s # ss)) False rooms = Some later" using 3(1) by blast
  then show ?case by (simp add: Let_def)
qed simp_all

end
