(* ===== verification/Modem_Threads.thy ===== *)
theory Modem_Threads
  imports Modem Link Radio Spsc
begin

text \<open>
  The transmit and the receive thread of \<^verbatim>\<open>src/main.cpp\<close>. A payload taken from the queue
  becomes one burst on the radio; the samples from the radio are collected and decoded in batches.
  The pulse shaping, the multiplication of a sample by the ramp's gain and the receiver's decoder,
  which may fail, are parameters; \<open>Pipeline\<close> has the real ones.
\<close>

section \<open>Transmit thread\<close>

definition LEAD_SAMPLES :: nat where "LEAD_SAMPLES = 4096"

text \<open>The product of two \<open>int\<close> values overflows outside 32 bits; the rest is converted to 64
  bits without sign.\<close>

definition ramp_samples :: "modem_config \<Rightarrow> nat res" where
  "ramp_samples c =
    (let n = ramp_symbols c * samples_per_symbol c in
     if n < - (2 ^ 31) \<or> 2 ^ 31 \<le> n then Inl Undefined_Behaviour else Inr (nat (n mod 2 ^ 64)))"

text \<open>\<open>scale i n s\<close> is the sample times \<open>i / n\<close>.\<close>

definition apply_ramp :: "(nat \<Rightarrow> nat \<Rightarrow> sample \<Rightarrow> sample) \<Rightarrow> nat \<Rightarrow> sample list \<Rightarrow> sample list" where
  "apply_ramp scale n samples =
    (if 0 < n \<and> 2 * n mod 2 ^ 64 < length samples then
       let up = map (\<lambda>i. scale i n (samples ! i)) [0 ..< n];
           samples = up @ drop n samples;
           start = length samples - n;
           down = map (\<lambda>i. scale (n - i) n (samples ! (start + i))) [0 ..< n]
       in take start samples @ down
     else samples)"

definition pad_burst :: "sample list \<Rightarrow> sample list" where
  "pad_burst samples =
    (let silence = replicate LEAD_SAMPLES (Finite 0, Finite 0) in silence @ samples @ silence)"

record tx_thread =
  tx_encoder :: encoder
  tx_queue :: "bytes spsc"
  tx_radio :: radio
  tx_ramp :: nat
  tx_popped :: "bytes list"

definition tx_round ::
  "(symbol list \<Rightarrow> sample list) \<Rightarrow> (nat \<Rightarrow> nat \<Rightarrow> sample \<Rightarrow> sample) \<Rightarrow> tx_thread \<Rightarrow> nat list \<Rightarrow> tx_thread res" where
  "tx_round shape scale t rooms =
    rbind (try_pop (tx_queue t)) (\<lambda>(r, q).
    case r of
      None \<Rightarrow> Inr (t\<lparr>tx_queue := q\<rparr>)
    | Some data \<Rightarrow>
        rbind (encode shape (tx_encoder t) data) (\<lambda>(samples, e).
        let padded = pad_burst (apply_ramp scale (tx_ramp t) samples);
            t = t\<lparr>tx_queue := q, tx_encoder := e, tx_popped := tx_popped t @ [data]\<rparr>
        in case radio_send (tx_radio t) padded rooms of
             Inl Runtime_Error \<Rightarrow> Inr t
           | Inl e \<Rightarrow> Inl e
           | Inr r \<Rightarrow> Inr (t\<lparr>tx_radio := r\<rparr>)))"

fun tx_thread_run ::
  "(symbol list \<Rightarrow> sample list) \<Rightarrow> (nat \<Rightarrow> nat \<Rightarrow> sample \<Rightarrow> sample) \<Rightarrow> tx_thread \<Rightarrow> (bytes list \<times> nat list) list \<Rightarrow> tx_thread res" where
  "tx_thread_run shape scale t [] = Inr t"
| "tx_thread_run shape scale t ((pushes, rooms) # rounds) =
     rbind (push_all (tx_queue t) pushes) (\<lambda>q.
     rbind (tx_round shape scale (t\<lparr>tx_queue := q\<rparr>) rooms) (\<lambda>t. tx_thread_run shape scale t rounds))"

section \<open>Receive thread\<close>

definition RX_BATCH_SIZE :: nat where "RX_BATCH_SIZE = 4096"
definition MIN_DECODE_SAMPLES :: nat where "MIN_DECODE_SAMPLES = 16384"
definition MAX_BUFFER_SIZE :: nat where "MAX_BUFFER_SIZE = 262144"

record 'd rx_thread =
  rx_decoder :: 'd
  rx_queue :: "bytes spsc"
  rx_samples :: "sample list"        \<comment> \<open>\<open>rx_buffer\<close>\<close>
  samples_since_last_decode :: nat
  rx_offered :: "(bytes \<times> bool) list"
  rx_attempts :: "sample list list"  \<comment> \<open>what \<open>decode\<close> was called with\<close>
  rx_heard :: "sample list"          \<comment> \<open>everything received since the last payload\<close>

definition trim :: "sample list \<Rightarrow> sample list" where
  "trim buf = (if MAX_BUFFER_SIZE < length buf then drop (length buf - MAX_BUFFER_SIZE div 2) buf else buf)"

text \<open>
  One round, given what \<open>recv\<close> returned; \<open>None\<close> is its exception. The decoder is given by its
  two operations on a state of its own; what \<open>decode\<close> throws, or undefined behaviour in it, ends the
  thread. The whole receiver takes its place in theory \<open>Pipeline\<close>.
\<close>

definition rx_round ::
  "('d \<Rightarrow> 'd) \<Rightarrow> ('d \<Rightarrow> sample list \<Rightarrow> (bytes option \<times> 'd) res)
    \<Rightarrow> 'd rx_thread \<Rightarrow> sample list option \<Rightarrow> 'd rx_thread res" where
  "rx_round reset decode t heard =
    (case heard of
       None \<Rightarrow> Inr t
     | Some samples \<Rightarrow>
         if samples = [] then Inr t
         else
           let t = t\<lparr>rx_samples := rx_samples t @ samples, rx_heard := rx_heard t @ samples,
                     samples_since_last_decode := samples_since_last_decode t + length samples\<rparr>
           in if samples_since_last_decode t < MIN_DECODE_SAMPLES then Inr t
              else
                rbind (decode (reset (rx_decoder t)) (rx_samples t)) (\<lambda>(decoded, dec).
                let t = t\<lparr>rx_decoder := dec, samples_since_last_decode := 0, rx_attempts := rx_attempts t @ [rx_samples t]\<rparr>
                in if decoded \<noteq> None \<and> decoded \<noteq> Some [] then
                     rbind (try_push (rx_queue t) (the decoded)) (\<lambda>(pushed, q).
                     Inr (t\<lparr>rx_queue := q, rx_offered := rx_offered t @ [(the decoded, pushed)], rx_samples := [], rx_heard := []\<rparr>))
                   else Inr (t\<lparr>rx_samples := trim (rx_samples t)\<rparr>)))"

text \<open>Before each round the output thread may have taken payloads from the queue.\<close>

fun rx_thread_run ::
  "('d \<Rightarrow> 'd) \<Rightarrow> ('d \<Rightarrow> sample list \<Rightarrow> (bytes option \<times> 'd) res)
    \<Rightarrow> 'd rx_thread \<Rightarrow> (bytes spsc \<times> sample list option) list \<Rightarrow> 'd rx_thread res" where
  "rx_thread_run reset decode t [] = Inr t"
| "rx_thread_run reset decode t ((q, heard) # rounds) =
     rbind (rx_round reset decode (t\<lparr>rx_queue := q\<rparr>) heard) (\<lambda>t. rx_thread_run reset decode t rounds)"

section \<open>Every payload becomes a burst\<close>

text \<open>The burst on the air: the gain rises over the first \<open>n\<close> samples from \<open>0 / n\<close>, falls over the last
  from \<open>n / n\<close>, and 4096 silent samples precede and follow.\<close>

definition tapered :: "(nat \<Rightarrow> nat \<Rightarrow> sample \<Rightarrow> sample) \<Rightarrow> nat \<Rightarrow> sample list \<Rightarrow> sample list" where
  "tapered scale n ss =
    (if 0 < n \<and> 2 * n < length ss
     then map (\<lambda>i. if i < n then scale i n (ss ! i)
                   else if length ss - n \<le> i then scale (length ss - i) n (ss ! i) else ss ! i) [0 ..< length ss]
     else ss)"

definition burst_of :: "(nat \<Rightarrow> nat \<Rightarrow> sample \<Rightarrow> sample) \<Rightarrow> nat \<Rightarrow> sample list \<Rightarrow> sample list" where
  "burst_of scale n ss = replicate 4096 (Finite 0, Finite 0) @ tapered scale n ss @ replicate 4096 (Finite 0, Finite 0)"

lemma apply_ramp_tapers: "n < 2 ^ 31 \<Longrightarrow> apply_ramp scale n ss = tapered scale n ss"
  by (auto simp: apply_ramp_def tapered_def Let_def nth_append intro!: nth_equalityI)

lemma padded_burst: "n < 2 ^ 31 \<Longrightarrow> pad_burst (apply_ramp scale n ss) = burst_of scale n ss"
  by (simp add: pad_burst_def burst_of_def apply_ramp_tapers LEAD_SAMPLES_def Let_def)

text \<open>The bursts of a sequence of payloads.\<close>

fun bursts :: "(symbol list \<Rightarrow> sample list) \<Rightarrow> (nat \<Rightarrow> nat \<Rightarrow> sample \<Rightarrow> sample) \<Rightarrow> nat \<Rightarrow> encoder \<Rightarrow> bytes list \<Rightarrow> sample list list" where
  "bursts shape scale ramp e [] = []"
| "bursts shape scale ramp e (data # payloads) =
     (case encode_symbols e data of
        Inl _ \<Rightarrow> []
      | Inr (symbols, e') \<Rightarrow>
          burst_of scale ramp (shape symbols) # bursts shape scale ramp e' payloads)"

definition radio_ready :: "radio \<Rightarrow> bool" where
  "radio_ready r \<longleftrightarrow> has_uhd r \<and> tx_stream r"

text \<open>Where a run ends: with all it popped on the antenna, or in a driver that takes no more.\<close>

definition transmitted ::
  "(symbol list \<Rightarrow> sample list) \<Rightarrow> (nat \<Rightarrow> nat \<Rightarrow> sample \<Rightarrow> sample) \<Rightarrow> tx_thread \<Rightarrow> tx_thread \<Rightarrow> bytes list \<Rightarrow> bytes list \<Rightarrow> bool" where
  "transmitted shape scale t u acc ps \<longleftrightarrow>
    tx_popped u = tx_popped t @ ps \<and> elements (tx_queue t) @ acc = ps @ elements (tx_queue u)
    \<and> on_antenna (tx_chunks (tx_radio u)) = on_antenna (tx_chunks (tx_radio t))
        @ (if radio_ready (tx_radio t) then concat (bursts shape scale (tx_ramp t) (tx_encoder t) ps) else [])
    \<and> length (bursts shape scale (tx_ramp t) (tx_encoder t) ps) = length ps
    \<and> frames_transmitted (enc_diag (tx_encoder u)) = frames_transmitted (enc_diag (tx_encoder t)) + of_nat (length ps)"

lemma encode_ok:
  assumes "encoder_ok e"
  obtains symbols e' where "encode_symbols e data = Inr (symbols, e')" "encoder_ok e'" "enc_config e' = enc_config e"
    "frames_transmitted (enc_diag e') = frames_transmitted (enc_diag e) + 1"
  using encode_burst [OF assms, of data] by blast

lemma radio_send_cases:
  "\<not> radio_ready r \<Longrightarrow> radio_send r ss rooms = Inl Runtime_Error"
  "radio_ready r \<Longrightarrow> radio_send r ss rooms = Inl Diverges \<or>
    (\<exists>r'. radio_send r ss rooms = Inr r' \<and> radio_ready r' \<and> on_antenna (tx_chunks r') = on_antenna (tx_chunks r) @ ss)"
  by (auto simp: radio_send_def radio_ready_def dest: send_chunks_samples split: option.splits)

lemma tx_round_step:
  assumes "encoder_ok (tx_encoder t)" "spsc_inv (tx_queue t)" "tx_ramp t < 2 ^ 31"
  shows "tx_round shape scale t rooms = Inl Diverges \<or>
    (\<exists>u. tx_round shape scale t rooms = Inr u \<and> encoder_ok (tx_encoder u) \<and> spsc_inv (tx_queue u)
      \<and> tx_ramp u = tx_ramp t \<and> radio_ready (tx_radio u) = radio_ready (tx_radio t)
      \<and> (\<forall>ps. bursts shape scale (tx_ramp t) (tx_encoder t) (take 1 (elements (tx_queue t)) @ ps)
            = bursts shape scale (tx_ramp t) (tx_encoder t) (take 1 (elements (tx_queue t))) @ bursts shape scale (tx_ramp t) (tx_encoder u) ps)
      \<and> transmitted shape scale t u [] (take 1 (elements (tx_queue t))))"
proof -
  obtain q where q: "try_pop (tx_queue t) = Inr (if elements (tx_queue t) = [] then None else Some (hd (elements (tx_queue t))), q)"
    "spsc_inv q" "elements q = tl (elements (tx_queue t))" using ring.pop_ok [OF assms(2)] by blast
  show ?thesis
  proof (cases "elements (tx_queue t)")
    case Nil
    then show ?thesis using q assms by (simp add: tx_round_def transmitted_def)
  next
    case (Cons data rest)
    obtain symbols e where e: "encode_symbols (tx_encoder t) data = Inr (symbols, e)" "encoder_ok e"
      "frames_transmitted (enc_diag e) = frames_transmitted (enc_diag (tx_encoder t)) + 1"
      using encode_ok [OF assms(1)] by metis
    let ?b = "burst_of scale (tx_ramp t) (shape symbols)"
    show ?thesis
    proof (cases "radio_ready (tx_radio t)")
      case False
      then show ?thesis
        using q Cons e radio_send_cases(1) [OF False, of ?b rooms]
        by (simp add: tx_round_def encode_def transmitted_def padded_burst [OF assms(3)] Let_def)
    next
      case True
      then show ?thesis
        using q Cons e radio_send_cases(2) [OF True, of ?b rooms]
        by (auto simp add: tx_round_def encode_def transmitted_def padded_burst [OF assms(3)] Let_def)
    qed
  qed
qed

lemma transmitted_trans:
  assumes "transmitted shape scale t v acc p" "transmitted shape scale v u acc' ps" "tx_ramp v = tx_ramp t"
    and "radio_ready (tx_radio v) = radio_ready (tx_radio t)"
    and "bursts shape scale (tx_ramp t) (tx_encoder t) (p @ ps)
      = bursts shape scale (tx_ramp t) (tx_encoder t) p @ bursts shape scale (tx_ramp t) (tx_encoder v) ps"
  shows "transmitted shape scale t u (acc @ acc') (p @ ps)"
proof -
  have "elements (tx_queue t) @ acc @ acc' = (p @ ps) @ elements (tx_queue u)"
    using assms(1,2) unfolding transmitted_def by (metis append.assoc)
  then show ?thesis using assms by (simp add: transmitted_def)
qed

lemma transmitted_queue:
  "transmitted shape scale (t\<lparr>tx_queue := q\<rparr>) u acc' ps \<Longrightarrow> elements q = elements (tx_queue t) @ acc
    \<Longrightarrow> transmitted shape scale t u (acc @ acc') ps"
  by (simp add: transmitted_def)

lemma tx_run_transmits:
  "encoder_ok (tx_encoder t) \<Longrightarrow> spsc_inv (tx_queue t) \<Longrightarrow> tx_ramp t < 2 ^ 31 \<Longrightarrow>
    tx_thread_run shape scale t rounds = Inl Diverges \<or>
    (\<exists>u acc ps. tx_thread_run shape scale t rounds = Inr u \<and> transmitted shape scale t u acc ps
      \<and> subseq acc (concat (map fst rounds)))"
proof (induction rounds arbitrary: t)
  case Nil
  have "transmitted shape scale t t [] []" by (simp add: transmitted_def)
  then show ?case by auto
next
  case (Cons r rounds)
  obtain pushes rooms where r: "r = (pushes, rooms)" by force
  obtain q where q: "push_all (tx_queue t) pushes = Inr q" using push_all_ok [OF Cons.prems(2)] by blast
  obtain acc where acc: "spsc_inv q" "elements q = elements (tx_queue t) @ acc" "subseq acc pushes"
    using push_all_inv [OF q Cons.prems(2)] by blast
  let ?t = "t\<lparr>tx_queue := q\<rparr>" and ?p = "take 1 (elements q)"
  consider (hangs) "tx_round shape scale ?t rooms = Inl Diverges"
    | (goes) v where "tx_round shape scale ?t rooms = Inr v" "encoder_ok (tx_encoder v)" "spsc_inv (tx_queue v)"
      "tx_ramp v = tx_ramp t" "radio_ready (tx_radio v) = radio_ready (tx_radio t)"
      "\<forall>ps. bursts shape scale (tx_ramp t) (tx_encoder t) (?p @ ps)
          = bursts shape scale (tx_ramp t) (tx_encoder t) ?p @ bursts shape scale (tx_ramp t) (tx_encoder v) ps"
      "transmitted shape scale ?t v [] ?p"
    using tx_round_step [of ?t shape scale rooms] Cons.prems(1,3) acc(1) by auto
  then show ?case
  proof cases
    case hangs
    then show ?thesis using q by (simp add: r)
  next
    case goes
    consider "tx_thread_run shape scale v rounds = Inl Diverges"
      | (ok) u acc' ps where "tx_thread_run shape scale v rounds = Inr u" "transmitted shape scale v u acc' ps"
        "subseq acc' (concat (map fst rounds))"
      using Cons.IH [OF goes(2,3)] Cons.prems(3) goes(4) by auto
    then show ?thesis
    proof cases
      case 1
      then show ?thesis using q goes(1) by (simp add: r)
    next
      case ok
      have "transmitted shape scale ?t u ([] @ acc') (?p @ ps)"
        using goes(6) by (intro transmitted_trans [OF goes(7) ok(2)]) (simp_all add: goes(4,5))
      then have "transmitted shape scale t u (acc @ acc') (?p @ ps)"
        unfolding append_Nil by (rule transmitted_queue) (rule acc(2))
      moreover have "subseq (acc @ acc') (concat (map fst (r # rounds)))"
        using acc(3) ok(3) by (simp add: r list_emb_append_mono)
      ultimately show ?thesis using q goes(1) ok(1) by (auto simp: r)
    qed
  qed
qed

text \<open>C30. Every payload becomes exactly one burst: whatever is queued and however the driver takes the
  samples, the thread fails with no exception; it goes on unless the driver takes no more samples, and
  then the antenna has been given, for each payload taken from the queue and in order, 4096 silent
  samples, the shaped symbols of its frame with the gain rising at the start and falling at the end,
  and 4096 silent samples, nothing else. A ramp fits 31 bits, as the process start makes sure.\<close>

theorem tx_thread_transmits:
  assumes "encoder_ok (tx_encoder t)" "spsc_inv (tx_queue t)" "radio_ready (tx_radio t)" "tx_popped t = []"
    and "tx_ramp t < 2 ^ 31"
  shows "tx_thread_run shape scale t rounds = Inl Diverges \<or>
    (\<exists>u acc. tx_thread_run shape scale t rounds = Inr u
      \<and> on_antenna (tx_chunks (tx_radio u)) = on_antenna (tx_chunks (tx_radio t))
          @ concat (bursts shape scale (tx_ramp t) (tx_encoder t) (tx_popped u))
      \<and> length (bursts shape scale (tx_ramp t) (tx_encoder t) (tx_popped u)) = length (tx_popped u)
      \<and> frames_transmitted (enc_diag (tx_encoder u)) = frames_transmitted (enc_diag (tx_encoder t)) + of_nat (length (tx_popped u))
      \<and> tx_popped u @ elements (tx_queue u) = elements (tx_queue t) @ acc \<and> subseq acc (concat (map fst rounds)))"
proof -
  consider "tx_thread_run shape scale t rounds = Inl Diverges"
    | u acc ps where "tx_thread_run shape scale t rounds = Inr u" "transmitted shape scale t u acc ps" "subseq acc (concat (map fst rounds))"
    using tx_run_transmits [OF assms(1,2,5)] by blast
  then show ?thesis
  proof cases
    case 2
    have "tx_popped u = ps" using 2(2) assms(4) by (simp add: transmitted_def)
    then show ?thesis using 2 assms(3) unfolding transmitted_def by (intro disjI2 exI [of _ u] exI [of _ acc]) simp
  qed simp
qed

text \<open>A transmit thread of a modem with the default configuration but without FEC.\<close>

definition sample_tx :: tx_thread where
  "sample_tx = \<lparr>tx_encoder = \<lparr>enc_config = modem_defaults\<lparr>use_fec := False\<rparr>,
       enc_builder = new_builder (make_doubled_preamble (barker modem_defaults)),
       enc_diag = \<lparr>frames_transmitted = 0, symbols_transmitted = 0\<rparr>\<rparr>,
     tx_queue = new_spsc 64 [],
     tx_radio = \<lparr>has_uhd = True, tx_stream = True, rx_stream = True, tx_calls = [], rx_calls = [], tx_chunks = []\<rparr>,
     tx_ramp = 32, tx_popped = []\<rparr>"

lemma send_chunks_roomy: "length ss \<le> room \<Longrightarrow> ss \<noteq> [] \<Longrightarrow>
  send_chunks ss first (room # rooms) = Some [\<lparr>chunk_samples = ss, start_of_burst = first, end_of_burst = True\<rparr>]"
  by (cases ss) (simp_all add: min_absorb2)

lemma sample_tx_ok: "encoder_ok (tx_encoder sample_tx)" "spsc_inv (tx_queue sample_tx)" "radio_ready (tx_radio sample_tx)"
  "tx_popped sample_tx = []" "tx_ramp sample_tx = 32" "tx_chunks (tx_radio sample_tx) = []" "elements (tx_queue sample_tx) = []"
  by (simp_all add: sample_tx_def encoder_ok_def link_config_def modem_defaults_def new_builder_def check_rate_def
      spsc_inv_new radio_ready_def)

lemma sample_tx_round:
  assumes "spsc_inv q" "elements q = [[7]]"
  obtains u where "tx_round (\<lambda>ss. ss) (\<lambda>i n s. s) (sample_tx\<lparr>tx_queue := q\<rparr>) [100000] = Inr u" "tx_popped u = [[7]]"
proof -
  let ?scale = "\<lambda>(i :: nat) (n :: nat) s :: sample. s"
  obtain symbols e where e: "encode_symbols (tx_encoder sample_tx) [7] = Inr (symbols, e)" "length symbols = 198"
    using encode_burst [OF sample_tx_ok(1), of "[7]"]
    by (auto simp: sample_tx_def modem_defaults_def on_air_def bpsk_map_preamble_def make_doubled_preamble_def)
  define padded where "padded = pad_burst (apply_ramp ?scale 32 symbols)"
  have "length padded \<le> 100000" "padded \<noteq> []"
    using e(2) by (auto simp: padded_def pad_burst_def apply_ramp_def LEAD_SAMPLES_def Let_def)
  from send_chunks_roomy [OF this] obtain r where r: "radio_send (tx_radio sample_tx) padded [100000] = Inr r"
    by (simp add: radio_send_def sample_tx_def)
  obtain q' where q': "try_pop q = Inr (Some [7], q')" using ring.pop_ok [OF assms(1)] assms(2) by auto
  show thesis
    using that q' e(1) r sample_tx_ok(4,5) by (simp add: tx_round_def encode_def padded_def [symmetric])
qed

theorem tx_thread_transmits_witness:
  "\<exists>u. tx_thread_run (\<lambda>ss. ss) (\<lambda>i n s. s) sample_tx [([[7]], [100000])] = Inr u
    \<and> on_antenna (tx_chunks (tx_radio u)) = concat (bursts (\<lambda>ss. ss) (\<lambda>i n s. s) 32 (tx_encoder sample_tx) [[7]])
    \<and> length (bursts (\<lambda>ss. ss) (\<lambda>i n s. s) 32 (tx_encoder sample_tx) [[7]]) = 1"
proof -
  let ?shape = "\<lambda>ss :: symbol list. ss" and ?scale = "\<lambda>(i :: nat) (n :: nat) s :: sample. s"
  obtain q where q: "try_push (tx_queue sample_tx) [7] = Inr (True, q)" "spsc_inv q" "elements q = [[7]]"
    using ring.push_ok [OF sample_tx_ok(2), of "[7]"] by (auto simp: sample_tx_def new_spsc_def elements_def queue_size_def)
  obtain u where u: "tx_thread_run ?shape ?scale sample_tx [([[7]], [100000])] = Inr u" "tx_popped u = [[7]]"
    using q(1) by (rule_tac sample_tx_round [OF q(2,3)]) simp
  have "tx_ramp sample_tx < 2 ^ 31" "on_antenna (tx_chunks (tx_radio sample_tx)) = []"
    by (simp_all add: sample_tx_ok on_antenna_def)
  then show ?thesis
    using tx_thread_transmits [OF sample_tx_ok(1-4), of ?shape ?scale "[([[7]], [100000])]"] u sample_tx_ok(5) by auto
qed

section \<open>What the receiver looks at\<close>

text \<open>A call is total when its parts are.\<close>

lemma total_intros:
  "\<exists>y. Inr x = Inr y"
  "\<exists>y. a = Inr y \<Longrightarrow> \<exists>y. b = Inr y \<Longrightarrow> \<exists>y. (if c then a else b) = Inr y"
  "\<exists>y. a = Inr y \<Longrightarrow> (\<And>x. \<exists>y. f x = Inr y) \<Longrightarrow> \<exists>y. (case z of None \<Rightarrow> a | Some x \<Rightarrow> f x) = Inr y"
  "(\<And>u v. \<exists>y. g u v = Inr y) \<Longrightarrow> \<exists>y. (case p of (u, v) \<Rightarrow> g u v) = Inr y"
  by (simp_all split: option.split prod.split)

lemma rbind_total: "\<exists>x. r = Inr x \<Longrightarrow> (\<And>x. \<exists>y. f x = Inr y) \<Longrightarrow> \<exists>y. rbind r f = Inr y"
  by auto

lemma decode_data_symbols_ok: "\<exists>r. decode_data_symbols ss fec diag = Inr r"
  unfolding decode_data_symbols_def Let_def by (intro total_intros rbind_total parse_total)

lemma try_decode_frame_ok:
  "(\<And>n. detect ss = Some n \<Longrightarrow> n \<le> length ss) \<Longrightarrow> \<exists>r. try_decode_frame detect derotate ss p fec diag = Inr r"
  using decode_data_symbols_ok by (auto simp: try_decode_frame_def Let_def not_less split: option.split)

definition rx_inv :: "'d rx_thread \<Rightarrow> bool" where
  "rx_inv t \<longleftrightarrow> suffix (rx_samples t) (rx_heard t) \<and> samples_since_last_decode t < MIN_DECODE_SAMPLES
    \<and> samples_since_last_decode t \<le> length (rx_samples t)
    \<and> length (rx_samples t) \<le> MAX_BUFFER_SIZE + samples_since_last_decode t
    \<and> min (MAX_BUFFER_SIZE div 2) (length (rx_heard t)) \<le> length (rx_samples t)
    \<and> (\<forall>a \<in> set (rx_attempts t). MIN_DECODE_SAMPLES \<le> length a
          \<and> length a < MAX_BUFFER_SIZE + MIN_DECODE_SAMPLES + RX_BATCH_SIZE)"

lemma suffix_trim: "suffix (trim buf) buf"
  by (simp add: trim_def suffix_drop)

lemma length_trim: "length (trim buf) = (if MAX_BUFFER_SIZE < length buf then MAX_BUFFER_SIZE div 2 else length buf)"
  by (simp add: trim_def MAX_BUFFER_SIZE_def)

text \<open>What a failing attempt looked at.\<close>

definition attempt_fails ::
  "('d \<Rightarrow> 'd) \<Rightarrow> ('d \<Rightarrow> sample list \<Rightarrow> (bytes option \<times> 'd) res) \<Rightarrow> cxx_error \<Rightarrow> bool" where
  "attempt_fails reset decode e \<longleftrightarrow> (\<exists>d buf. decode (reset d) buf = Inl e
     \<and> MIN_DECODE_SAMPLES \<le> length buf \<and> length buf < MAX_BUFFER_SIZE + MIN_DECODE_SAMPLES + RX_BATCH_SIZE)"

lemma rx_round_inv:
  assumes "rx_inv t" "spsc_inv (rx_queue t)"
    and "\<And>samples. heard = Some samples \<Longrightarrow> length samples \<le> RX_BATCH_SIZE"
  shows "(\<exists>u. rx_round reset decode t heard = Inr u \<and> rx_inv u)
    \<or> (\<exists>e. rx_round reset decode t heard = Inl e \<and> attempt_fails reset decode e)"
proof (cases "heard = None \<or> heard = Some []")
  case True
  then show ?thesis using assms(1) by (auto simp: rx_round_def)
next
  case False
  then obtain samples where samples: "heard = Some samples" "samples \<noteq> []" "length samples \<le> RX_BATCH_SIZE"
    using assms(3) by auto
  let ?t = "t\<lparr>rx_samples := rx_samples t @ samples, rx_heard := rx_heard t @ samples,
              samples_since_last_decode := samples_since_last_decode t + length samples\<rparr>"
  have suf: "suffix (rx_samples ?t) (rx_heard ?t)" using assms(1) by (auto simp: rx_inv_def suffix_def)
  have len: "samples_since_last_decode ?t \<le> length (rx_samples ?t)"
    "length (rx_samples ?t) \<le> MAX_BUFFER_SIZE + samples_since_last_decode ?t"
    "length (rx_samples ?t) < MAX_BUFFER_SIZE + MIN_DECODE_SAMPLES + RX_BATCH_SIZE"
    "min (MAX_BUFFER_SIZE div 2) (length (rx_heard ?t)) \<le> length (rx_samples ?t)"
    using assms(1) samples(3) by (auto simp: rx_inv_def)
  show ?thesis
  proof (cases "samples_since_last_decode ?t < MIN_DECODE_SAMPLES")
    case True
    then have "rx_round reset decode t heard = Inr ?t" using samples by (simp add: rx_round_def Let_def)
    then show ?thesis using True suf len assms(1) by (auto simp: rx_inv_def)
  next
    case late: False
    then have low: "MIN_DECODE_SAMPLES \<le> length (rx_samples ?t)" using len(1) by simp
    show ?thesis
    proof (cases "decode (reset (rx_decoder t)) (rx_samples ?t)")
      case (Inl e)
      then have "attempt_fails reset decode e" using low len(3) unfolding attempt_fails_def by blast
      then show ?thesis using samples late Inl by (simp add: rx_round_def Let_def)
    next
      case (Inr rd)
      obtain r d where d: "decode (reset (rx_decoder t)) (rx_samples ?t) = Inr (r, d)" using Inr by (cases rd) simp
      let ?u = "?t\<lparr>rx_decoder := d, samples_since_last_decode := 0, rx_attempts := rx_attempts t @ [rx_samples ?t]\<rparr>"
      have att: "\<forall>a \<in> set (rx_attempts ?u). MIN_DECODE_SAMPLES \<le> length a \<and> length a < MAX_BUFFER_SIZE + MIN_DECODE_SAMPLES + RX_BATCH_SIZE"
        using assms(1) len low by (auto simp: rx_inv_def)
      show ?thesis
      proof (cases "r \<noteq> None \<and> r \<noteq> Some []")
        case True
        obtain ok q where q: "try_push (rx_queue t) (the r) = Inr (ok, q)" using ring.push_ok [OF assms(2)] by blast
        have "rx_round reset decode t heard
            = Inr (?u\<lparr>rx_queue := q, rx_offered := rx_offered t @ [(the r, ok)], rx_samples := [], rx_heard := []\<rparr>)"
          using samples late d True q by (simp add: rx_round_def Let_def)
        then show ?thesis using att by (simp add: rx_inv_def MIN_DECODE_SAMPLES_def)
      next
        case False
        have "rx_round reset decode t heard = Inr (?u\<lparr>rx_samples := trim (rx_samples ?u)\<rparr>)"
          using samples late d False by (auto simp: rx_round_def Let_def)
        moreover have "rx_inv (?u\<lparr>rx_samples := trim (rx_samples ?u)\<rparr>)"
          using att suf len suffix_order.trans [OF suffix_trim suf]
          by (simp add: rx_inv_def length_trim MIN_DECODE_SAMPLES_def MAX_BUFFER_SIZE_def)
        ultimately show ?thesis by blast
      qed
    qed
  qed
qed

lemma rx_run_inv:
  "rx_inv t \<Longrightarrow> (\<forall>(q, samples) \<in> set rounds. spsc_inv q \<and> (\<forall>ss. samples = Some ss \<longrightarrow> length ss \<le> RX_BATCH_SIZE)) \<Longrightarrow>
    (\<exists>u. rx_thread_run reset decode t rounds = Inr u \<and> rx_inv u)
    \<or> (\<exists>e. rx_thread_run reset decode t rounds = Inl e \<and> attempt_fails reset decode e)"
proof (induction rounds arbitrary: t)
  case (Cons r rounds)
  obtain q samples where r: "r = (q, samples)" by force
  have "rx_inv (t\<lparr>rx_queue := q\<rparr>)" "spsc_inv (rx_queue (t\<lparr>rx_queue := q\<rparr>))"
    "\<And>ss. samples = Some ss \<Longrightarrow> length ss \<le> RX_BATCH_SIZE"
    using Cons.prems by (auto simp: r rx_inv_def)
  from rx_round_inv [OF this] consider
    (goes) v where "rx_round reset decode (t\<lparr>rx_queue := q\<rparr>) samples = Inr v" "rx_inv v"
    | (fails) e where "rx_round reset decode (t\<lparr>rx_queue := q\<rparr>) samples = Inl e" "attempt_fails reset decode e" by blast
  then show ?case
  proof cases
    case goes
    then show ?thesis using Cons.IH [of v] Cons.prems(2) by (simp add: r)
  next
    case fails
    then show ?thesis by (simp add: r)
  qed
qed simp

definition new_rx_thread :: "'d \<Rightarrow> 'd rx_thread" where
  "new_rx_thread d = \<lparr>rx_decoder = d, rx_queue = new_spsc 64 [], rx_samples = [], samples_since_last_decode = 0,
     rx_offered = [], rx_attempts = [], rx_heard = []\<rparr>"

text \<open>C31. The receive thread forgets nothing recent and does not grow: whatever samples arrive and
  whatever the decoder makes of them, the thread fails only by a failure of the decoder on a buffer
  of 16384 to 282623 samples after a reset; otherwise its buffer is the newest part of what it
  received since the last payload, at least the last 131072 samples of it and fewer than 278528,
  and every attempt to decode looked at between 16384 and 282623 samples.\<close>

theorem rx_thread_window:
  assumes "\<forall>(q, samples) \<in> set rounds. spsc_inv q \<and> (\<forall>ss. samples = Some ss \<longrightarrow> length ss \<le> 4096)"
  shows "(\<exists>u. rx_thread_run reset decode (new_rx_thread d) rounds = Inr u
      \<and> suffix (rx_samples u) (rx_heard u) \<and> min 131072 (length (rx_heard u)) \<le> length (rx_samples u)
      \<and> length (rx_samples u) < 278528 \<and> (\<forall>a \<in> set (rx_attempts u). 16384 \<le> length a \<and> length a < 282624))
    \<or> (\<exists>e d' buf. rx_thread_run reset decode (new_rx_thread d) rounds = Inl e \<and> decode (reset d') buf = Inl e
      \<and> 16384 \<le> length buf \<and> length buf < 282624)"
proof -
  have "rx_inv (new_rx_thread d)" by (simp add: rx_inv_def new_rx_thread_def MIN_DECODE_SAMPLES_def)
  then consider
    (goes) u where "rx_thread_run reset decode (new_rx_thread d) rounds = Inr u" "rx_inv u"
    | (fails) e where "rx_thread_run reset decode (new_rx_thread d) rounds = Inl e" "attempt_fails reset decode e"
    using rx_run_inv [of "new_rx_thread d" rounds reset decode] assms by (auto simp: RX_BATCH_SIZE_def)
  then show ?thesis
  proof cases
    case goes
    then show ?thesis
      by (intro disjI1 exI [of _ u]) (simp add: rx_inv_def MIN_DECODE_SAMPLES_def MAX_BUFFER_SIZE_def RX_BATCH_SIZE_def)
  next
    case fails
    then show ?thesis
      by (auto simp: attempt_fails_def MIN_DECODE_SAMPLES_def MAX_BUFFER_SIZE_def RX_BATCH_SIZE_def)
  qed
qed

text \<open>A decoder that finds a byte in every buffer, and one that always fails.\<close>

theorem rx_thread_window_witness:
  "(\<exists>u. rx_thread_run (\<lambda>d. d) (\<lambda>d _. Inr (Some [7], d)) (new_rx_thread ())
      (replicate 5 (new_spsc 64 [], Some (replicate 4096 (Finite 0, Finite 0)))) = Inr u \<and> length (rx_samples u) < 278528)
   \<and> ((\<exists>u. rx_thread_run (\<lambda>d. d) (\<lambda>d _. Inl Undefined_Behaviour) (new_rx_thread ())
      (replicate 5 (new_spsc 64 [], Some (replicate 4096 (Finite 0, Finite 0)))) = Inr u \<and> length (rx_samples u) < 278528)
     \<or> rx_thread_run (\<lambda>d. d) (\<lambda>d _. Inl Undefined_Behaviour) (new_rx_thread ())
      (replicate 5 (new_spsc 64 [], Some (replicate 4096 (Finite 0, Finite 0)))) = Inl Undefined_Behaviour)"
proof -
  have batch: "\<forall>(q, samples) \<in> set (replicate k (q0, Some b)). spsc_inv q \<and> (\<forall>ss. samples = Some ss \<longrightarrow> length ss \<le> 4096)"
    if "spsc_inv q0" "length b \<le> 4096" for k and q0 :: "bytes spsc" and b :: "sample list"
    using that by auto
  have inv: "spsc_inv (new_spsc 64 [] :: bytes spsc)" by (rule spsc_inv_new) simp
  have "length (replicate 4096 (Finite 0, Finite 0) :: sample list) \<le> 4096" by (simp only: length_replicate order_refl)
  note w = rx_thread_window [OF batch [OF inv this]]
  show ?thesis
    using w [of "\<lambda>d. d" "\<lambda>d _. Inr (Some [7], d)" "()" 5] w [of "\<lambda>d. d" "\<lambda>d _. Inl Undefined_Behaviour" "()" 5]
    by (simp del: replicate.simps rx_thread_run.simps) blast
qed

text \<open>But a second burst that shares the buffer with a decoded one is lost: one attempt gives one
  payload, and the whole buffer goes.\<close>

lemma rx_drops_second_burst:
  assumes "decode (reset (rx_decoder t)) (rx_samples t @ samples) = Inr (Some data, d)"
    and "samples \<noteq> []" "data \<noteq> []" "MIN_DECODE_SAMPLES \<le> samples_since_last_decode t + length samples" "spsc_inv (rx_queue t)"
  shows "\<exists>u pushed. rx_round reset decode t (Some samples) = Inr u \<and> rx_samples u = []
    \<and> rx_offered u = rx_offered t @ [(data, pushed)]"
proof -
  obtain ok q where "try_push (rx_queue t) data = Inr (ok, q)" using ring.push_ok [OF assms(5)] by blast
  then show ?thesis using assms by (auto simp: rx_round_def Let_def not_less)
qed

end
