(* ===== verification/Json.thy ===== *)
theory Json
  imports Prelude Ieee
begin

text \<open>
  The JSON library the two programs use (nlohmann/json, not part of the repository) as a parameter:
  the operations called on it and what its documentation says of them. A document is a \<open>'j\<close>, the
  text of a file a \<open>'t\<close>.
\<close>

section \<open>Operations\<close>

record ('j, 't) json_lib =
  j_parse :: "'t \<Rightarrow> 'j option"               \<comment> \<open>\<open>None\<close> is a \<open>parse_error\<close>\<close>
  j_dump :: "nat \<Rightarrow> 'j \<Rightarrow> 't option"         \<comment> \<open>with an indent; \<open>None\<close> is an exception\<close>
  j_empty :: 'j
  j_set :: "'j \<Rightarrow> string \<Rightarrow> 'j \<Rightarrow> 'j"        \<comment> \<open>\<open>j[key] = value\<close>\<close>
  j_contains :: "'j \<Rightarrow> string \<Rightarrow> bool"
  j_at :: "'j \<Rightarrow> string \<Rightarrow> 'j"               \<comment> \<open>\<open>j[key]\<close> of a key that is there\<close>
  is_object :: "'j \<Rightarrow> bool"
  is_number :: "'j \<Rightarrow> bool"
  is_number_integer :: "'j \<Rightarrow> bool"
  is_string :: "'j \<Rightarrow> bool"
  is_boolean :: "'j \<Rightarrow> bool"
  is_array :: "'j \<Rightarrow> bool"
  get_double :: "'j \<Rightarrow> ieee option"          \<comment> \<open>\<open>None\<close> is a \<open>type_error\<close>\<close>
  get_int :: "'j \<Rightarrow> int option"
  get_u8 :: "'j \<Rightarrow> u8 option"
  get_u16 :: "'j \<Rightarrow> u16 option"
  get_u32 :: "'j \<Rightarrow> u32 option"
  get_u64 :: "'j \<Rightarrow> u64 option"
  get_string :: "'j \<Rightarrow> string option"
  get_bool :: "'j \<Rightarrow> bool option"
  get_bytes :: "'j \<Rightarrow> bytes option"
  of_double :: "ieee \<Rightarrow> 'j"
  of_signed :: "int \<Rightarrow> 'j"
  of_unsigned :: "nat \<Rightarrow> 'j"
  of_text :: "string \<Rightarrow> 'j"
  of_flag :: "bool \<Rightarrow> 'j"
  of_bytes :: "bytes \<Rightarrow> 'j"

section \<open>Documented behaviour\<close>

definition ordinary :: "ieee \<Rightarrow> bool" where
  "ordinary x = (case x of Finite _ \<Rightarrow> True | Minus_Zero \<Rightarrow> True | _ \<Rightarrow> False)"

text \<open>\<open>utf8\<close> says which strings can be dumped, \<open>clean\<close> which documents: those without
  NaNs, infinities and other strings.\<close>

definition json_objects :: "('j, 't) json_lib \<Rightarrow> bool" where
  "json_objects L \<longleftrightarrow>
    (\<forall>k. \<not> j_contains L (j_empty L) k)
    \<and> (\<forall>j k v. is_object L (j_set L j k v))
    \<and> (\<forall>j k v k'. j_contains L (j_set L j k v) k' \<longleftrightarrow> k' = k \<or> j_contains L j k')
    \<and> (\<forall>j k v k'. j_at L (j_set L j k v) k' = (if k' = k then v else j_at L j k'))"

definition json_values :: "('j, 't) json_lib \<Rightarrow> bool" where
  "json_values L \<longleftrightarrow>
    (\<forall>x. is_number L (of_double L x) \<and> get_double L (of_double L x) = Some x)
    \<and> (\<forall>n. is_number_integer L (of_signed L n))
    \<and> (\<forall>n. - (2 ^ 31) \<le> n \<and> n < 2 ^ 31 \<longrightarrow> get_int L (of_signed L n) = Some n)
    \<and> (\<forall>n. is_number_integer L (of_unsigned L n))
    \<and> (\<forall>n < 2 ^ 64. get_u8 L (of_unsigned L n) = Some (of_nat n) \<and> get_u16 L (of_unsigned L n) = Some (of_nat n)
         \<and> get_u32 L (of_unsigned L n) = Some (of_nat n) \<and> get_u64 L (of_unsigned L n) = Some (of_nat n))
    \<and> (\<forall>s. is_string L (of_text L s) \<and> get_string L (of_text L s) = Some s)
    \<and> (\<forall>b. is_boolean L (of_flag L b) \<and> get_bool L (of_flag L b) = Some b)
    \<and> (\<forall>bs. is_array L (of_bytes L bs) \<and> get_bytes L (of_bytes L bs) = Some bs)"

definition json_text :: "('j, 't) json_lib \<Rightarrow> (string \<Rightarrow> bool) \<Rightarrow> ('j \<Rightarrow> bool) \<Rightarrow> bool" where
  "json_text L utf8 clean \<longleftrightarrow>
    (\<forall>j n. clean j \<longrightarrow> (\<exists>t. j_dump L n j = Some t \<and> j_parse L t = Some j))
    \<and> clean (j_empty L)
    \<and> (\<forall>j k v. clean j \<longrightarrow> clean v \<longrightarrow> utf8 k \<longrightarrow> clean (j_set L j k v))
    \<and> (\<forall>x. ordinary x \<longrightarrow> clean (of_double L x))
    \<and> (\<forall>n. clean (of_signed L n)) \<and> (\<forall>n. clean (of_unsigned L n)) \<and> (\<forall>b. clean (of_flag L b))
    \<and> (\<forall>bs. clean (of_bytes L bs)) \<and> (\<forall>s. utf8 s \<longrightarrow> clean (of_text L s))
    \<and> (\<forall>s. (\<forall>c \<in> set s. of_char c < (128 :: nat)) \<longrightarrow> utf8 s)"

definition json_ok :: "('j, 't) json_lib \<Rightarrow> (string \<Rightarrow> bool) \<Rightarrow> ('j \<Rightarrow> bool) \<Rightarrow> bool" where
  "json_ok L utf8 clean \<longleftrightarrow> json_objects L \<and> json_values L \<and> json_text L utf8 clean"

section \<open>Reading and writing members\<close>

text \<open>Why a configuration is not loaded: a thrown \<open>invalid_argument\<close> with the field it names, or
  an exception of the library.\<close>

datatype load_error =
    Cannot_Open | Not_Json | Not_An_Object | Missing string | Wrong_Type string | Invalid string | Undefined_Conversion | Library_Exception

text \<open>A field that must be there, with its type check; one that may be left out; one that is taken
  as it is.\<close>

definition from_get :: "'a option \<Rightarrow> load_error + 'a" where
  "from_get r = (case r of None \<Rightarrow> Inl Library_Exception | Some x \<Rightarrow> Inr x)"

definition typed :: "('j, 't) json_lib \<Rightarrow> 'j \<Rightarrow> string \<Rightarrow> ('j \<Rightarrow> bool) \<Rightarrow> ('j \<Rightarrow> 'a option) \<Rightarrow> load_error + 'a" where
  "typed L j field ok get =
    (if \<not> ok (j_at L j field) then Inl (Wrong_Type field) else from_get (get (j_at L j field)))"

definition required ::
  "('j, 't) json_lib \<Rightarrow> 'j \<Rightarrow> string \<Rightarrow> ('j \<Rightarrow> bool) \<Rightarrow> ('j \<Rightarrow> 'a option) \<Rightarrow> ('a \<Rightarrow> 'c \<Rightarrow> 'c) \<Rightarrow> 'c \<Rightarrow> load_error + 'c" where
  "required L j field ok get upd c =
    (if \<not> j_contains L j field then Inl (Missing field)
     else rbind (typed L j field ok get) (\<lambda>x. Inr (upd x c)))"

definition optional ::
  "('j, 't) json_lib \<Rightarrow> 'j \<Rightarrow> string \<Rightarrow> ('j \<Rightarrow> bool) \<Rightarrow> ('j \<Rightarrow> 'a option) \<Rightarrow> ('a \<Rightarrow> 'c \<Rightarrow> 'c) \<Rightarrow> 'c \<Rightarrow> load_error + 'c" where
  "optional L j field ok get upd c =
    (if j_contains L j field then rbind (typed L j field ok get) (\<lambda>x. Inr (upd x c)) else Inr c)"

definition taken ::
  "('j, 't) json_lib \<Rightarrow> 'j \<Rightarrow> string \<Rightarrow> ('j \<Rightarrow> 'a option) \<Rightarrow> ('a \<Rightarrow> 'c \<Rightarrow> 'c) \<Rightarrow> 'c \<Rightarrow> load_error + 'c" where
  "taken L j field get upd = optional L j field (\<lambda>_. True) get upd"

text \<open>Fields one after the other, up to the first error.\<close>

definition in_turn :: "('c \<Rightarrow> load_error + 'c) list \<Rightarrow> 'c \<Rightarrow> load_error + 'c" where
  "in_turn readers c = foldl rbind (Inr c) readers"

definition object_of :: "('j, 't) json_lib \<Rightarrow> (string \<times> 'j) list \<Rightarrow> 'j" where
  "object_of L members = foldl (\<lambda>j (k, v). j_set L j k v) (j_empty L) members"

lemma in_turn_simps [simp]:
  "in_turn [] c = Inr c" "f c = Inr d \<Longrightarrow> in_turn (f # fs) c = in_turn fs d"
  by (simp_all add: in_turn_def)

lemma object_of_members:
  assumes "json_objects L"
  shows "j_contains L (object_of L members) k \<longleftrightarrow> k \<in> fst ` set members"
    "k \<in> fst ` set members \<Longrightarrow> j_at L (object_of L members) k = the (map_of (rev members) k)"
proof -
  have "(j_contains L (object_of L members) k \<longleftrightarrow> k \<in> fst ` set members)
    \<and> (k \<in> fst ` set members \<longrightarrow> j_at L (object_of L members) k = the (map_of (rev members) k))"
  proof (induction members rule: rev_induct)
    case Nil
    then show ?case using assms by (simp add: json_objects_def object_of_def)
  next
    case (snoc x xs)
    have "object_of L (xs @ [x]) = j_set L (object_of L xs) (fst x) (snd x)"
      by (simp add: object_of_def split_beta)
    then show ?case using snoc assms by (cases x) (auto simp: json_objects_def)
  qed
  then show "j_contains L (object_of L members) k \<longleftrightarrow> k \<in> fst ` set members"
    "k \<in> fst ` set members \<Longrightarrow> j_at L (object_of L members) k = the (map_of (rev members) k)" by simp_all
qed

lemma object_of_is_object:
  assumes "json_objects L" "members \<noteq> []"
  shows "is_object L (object_of L members)"
  using assms by (cases members rule: rev_cases) (auto simp: object_of_def json_objects_def split_beta)

lemma object_of_clean:
  assumes "json_text L utf8 clean"
  shows "(\<forall>(k, v) \<in> set members. utf8 k \<and> clean v) \<Longrightarrow> clean (object_of L members)"
proof (induction members rule: rev_induct)
  case (snoc x xs)
  have "object_of L (xs @ [x]) = j_set L (object_of L xs) (fst x) (snd x)" by (simp add: object_of_def split_beta)
  then show ?case using snoc assms by (cases x) (auto simp: json_text_def)
qed (use assms in \<open>simp add: object_of_def json_text_def\<close>)

lemma ascii_object_clean:
  assumes "json_text L utf8 clean" "\<forall>k \<in> fst ` set members. \<forall>c \<in> set k. of_char c < (128 :: nat)"
    and "\<forall>v \<in> snd ` set members. clean v"
  shows "clean (object_of L members)"
proof (rule object_of_clean [OF assms(1)])
  have "utf8 s" if "\<forall>c \<in> set s. of_char c < (128 :: nat)" for s using that assms(1) by (simp add: json_text_def)
  then show "\<forall>(k, v) \<in> set members. utf8 k \<and> clean v" using assms(2,3) by force
qed

text \<open>The values of the unsigned types are in range.\<close>

lemma unat_below_64:
  "unat (a :: u8) < 2 ^ 64" "unat (b :: u16) < 2 ^ 64" "unat (c :: u32) < 2 ^ 64" "unat (d :: u64) < 2 ^ 64"
proof -
  have "unat a < 2 ^ LENGTH(8)" "unat b < 2 ^ LENGTH(16)" "unat c < 2 ^ LENGTH(32)" "unat d < 2 ^ LENGTH(64)"
    by (rule unsigned_less)+
  then show "unat a < 2 ^ 64" "unat b < 2 ^ 64" "unat c < 2 ^ 64" "unat d < 2 ^ 64" by simp_all
qed

section \<open>An instance\<close>

text \<open>A library that keeps documents as trees and files unprinted satisfies all of it.\<close>

datatype tree =
    J_Null | J_Double ieee | J_Integer int | J_Text string | J_Flag bool | J_Bytes bytes | J_Object "(string \<times> tree) list"

fun tree_set :: "tree \<Rightarrow> string \<Rightarrow> tree \<Rightarrow> tree" where
  "tree_set (J_Object members) k v = J_Object ((k, v) # members)"
| "tree_set _ k v = J_Object [(k, v)]"

fun tree_members :: "tree \<Rightarrow> (string \<times> tree) list" where
  "tree_members (J_Object members) = members"
| "tree_members _ = []"

definition tree_number :: "tree \<Rightarrow> int option" where
  "tree_number j = (case j of J_Integer n \<Rightarrow> Some n | _ \<Rightarrow> None)"

text \<open>Setting a key of a value that is not an object replaces it; the library throws there, which
  no modelled call does.\<close>

definition tree_lib :: "(tree, tree) json_lib" where
  "tree_lib = \<lparr>j_parse = Some, j_dump = (\<lambda>_ j. Some j), j_empty = J_Null, j_set = tree_set,
     j_contains = (\<lambda>j k. map_of (tree_members j) k \<noteq> None), j_at = (\<lambda>j k. the (map_of (tree_members j) k)),
     is_object = (\<lambda>j. case j of J_Object _ \<Rightarrow> True | _ \<Rightarrow> False),
     is_number = (\<lambda>j. case j of J_Double _ \<Rightarrow> True | J_Integer _ \<Rightarrow> True | _ \<Rightarrow> False),
     is_number_integer = (\<lambda>j. tree_number j \<noteq> None),
     is_string = (\<lambda>j. case j of J_Text _ \<Rightarrow> True | _ \<Rightarrow> False),
     is_boolean = (\<lambda>j. case j of J_Flag _ \<Rightarrow> True | _ \<Rightarrow> False),
     is_array = (\<lambda>j. case j of J_Bytes _ \<Rightarrow> True | _ \<Rightarrow> False),
     get_double = (\<lambda>j. case j of J_Double x \<Rightarrow> Some x | _ \<Rightarrow> None),
     get_int = tree_number, get_u8 = (\<lambda>j. map_option of_int (tree_number j)), get_u16 = (\<lambda>j. map_option of_int (tree_number j)),
     get_u32 = (\<lambda>j. map_option of_int (tree_number j)), get_u64 = (\<lambda>j. map_option of_int (tree_number j)),
     get_string = (\<lambda>j. case j of J_Text s \<Rightarrow> Some s | _ \<Rightarrow> None),
     get_bool = (\<lambda>j. case j of J_Flag b \<Rightarrow> Some b | _ \<Rightarrow> None),
     get_bytes = (\<lambda>j. case j of J_Bytes bs \<Rightarrow> Some bs | _ \<Rightarrow> None),
     of_double = J_Double, of_signed = J_Integer, of_unsigned = (\<lambda>n. J_Integer (int n)), of_text = J_Text,
     of_flag = J_Flag, of_bytes = J_Bytes\<rparr>"

lemma tree_set_fields: "is_object tree_lib (tree_set j k v) \<and> map_of (tree_members (tree_set j k v)) = (map_of (tree_members j))(k \<mapsto> v)"
  by (cases j) (simp_all add: tree_lib_def)

lemma tree_lib_ok: "json_ok tree_lib (\<lambda>_. True) (\<lambda>_. True)"
proof -
  have "json_objects tree_lib"
    using tree_set_fields by (auto simp: json_objects_def tree_lib_def)
  moreover have "json_values tree_lib" by (simp add: json_values_def tree_lib_def tree_number_def)
  moreover have "json_text tree_lib (\<lambda>_. True) (\<lambda>_. True)" by (simp add: json_text_def tree_lib_def)
  ultimately show ?thesis by (simp add: json_ok_def)
qed

end
