(* ===== verification/Modem_Json.thy ===== *)
theory Modem_Json
  imports Modem_Config Json
begin

text \<open>
  Saving and loading the modem's configuration, \<open>to_json\<close> and \<open>from_json\<close> of
  \<^verbatim>\<open>src/config.cpp\<close>, with the library as a parameter. A file that cannot be opened is
  \<open>None\<close>.
\<close>

definition code_rate_to_string :: "code_rate \<Rightarrow> string option" where
  "code_rate_to_string rate = (if rate = RATE_1_2 then Some ''1/2'' else if rate = RATE_3_4 then Some ''3/4'' else None)"

definition string_to_code_rate :: "string \<Rightarrow> load_error + code_rate" where
  "string_to_code_rate s =
    (if s = ''1/2'' then Inr RATE_1_2 else if s = ''3/4'' then Inr RATE_3_4 else Inl (Invalid ''fec_code_rate''))"

definition modem_members :: "('j, 't) json_lib \<Rightarrow> string \<Rightarrow> modem_config \<Rightarrow> (string \<times> 'j) list" where
  "modem_members L rate c =
    [(''center_freq'', of_double L (center_freq c)),
     (''sample_rate'', of_double L (sample_rate c)),
     (''tx_gain'', of_double L (tx_gain c)),
     (''rx_gain'', of_double L (rx_gain c)),
     (''tx_antenna'', of_text L (tx_antenna c)),
     (''rx_antenna'', of_text L (rx_antenna c)),
     (''samples_per_symbol'', of_signed L (samples_per_symbol c)),
     (''rrc_rolloff'', of_double L (rrc_rolloff c)),
     (''rrc_span_symbols'', of_signed L (rrc_span_symbols c)),
     (''preamble'', of_bytes L (barker c)),
     (''tcp_input_addr'', of_text L (tcp_input_addr c)),
     (''tcp_input_port'', of_unsigned L (unat (tcp_input_port c))),
     (''tcp_output_addr'', of_text L (tcp_output_addr c)),
     (''tcp_output_port'', of_unsigned L (unat (tcp_output_port c))),
     (''fec_enabled'', of_flag L (use_fec c)),
     (''fec_code_rate'', of_text L rate),
     (''acquisition_symbols'', of_signed L (acquisition_symbols c)),
     (''ramp_symbols'', of_signed L (ramp_symbols c))]"

text \<open>The text written, unless an exception is thrown; \<open>writable\<close> says whether the file opens and
  takes it.\<close>

definition modem_to_json :: "('j, 't) json_lib \<Rightarrow> modem_config \<Rightarrow> bool \<Rightarrow> load_error + 't" where
  "modem_to_json L c writable =
    (case code_rate_to_string (use_code_rate c) of
       None \<Rightarrow> Inl (Invalid ''fec_code_rate'')
     | Some rate \<Rightarrow>
         let j = object_of L (modem_members L rate c) in
         if \<not> writable then Inl Cannot_Open
         else from_get (j_dump L 4 j))"

definition modem_readers :: "('j, 't) json_lib \<Rightarrow> 'j \<Rightarrow> (modem_config \<Rightarrow> load_error + modem_config) list" where
  "modem_readers L j =
    [required L j ''center_freq'' (is_number L) (get_double L) (\<lambda>x c. c\<lparr>center_freq := x\<rparr>),
     required L j ''sample_rate'' (is_number L) (get_double L) (\<lambda>x c. c\<lparr>sample_rate := x\<rparr>),
     required L j ''tx_gain'' (is_number L) (get_double L) (\<lambda>x c. c\<lparr>tx_gain := x\<rparr>),
     required L j ''rx_gain'' (is_number L) (get_double L) (\<lambda>x c. c\<lparr>rx_gain := x\<rparr>),
     required L j ''tx_antenna'' (is_string L) (get_string L) (\<lambda>x c. c\<lparr>tx_antenna := x\<rparr>),
     required L j ''rx_antenna'' (is_string L) (get_string L) (\<lambda>x c. c\<lparr>rx_antenna := x\<rparr>),
     required L j ''samples_per_symbol'' (is_number_integer L) (get_int L) (\<lambda>x c. c\<lparr>samples_per_symbol := x\<rparr>),
     required L j ''rrc_rolloff'' (is_number L) (get_double L) (\<lambda>x c. c\<lparr>rrc_rolloff := x\<rparr>),
     required L j ''rrc_span_symbols'' (is_number_integer L) (get_int L) (\<lambda>x c. c\<lparr>rrc_span_symbols := x\<rparr>),
     required L j ''preamble'' (is_array L) (get_bytes L) (\<lambda>x c. c\<lparr>barker := x\<rparr>),
     required L j ''tcp_input_addr'' (is_string L) (get_string L) (\<lambda>x c. c\<lparr>tcp_input_addr := x\<rparr>),
     required L j ''tcp_input_port'' (is_number_integer L) (get_u16 L) (\<lambda>x c. c\<lparr>tcp_input_port := x\<rparr>),
     required L j ''tcp_output_addr'' (is_string L) (get_string L) (\<lambda>x c. c\<lparr>tcp_output_addr := x\<rparr>),
     required L j ''tcp_output_port'' (is_number_integer L) (get_u16 L) (\<lambda>x c. c\<lparr>tcp_output_port := x\<rparr>),
     required L j ''fec_enabled'' (is_boolean L) (get_bool L) (\<lambda>x c. c\<lparr>use_fec := x\<rparr>),
     (\<lambda>c. if \<not> j_contains L j ''fec_code_rate'' then Inl (Missing ''fec_code_rate'')
          else rbind (typed L j ''fec_code_rate'' (is_string L) (get_string L)) (\<lambda>s.
               rbind (string_to_code_rate s) (\<lambda>r. Inr (c\<lparr>use_code_rate := r\<rparr>)))),
     optional L j ''acquisition_symbols'' (is_number_integer L) (get_int L) (\<lambda>x c. c\<lparr>acquisition_symbols := x\<rparr>),
     optional L j ''ramp_symbols'' (is_number_integer L) (get_int L) (\<lambda>x c. c\<lparr>ramp_symbols := x\<rparr>)]"

definition modem_from_json :: "('j, 't) json_lib \<Rightarrow> 't option \<Rightarrow> load_error + modem_config" where
  "modem_from_json L file =
    (case file of
       None \<Rightarrow> Inl Cannot_Open
     | Some text \<Rightarrow>
         (case j_parse L text of
            None \<Rightarrow> Inl Not_Json
          | Some j \<Rightarrow>
              if \<not> is_object L j then Inl Not_An_Object
              else
                rbind (in_turn (modem_readers L j) modem_defaults) (\<lambda>cfg.
                case modem_validate cfg of
                  Inl (Field name) \<Rightarrow> Inl (Invalid name)
                | Inl Undefined_Message \<Rightarrow> Inl Undefined_Conversion
                | Inr _ \<Rightarrow> Inr cfg)))"

section \<open>Saved and loaded\<close>

text \<open>What a saved configuration leaves out falls back to the default.\<close>

definition without_unsaved :: "modem_config \<Rightarrow> modem_config" where
  "without_unsaved c = c\<lparr>tx_freq := tx_freq modem_defaults, rx_freq := rx_freq modem_defaults, use_udp := use_udp modem_defaults,
     udp_input_addr := udp_input_addr modem_defaults, udp_input_port := udp_input_port modem_defaults,
     udp_output_addr := udp_output_addr modem_defaults, udp_output_port := udp_output_port modem_defaults,
     device_serial := device_serial modem_defaults\<rparr>"

text \<open>The values of its C++ types, without NaNs and infinities and with strings that are UTF-8.\<close>

definition storable :: "(string \<Rightarrow> bool) \<Rightarrow> modem_config \<Rightarrow> bool" where
  "storable utf8 c \<longleftrightarrow>
    (\<forall>x \<in> {center_freq c, sample_rate c, tx_gain c, rx_gain c, rrc_rolloff c}. ordinary x)
    \<and> (\<forall>s \<in> {tx_antenna c, rx_antenna c, tcp_input_addr c, tcp_output_addr c}. utf8 s)
    \<and> (\<forall>n \<in> {samples_per_symbol c, rrc_span_symbols c, acquisition_symbols c, ramp_symbols c}. - (2 ^ 31) \<le> n \<and> n < 2 ^ 31)"

lemma modem_validate_without_unsaved: "modem_validate (without_unsaved c) = modem_validate c"
  by (simp add: modem_validate_def without_unsaved_def)

lemma modem_readers_members:
  assumes "json_objects L" "json_values L" "storable utf8 c" "code_rate_to_string (use_code_rate c) = Some rate"
  shows "in_turn (modem_readers L (object_of L (modem_members L rate c))) modem_defaults = Inr (without_unsaved c)"
proof -
  let ?j = "object_of L (modem_members L rate c)"
  have "string_to_code_rate rate = Inr (use_code_rate c)"
    using assms(4) by (auto simp: code_rate_to_string_def string_to_code_rate_def split: if_splits)
  moreover have "\<And>k. j_contains L ?j k \<longleftrightarrow> k \<in> fst ` set (modem_members L rate c)"
    "\<And>k. k \<in> fst ` set (modem_members L rate c) \<Longrightarrow> j_at L ?j k = the (map_of (rev (modem_members L rate c)) k)"
    by (rule object_of_members [OF assms(1)])+
  moreover have "get_int L (of_signed L n) = Some n"
    if "n \<in> {samples_per_symbol c, rrc_span_symbols c, acquisition_symbols c, ramp_symbols c}" for n
    using assms(2,3) that by (auto simp: json_values_def storable_def)
  moreover have "get_u16 L (of_unsigned L (unat p)) = Some p" for p
    using assms(2) unat_below_64(2) [of p] by (simp add: json_values_def)
  moreover have "is_number L (of_double L x)" "get_double L (of_double L x) = Some x" "is_string L (of_text L s)"
    "get_string L (of_text L s) = Some s" "is_number_integer L (of_signed L n)" "is_number_integer L (of_unsigned L m)"
    "is_boolean L (of_flag L b)" "get_bool L (of_flag L b) = Some b" "is_array L (of_bytes L bs)" "get_bytes L (of_bytes L bs) = Some bs"
    for x s n m b bs using assms(2) by (simp_all add: json_values_def)
  ultimately show ?thesis
    unfolding modem_readers_def
    by (simp add: required_def optional_def typed_def from_get_def modem_members_def without_unsaved_def modem_defaults_def)
qed

text \<open>C39. What is saved can be loaded: from the file a valid configuration is written to, if it has no
  NaN, infinity or negative zero among its numbers and its strings are UTF-8, the same configuration is read - except
  that the separate transmit and receive frequencies, all UDP settings and the device serial are
  never written and come back as their defaults. The condition is needed: validation lets a NaN through
  (see \<open>options_valid\<close>), which the library writes as \<open>null\<close>, and \<open>null\<close>
  is no number for the reader.\<close>

theorem modem_saved_loaded:
  assumes "json_ok L utf8 clean" "modem_validate c = Inr ()" "storable utf8 c"
  shows "\<exists>t. modem_to_json L c True = Inr t \<and> modem_from_json L (Some t) = Inr (without_unsaved c)"
proof -
  have ok: "json_objects L" "json_values L" "json_text L utf8 clean" using assms(1) by (simp_all add: json_ok_def)
  obtain rate where rate: "code_rate_to_string (use_code_rate c) = Some rate" "rate \<in> {''1/2'', ''3/4''}"
    using assms(2) by (auto simp: modem_validate_def code_rate_to_string_def RATE_1_2_def RATE_3_4_def split: if_splits)
  let ?m = "modem_members L rate c" and ?j = "object_of L (modem_members L rate c)"
  have "utf8 rate" using rate(2) ok(3) by (auto simp: json_text_def)
  then have "clean ?j"
    using ok(3) assms(3)
    by (intro ascii_object_clean [OF ok(3)]) (auto simp: modem_members_def json_text_def storable_def)
  then obtain t where t: "j_dump L 4 ?j = Some t" "j_parse L t = Some ?j" using ok(3) unfolding json_text_def by blast
  have "is_object L ?j" by (rule object_of_is_object [OF ok(1)]) (simp add: modem_members_def)
  then have "modem_from_json L (Some t) = Inr (without_unsaved c)"
    using t(2) modem_readers_members [OF ok(1,2) assms(3) rate(1)] assms(2)
    by (simp add: modem_from_json_def modem_validate_without_unsaved)
  then show ?thesis using t(1) rate(1) by (simp add: modem_to_json_def from_get_def Let_def)
qed

theorem modem_saved_loaded_witness:
  "\<exists>t. modem_to_json tree_lib (modem_defaults\<lparr>use_udp := True, sample_rate := Finite 2000000\<rparr>) True = Inr t
    \<and> modem_from_json tree_lib (Some t) = Inr (modem_defaults\<lparr>sample_rate := Finite 2000000\<rparr>)"
proof -
  let ?c = "modem_defaults\<lparr>use_udp := True, sample_rate := Finite 2000000\<rparr>"
  have "modem_validate ?c = Inr ()" "storable (\<lambda>_. True) ?c"
    by (simp_all add: modem_validate_def modem_defaults_def storable_def ordinary_def)
  moreover have "without_unsaved ?c = modem_defaults\<lparr>sample_rate := Finite 2000000\<rparr>"
    by (simp add: without_unsaved_def modem_defaults_def)
  ultimately show ?thesis using modem_saved_loaded [OF tree_lib_ok, of ?c] by simp
qed

end
