(* ===== verification/Modem_Process.thy ===== *)
theory Modem_Process
  imports Modem_Threads Tcp_Input Tcp_Output
begin

text \<open>
  The modem process of \<^verbatim>\<open>src/main.cpp\<close> in its TCP mode from the start of the threads to the
  return of \<open>main\<close>: the four threads on their two shared queues, the signal, the joins and the
  stops. A thread tests the flag at the head of its loop and a round that has begun is completed, so
  entering a round and making it are two turns. What the rounds themselves do is in
  \<open>Tcp_Input\<close>, \<open>Modem_Threads\<close> and \<open>Tcp_Output\<close>; the queues are safe under
  the two threads on them (\<open>Spsc\<close>), so a round is one step.
\<close>

section \<open>The process\<close>

text \<open>The signal processing, as the thread models take it.\<close>

record 'd signal =
  sg_shape :: "symbol list \<Rightarrow> sample list"
  sg_scale :: "nat \<Rightarrow> nat \<Rightarrow> sample \<Rightarrow> sample"
  sg_reset :: "'d \<Rightarrow> 'd"
  sg_decode :: "'d \<Rightarrow> sample list \<Rightarrow> (bytes option \<times> 'd) res"

datatype worker = Input_Worker | Tx_Worker | Rx_Worker | Output_Worker

text \<open>Only the receive thread has something to do before its loop: it starts the stream, and waits for the
  flag when that fails.\<close>

datatype worker_phase = Starting | At_Head | In_Round | Idle | Left

record 'd process =
  p_running :: bool              \<comment> \<open>\<open>g_running\<close>\<close>
  p_phase :: "worker \<Rightarrow> worker_phase"
  p_input :: input_thread
  p_tx :: tx_thread              \<comment> \<open>with the radio, which the receive thread starts and stops\<close>
  p_rx :: "'d rx_thread"
  p_output :: output_thread
  p_returned :: bool

definition new_process :: "encoder \<Rightarrow> radio \<Rightarrow> nat \<Rightarrow> 'd \<Rightarrow> tcp_input \<Rightarrow> tcp_output \<Rightarrow> int \<Rightarrow> 'd process" where
  "new_process enc r ramp dec tin tout now =
    \<lparr>p_running = True, p_phase = (\<lambda>w. if w = Rx_Worker then Starting else At_Head),
     p_input = new_input_thread tin (new_spsc 64 []) now,
     p_tx = \<lparr>tx_encoder = enc, tx_queue = new_spsc 64 [], tx_radio = r, tx_ramp = ramp, tx_popped = []\<rparr>,
     p_rx = new_rx_thread dec,
     p_output = \<lparr>tout_server = tout, tout_queue = new_spsc 64 [], popped = []\<rparr>,
     p_returned = False\<rparr>"

datatype modem_turn =
    Enter worker
  | Input_Turn poll_answers int int
  | Send_Turn "nat list"
  | Start_Rx
  | Listen_Turn "sample list option"
  | Output_Turn output_answers
  | Leave worker "(int \<Rightarrow> int list) list"   \<comment> \<open>the answers are for the last payloads of the output\<close>
  | Signal
  | Join

abbreviation in_phase :: "'d process \<Rightarrow> worker \<Rightarrow> worker_phase \<Rightarrow> bool" where
  "in_phase p w ph \<equiv> p_phase p w = ph"

definition moved :: "worker \<Rightarrow> worker_phase \<Rightarrow> 'd process \<Rightarrow> 'd process" where
  "moved w ph p = p\<lparr>p_phase := (p_phase p)(w := ph)\<rparr>"

text \<open>A round gives the queue it changed to the thread at its other end.\<close>

definition input_turn :: "'d process \<Rightarrow> poll_answers \<Rightarrow> int \<Rightarrow> int \<Rightarrow> 'd process res" where
  "input_turn p a now_frames now_idle =
    rbind (input_round (p_input p) a now_frames now_idle) (\<lambda>i.
    Inr (moved Input_Worker At_Head (p\<lparr>p_input := i, p_tx := (p_tx p)\<lparr>tx_queue := tin_queue i\<rparr>\<rparr>)))"

definition send_turn ::
  "(symbol list \<Rightarrow> sample list) \<Rightarrow> (nat \<Rightarrow> nat \<Rightarrow> sample \<Rightarrow> sample) \<Rightarrow> 'd process \<Rightarrow> nat list \<Rightarrow> 'd process res" where
  "send_turn shape scale p rooms =
    rbind (tx_round shape scale (p_tx p) rooms) (\<lambda>t.
    Inr (moved Tx_Worker At_Head (p\<lparr>p_tx := t, p_input := (p_input p)\<lparr>tin_queue := tx_queue t\<rparr>\<rparr>)))"

definition listen_turn ::
  "('d \<Rightarrow> 'd) \<Rightarrow> ('d \<Rightarrow> sample list \<Rightarrow> (bytes option \<times> 'd) res)
    \<Rightarrow> 'd process \<Rightarrow> sample list option \<Rightarrow> 'd process res" where
  "listen_turn reset decode p heard =
    rbind (rx_round reset decode (p_rx p) heard) (\<lambda>r.
    Inr (moved Rx_Worker At_Head (p\<lparr>p_rx := r, p_output := (p_output p)\<lparr>tout_queue := rx_queue r\<rparr>\<rparr>)))"

definition after_output :: "'d process \<Rightarrow> worker_phase \<Rightarrow> output_thread res option \<Rightarrow> 'd process res" where
  "after_output p ph result =
    (case result of
       None \<Rightarrow> Inl Diverges
     | Some (Inl e) \<Rightarrow> Inl e
     | Some (Inr t) \<Rightarrow> Inr (moved Output_Worker ph (p\<lparr>p_output := t, p_rx := (p_rx p)\<lparr>rx_queue := tout_queue t\<rparr>\<rparr>)))"

text \<open>The pushes of the round's model come from the receive thread's own turns here.\<close>

definition output_turn :: "'d process \<Rightarrow> output_answers \<Rightarrow> 'd process res" where
  "output_turn p a = after_output p At_Head (output_round (p_output p) (a\<lparr>pushes := []\<rparr>))"

definition start_rx :: "'d process \<Rightarrow> 'd process" where
  "start_rx p =
    (case start_rx_stream (tx_radio (p_tx p)) of
       Inl _ \<Rightarrow> moved Rx_Worker Idle p
     | Inr r \<Rightarrow> moved Rx_Worker At_Head (p\<lparr>p_tx := (p_tx p)\<lparr>tx_radio := r\<rparr>\<rparr>))"

text \<open>What a thread does after its loop: the output thread drains the queue, the receive thread stops the
  stream, whose failure is ignored.\<close>

definition leave :: "'d process \<Rightarrow> worker \<Rightarrow> (int \<Rightarrow> int list) list \<Rightarrow> 'd process res" where
  "leave p w writes =
    (case w of
       Output_Worker \<Rightarrow> after_output p Left (drain (p_output p) writes)
     | Rx_Worker \<Rightarrow>
         (if in_phase p Rx_Worker Idle then Inr (moved Rx_Worker Left p)
          else (case stop_rx_stream (tx_radio (p_tx p)) of
                  Inl _ \<Rightarrow> Inr (moved Rx_Worker Left p)
                | Inr r \<Rightarrow> Inr (moved Rx_Worker Left (p\<lparr>p_tx := (p_tx p)\<lparr>tx_radio := r\<rparr>\<rparr>))))
     | _ \<Rightarrow> Inr (moved w Left p))"

text \<open>\<open>main\<close> after the joins.\<close>

definition stop_servers :: "'d process \<Rightarrow> 'd process" where
  "stop_servers p =
    p\<lparr>p_input := (p_input p)\<lparr>tin_server := tcp_input_stop (tin_server (p_input p))\<rparr>,
      p_output := (p_output p)\<lparr>tout_server := tcp_output_stop (tout_server (p_output p))\<rparr>, p_returned := True\<rparr>"

text \<open>\<open>None\<close> is a turn that is not possible.\<close>

fun modem_step :: "'d signal \<Rightarrow> 'd process \<Rightarrow> modem_turn \<Rightarrow> 'd process res option" where
  "modem_step S p (Enter w) =
    (if p_running p \<and> in_phase p w At_Head then Some (Inr (moved w In_Round p)) else None)"
| "modem_step S p (Input_Turn a now_frames now_idle) =
    (if in_phase p Input_Worker In_Round then Some (input_turn p a now_frames now_idle) else None)"
| "modem_step S p (Send_Turn rooms) =
    (if in_phase p Tx_Worker In_Round then Some (send_turn (sg_shape S) (sg_scale S) p rooms) else None)"
| "modem_step S p Start_Rx =
    (if in_phase p Rx_Worker Starting then Some (Inr (start_rx p)) else None)"
| "modem_step S p (Listen_Turn heard) =
    (if in_phase p Rx_Worker In_Round then Some (listen_turn (sg_reset S) (sg_decode S) p heard) else None)"
| "modem_step S p (Output_Turn a) =
    (if in_phase p Output_Worker In_Round then Some (output_turn p a) else None)"
| "modem_step S p (Leave w writes) =
    (if \<not> p_running p \<and> (in_phase p w At_Head \<or> in_phase p w Idle) then Some (leave p w writes) else None)"
| "modem_step S p Signal = Some (Inr (p\<lparr>p_running := False\<rparr>))"
| "modem_step S p Join =
    (if \<not> p_running p \<and> (\<forall>w \<in> {Input_Worker, Tx_Worker, Rx_Worker, Output_Worker}. in_phase p w Left) \<and> \<not> p_returned p
     then Some (Inr (stop_servers p)) else None)"

fun modem_run :: "'d signal \<Rightarrow> 'd process \<Rightarrow> modem_turn list \<Rightarrow> 'd process res option" where
  "modem_run S p [] = Some (Inr p)"
| "modem_run S p (turn # turns) =
    (case modem_step S p turn of
       None \<Rightarrow> None
     | Some (Inl e) \<Rightarrow> Some (Inl e)
     | Some (Inr q) \<Rightarrow> modem_run S q turns)"

section \<open>From the clients to the antenna\<close>

text \<open>\<open>queued xs t\<close>: of the chunks the input thread pushed, \<open>xs\<close> have been taken from the queue.\<close>

definition queued :: "bytes list \<Rightarrow> input_thread \<Rightarrow> bool" where
  "queued xs t \<longleftrightarrow> spsc_inv (tin_queue t) \<and> map fst (filter snd (offered t)) = xs @ elements (tin_queue t)"

lemma queued_simps [simp]:
  "queued xs (t\<lparr>tin_server := s\<rparr>) = queued xs t" "queued xs (t\<lparr>last_data_time := n\<rparr>) = queued xs t"
  "queued xs (t\<lparr>last_buffered := b\<rparr>) = queued xs t" "queued xs (t\<lparr>was_connected := c\<rparr>) = queued xs t"
  by (simp_all add: queued_def)

lemma offer_queued: "offer t chunk = Inr u \<Longrightarrow> queued xs t \<Longrightarrow> queued xs u"
  using ring.push_ok [of "tin_queue t" chunk] by (auto simp: offer_def rbind_eq_Inr queued_def split: if_splits)

lemma send_frames_queued: "send_frames t now = Inr u \<Longrightarrow> queued xs t \<Longrightarrow> queued xs u"
proof (induction t now arbitrary: u rule: send_frames.induct)
  case (1 t now)
  show ?case
  proof (cases "has_frame (tin_server t) \<and> fst (read_frame (tin_server t)) \<noteq> []")
    case False
    then show ?thesis using "1.prems" by (auto simp: send_frames.simps [of t] split: prod.splits if_splits)
  next
    case True
    obtain d srv where r: "read_frame (tin_server t) = (d, srv)" by force
    then obtain v where v: "offer (t\<lparr>tin_server := srv\<rparr>) d = Inr v"
      "send_frames (v\<lparr>last_data_time := now, last_buffered := 0\<rparr>) now = Inr u"
      using "1.prems"(1) True by (auto simp: send_frames.simps [of t] rbind_eq_Inr)
    have "queued xs (v\<lparr>last_data_time := now, last_buffered := 0\<rparr>)" using offer_queued [OF v(1)] "1.prems"(2) by simp
    then show ?thesis using "1.IH" [OF _ r [symmetric] refl refl _ v(1,2)] True r by simp
  qed
qed

lemma input_round_queued:
  assumes "input_round t a now_frames now_idle = Inr u" "queued xs t"
  shows "queued xs u"
proof -
  have flush: "queued xs v" if "flush_leftover w = Inr v" "queued xs w" for v w
    using that offer_queued by (auto simp: flush_leftover_def Let_def split: prod.splits if_splits)
  have idle: "queued xs v" if "idle_flush w n = Inr v" "queued xs w" for v w n
    using that flush by (auto simp: idle_flush_def Let_def rbind_eq_Inr split: if_splits)
  show ?thesis
    using assms flush idle send_frames_queued by (auto simp: input_round_def rbind_eq_Inr split: if_splits)
qed

text \<open>The bytes read from the clients along a run.\<close>

fun modem_reads :: "'d signal \<Rightarrow> 'd process \<Rightarrow> modem_turn list \<Rightarrow> bytes" where
  "modem_reads S p [] = []"
| "modem_reads S p (turn # turns) =
    (case turn of Input_Turn a _ _ \<Rightarrow> read_by (tin_server (p_input p)) a | _ \<Rightarrow> [])
    @ (case modem_step S p turn of Some (Inr q) \<Rightarrow> modem_reads S q turns | _ \<Rightarrow> [])"

text \<open>The transmit side with the encoder it began with and what has been read.\<close>

definition tx_sent :: "'d signal \<Rightarrow> nat \<Rightarrow> encoder \<Rightarrow> tx_thread \<Rightarrow> bool" where
  "tx_sent S ramp enc t \<longleftrightarrow> encoder_ok (tx_encoder t) \<and> radio_ready (tx_radio t) \<and> tx_ramp t = ramp \<and> ramp < 2 ^ 31
    \<and> on_antenna (tx_chunks (tx_radio t)) = concat (bursts (sg_shape S) (sg_scale S) ramp enc (tx_popped t))
    \<and> length (bursts (sg_shape S) (sg_scale S) ramp enc (tx_popped t)) = length (tx_popped t)
    \<and> (\<forall>ps. bursts (sg_shape S) (sg_scale S) ramp enc (tx_popped t @ ps)
          = bursts (sg_shape S) (sg_scale S) ramp enc (tx_popped t) @ bursts (sg_shape S) (sg_scale S) ramp (tx_encoder t) ps)"

definition tx_side :: "'d signal \<Rightarrow> nat \<Rightarrow> encoder \<Rightarrow> nat \<Rightarrow> bytes \<Rightarrow> 'd process \<Rightarrow> bool" where
  "tx_side S ramp enc n bytes_in p \<longleftrightarrow> tx_sent S ramp enc (p_tx p)
    \<and> tin_queue (p_input p) = tx_queue (p_tx p) \<and> queued (tx_popped (p_tx p)) (p_input p)
    \<and> chunks_ok (p_input p) \<and> tin_frame_size (tin_server (p_input p)) = n \<and> 0 < n
    \<and> (if p_returned p then in_phase p Input_Worker Left else stream_of (p_input p) = bytes_in)"

lemma tx_sent_radio: "tx_sent S ramp enc t \<Longrightarrow> radio_ready r = radio_ready (tx_radio t) \<Longrightarrow> tx_chunks r = tx_chunks (tx_radio t)
  \<Longrightarrow> tx_sent S ramp enc (t\<lparr>tx_radio := r\<rparr>)"
  by (simp add: tx_sent_def)

lemma tx_sent_queue [simp]: "tx_sent S ramp enc (t\<lparr>tx_queue := q\<rparr>) = tx_sent S ramp enc t"
  by (simp add: tx_sent_def)

lemma tx_round_sent:
  assumes "tx_round (sg_shape S) (sg_scale S) t rooms = Inr u" "tx_sent S ramp enc t" "spsc_inv (tx_queue t)"
  shows "tx_sent S ramp enc u \<and> spsc_inv (tx_queue u) \<and> tx_popped t @ elements (tx_queue t) = tx_popped u @ elements (tx_queue u)"
proof -
  let ?b = "bursts (sg_shape S) (sg_scale S) ramp" and ?p = "take 1 (elements (tx_queue t))"
  have t: "encoder_ok (tx_encoder t)" "tx_ramp t = ramp" "ramp < 2 ^ 31" "radio_ready (tx_radio t)"
    using assms(2) by (simp_all add: tx_sent_def)
  have u: "encoder_ok (tx_encoder u)" "spsc_inv (tx_queue u)" "tx_ramp u = ramp" "radio_ready (tx_radio u)"
    "\<forall>ps. ?b (tx_encoder t) (?p @ ps) = ?b (tx_encoder t) ?p @ ?b (tx_encoder u) ps"
    "transmitted (sg_shape S) (sg_scale S) t u [] ?p"
    using tx_round_step [OF t(1) assms(3), of "sg_shape S" "sg_scale S" rooms] t assms(1) by auto
  note d = u(6) [unfolded transmitted_def]
  have split: "?b enc (tx_popped t @ ps) = ?b enc (tx_popped t) @ ?b (tx_encoder t) ps" for ps
    using assms(2) by (simp add: tx_sent_def)
  have "?b enc (tx_popped u @ ps) = ?b enc (tx_popped u) @ ?b (tx_encoder u) ps" for ps
    using d u(5) split by simp
  then show ?thesis using assms(2) d u split t by (auto simp: tx_sent_def)
qed

lemma moved_simps [simp]:
  "p_running (moved w ph p) = p_running p" "p_input (moved w ph p) = p_input p" "p_tx (moved w ph p) = p_tx p"
  "p_rx (moved w ph p) = p_rx p" "p_output (moved w ph p) = p_output p" "p_returned (moved w ph p) = p_returned p"
  "p_phase (moved w ph p) v = (if v = w then ph else p_phase p v)"
  by (simp_all add: moved_def)

lemma rx_stream_radio:
  "start_rx_stream r = Inr r' \<or> stop_rx_stream r = Inr r' \<Longrightarrow> radio_ready r' = radio_ready r \<and> tx_chunks r' = tx_chunks r"
  by (auto simp: start_rx_stream_def stop_rx_stream_def radio_ready_def split: if_splits)

lemma leave_transmitter:
  assumes "leave p w writes = Inr q"
  shows "p_input q = p_input p \<and> p_returned q = p_returned p \<and> p_phase q = (p_phase p)(w := Left)
    \<and> (\<exists>r. p_tx q = (p_tx p)\<lparr>tx_radio := r\<rparr> \<and> radio_ready r = radio_ready (tx_radio (p_tx p)) \<and> tx_chunks r = tx_chunks (tx_radio (p_tx p)))"
proof (cases "w = Rx_Worker \<and> \<not> in_phase p Rx_Worker Idle")
  case True
  then show ?thesis
    using assms rx_stream_radio [of "tx_radio (p_tx p)"]
    by (cases "stop_rx_stream (tx_radio (p_tx p))")
      (auto simp: leave_def moved_def intro: exI [of _ "tx_radio (p_tx p)"])
next
  case False
  then show ?thesis
    using assms
    by (cases w) (auto simp: leave_def moved_def after_output_def split: option.splits sum.splits intro!: exI [of _ "tx_radio (p_tx p)"])
qed

lemma tx_side_step:
  assumes step: "modem_step S p turn = Some (Inr q)" and inv: "tx_side S ramp enc n bytes_in p"
  shows "tx_side S ramp enc n (bytes_in @ (case turn of Input_Turn a _ _ \<Rightarrow> read_by (tin_server (p_input p)) a | _ \<Rightarrow> [])) q"
proof (cases turn)
  case (Input_Turn a x y)
  then have live: "\<not> p_returned p" using step inv by (auto simp: tx_side_def split: if_splits)
  obtain i where i: "input_round (p_input p) a x y = Inr i"
    "q = moved Input_Worker At_Head (p\<lparr>p_input := i, p_tx := (p_tx p)\<lparr>tx_queue := tin_queue i\<rparr>\<rparr>)"
    using step Input_Turn by (auto simp: input_turn_def rbind_eq_Inr split: if_splits)
  show ?thesis
    using input_round_queued [OF i(1)] input_round_stream [OF i(1)] inv live i(2) Input_Turn
    by (auto simp: tx_side_def)
next
  case (Send_Turn rooms)
  then obtain t where t: "tx_round (sg_shape S) (sg_scale S) (p_tx p) rooms = Inr t"
    "q = moved Tx_Worker At_Head (p\<lparr>p_tx := t, p_input := (p_input p)\<lparr>tin_queue := tx_queue t\<rparr>\<rparr>)"
    using step by (auto simp: send_turn_def rbind_eq_Inr split: if_splits)
  show ?thesis
    using tx_round_sent [OF t(1)] inv t(2) Send_Turn
    by (auto simp: tx_side_def queued_def chunks_ok_def stream_of_def)
next
  case Start_Rx
  then show ?thesis
    using step inv rx_stream_radio tx_sent_radio [of S]
    by (auto simp: start_rx_def tx_side_def split: if_splits sum.splits)
next
  case (Leave w writes)
  then have l: "leave p w writes = Inr q" using step by (auto split: if_splits)
  then obtain rd where rd: "p_tx q = (p_tx p)\<lparr>tx_radio := rd\<rparr>" "radio_ready rd = radio_ready (tx_radio (p_tx p))"
    "tx_chunks rd = tx_chunks (tx_radio (p_tx p))" using leave_transmitter by blast
  show ?thesis
    using inv leave_transmitter [OF l] tx_sent_radio [OF _ rd(2,3)] rd(1) Leave by (auto simp: tx_side_def)
next
  case Join
  then show ?thesis
    using step inv
    by (auto simp: stop_servers_def tx_side_def queued_def chunks_ok_def tcp_input_stop_def disconnect_client_def Let_def split: if_splits)
qed (use step inv in \<open>auto simp: tx_side_def listen_turn_def output_turn_def after_output_def rbind_eq_Inr
      split: if_splits option.splits sum.splits\<close>)

lemma tx_side_run:
  "modem_run S p turns = Some (Inr q) \<Longrightarrow> tx_side S ramp enc n bytes_in p \<Longrightarrow>
    tx_side S ramp enc n (bytes_in @ modem_reads S p turns) q"
proof (induction turns arbitrary: p bytes_in)
  case (Cons turn turns)
  obtain v where v: "modem_step S p turn = Some (Inr v)" "modem_run S v turns = Some (Inr q)"
    using Cons.prems(1) by (auto split: option.splits sum.splits)
  show ?case using Cons.IH [OF v(2) tx_side_step [OF v(1) Cons.prems(2)]] v(1) by simp
qed simp

section \<open>From the radio to the clients\<close>

definition rx_side :: "'d process \<Rightarrow> bool" where
  "rx_side p \<longleftrightarrow> tout_queue (p_output p) = rx_queue (p_rx p)
    \<and> output_inv (map fst (filter snd (rx_offered (p_rx p)))) (p_output p)"

text \<open>The rounds of the output thread along a run, and the answers to all calls of \<open>send\<close>.\<close>

definition output_rounds :: "modem_turn list \<Rightarrow> output_answers list" where
  "output_rounds turns = concat (map (\<lambda>turn. case turn of Output_Turn a \<Rightarrow> [a] | _ \<Rightarrow> []) turns)"

definition send_calls :: "modem_turn list \<Rightarrow> (int \<Rightarrow> int list) list" where
  "send_calls turns = concat (map (\<lambda>turn. case turn of
     Output_Turn a \<Rightarrow> send_answers a | Leave _ writes \<Rightarrow> writes | _ \<Rightarrow> []) turns)"

lemma output_rounds_simps [simp]: "output_rounds [] = []" "send_calls [] = []"
  by (simp_all add: output_rounds_def send_calls_def)

text \<open>The clients of the output server, with what they were told.\<close>

definition rx_clients :: "int \<Rightarrow> modem_turn list \<Rightarrow> 'd process \<Rightarrow> bool" where
  "rx_clients listening turns p \<longleftrightarrow> removals_ok (send_calls turns) (tout_server (p_output p))
     \<and> (p_returned p \<or> tout_listen_fd (tout_server (p_output p)) = listening
          \<and> sockets (tout_server (p_output p)) = mset (concat (map (accepts listening) (output_rounds turns))))"

lemma rx_round_pushes:
  assumes "rx_round reset decode t heard = Inr u" "spsc_inv (rx_queue t)"
  shows "spsc_inv (rx_queue u) \<and> (\<exists>new. map fst (filter snd (rx_offered u)) = map fst (filter snd (rx_offered t)) @ new
    \<and> elements (rx_queue u) = elements (rx_queue t) @ new)"
  using assms ring.push_ok [OF assms(2)]
  by (auto simp: rx_round_def rbind_eq_Inr Let_def split: option.splits if_splits) (metis Pair_inject sum.inject(2))+

lemma rx_side_step:
  assumes step: "modem_step S p turn = Some (Inr q)" and inv: "rx_side p"
  shows "rx_side q"
proof (cases turn)
  case (Listen_Turn heard)
  then obtain r where r: "rx_round (sg_reset S) (sg_decode S) (p_rx p) heard = Inr r"
    "q = moved Rx_Worker At_Head (p\<lparr>p_rx := r, p_output := (p_output p)\<lparr>tout_queue := rx_queue r\<rparr>\<rparr>)"
    using step by (auto simp: listen_turn_def rbind_eq_Inr split: if_splits)
  show ?thesis using rx_round_pushes [OF r(1)] inv r(2) by (auto simp: rx_side_def output_inv_def)
next
  case (Output_Turn a)
  then obtain t where t: "drain ((p_output p)\<lparr>tout_server := accept_output (tout_server (p_output p)) (out_polled a) (out_readable a)
      (out_accepted a), tout_queue := tout_queue (p_output p)\<rparr>) (send_answers a) = Some (Inr t)"
    "q = moved Output_Worker At_Head (p\<lparr>p_output := t, p_rx := (p_rx p)\<lparr>rx_queue := tout_queue t\<rparr>\<rparr>)"
    using step by (auto simp: output_turn_def after_output_def output_round_def split: if_splits option.splits sum.splits)
  show ?thesis
    using drain_inv [OF t(1)] inv accept_output_served t(2) by (auto simp: rx_side_def output_inv_def)
next
  case (Leave w writes)
  show ?thesis
  proof (cases "w = Output_Worker")
    case True
    then obtain t where t: "drain (p_output p) writes = Some (Inr t)"
      "q = moved Output_Worker Left (p\<lparr>p_output := t, p_rx := (p_rx p)\<lparr>rx_queue := tout_queue t\<rparr>\<rparr>)"
      using step Leave by (auto simp: leave_def after_output_def split: if_splits option.splits sum.splits)
    show ?thesis using drain_inv [OF t(1)] inv t(2) by (auto simp: rx_side_def)
  next
    case False
    then show ?thesis
      using step inv Leave by (auto simp: leave_def rx_side_def split: if_splits sum.splits worker.splits)
  qed
next
  case Join
  then show ?thesis
    using step inv
    by (auto simp: stop_servers_def rx_side_def output_inv_def all_served_def tcp_output_stop_def Let_def split: if_splits)
qed (use step inv in \<open>auto simp: rx_side_def input_turn_def send_turn_def start_rx_def rbind_eq_Inr split: if_splits sum.splits\<close>)

lemma rx_side_run: "modem_run S p turns = Some (Inr q) \<Longrightarrow> rx_side p \<Longrightarrow> rx_side q"
proof (induction turns arbitrary: p)
  case (Cons turn turns)
  obtain v where v: "modem_step S p turn = Some (Inr v)" "modem_run S v turns = Some (Inr q)"
    using Cons.prems(1) by (auto split: option.splits sum.splits)
  show ?case using Cons.IH [OF v(2) rx_side_step [OF v(1) Cons.prems(2)]] .
qed simp

lemma rx_clients_step:
  assumes step: "modem_step S p turn = Some (Inr q)" and inv: "rx_clients listening turns p"
  shows "rx_clients listening (turns @ [turn]) q"
proof -
  have keep: "rx_clients listening (turns @ [turn]) q" if "tout_server (p_output q) = tout_server (p_output p)"
    "p_returned q = p_returned p" "output_rounds [turn] = []"
    using inv that removals_mono [of "send_calls turns" "tout_server (p_output p)" "send_calls (turns @ [turn])"]
    by (auto simp: rx_clients_def output_rounds_def send_calls_def)
  show ?thesis
  proof (cases turn)
    case (Output_Turn a)
    then obtain t where t: "output_round (p_output p) (a\<lparr>pushes := []\<rparr>) = Some (Inr t)"
      "q = moved Output_Worker At_Head (p\<lparr>p_output := t, p_rx := (p_rx p)\<lparr>rx_queue := tout_queue t\<rparr>\<rparr>)"
      using step by (auto simp: output_turn_def after_output_def split: if_splits option.splits sum.splits)
    have "accepts l (a\<lparr>pushes := []\<rparr>) = accepts l a" for l by (simp add: accepts_def)
    then show ?thesis
      using output_round_sockets [OF t(1), of "send_calls turns"] inv t(2) Output_Turn
      by (auto simp: rx_clients_def output_rounds_def send_calls_def)
  next
    case (Leave w writes)
    then have l: "leave p w writes = Inr q" using step by (auto split: if_splits)
    show ?thesis
    proof (cases "w = Output_Worker")
      case True
      then obtain t where t: "drain (p_output p) writes = Some (Inr t)"
        "q = moved Output_Worker Left (p\<lparr>p_output := t, p_rx := (p_rx p)\<lparr>rx_queue := tout_queue t\<rparr>\<rparr>)"
        using l by (auto simp: leave_def after_output_def split: option.splits sum.splits)
      show ?thesis using drain_sockets [OF t(1), of "send_calls turns"] inv t(2) Leave
        by (auto simp: rx_clients_def output_rounds_def send_calls_def)
    next
      case False
      then show ?thesis using l Leave
        by (intro keep) (auto simp: leave_def output_rounds_def split: if_splits sum.splits worker.splits)
    qed
  next
    case Join
    then show ?thesis
      using step inv
      by (auto simp: stop_servers_def rx_clients_def output_rounds_def send_calls_def removals_ok_def tcp_output_stop_def
          Let_def split: if_splits)
  qed (insert step, (rule keep; auto simp: input_turn_def send_turn_def listen_turn_def start_rx_def rbind_eq_Inr
      output_rounds_def split: if_splits sum.splits))+
qed

lemma rx_clients_run:
  "modem_run S p later = Some (Inr q) \<Longrightarrow> rx_clients listening turns p \<Longrightarrow> rx_clients listening (turns @ later) q"
proof (induction later arbitrary: p turns)
  case (Cons turn later)
  obtain v where v: "modem_step S p turn = Some (Inr v)" "modem_run S v later = Some (Inr q)"
    using Cons.prems(1) by (auto split: option.splits sum.splits)
  show ?case using Cons.IH [OF v(2) rx_clients_step [OF v(1) Cons.prems(2)]] by simp
qed simp

section \<open>Properties\<close>

text \<open>C4. The transmit path as a whole: in every run of the process, its shutdown included, every byte
  read from the clients is, in order, in a chunk offered to the queue or still waiting; the
  chunks that found room are those transmitted and those still queued, in order; and the antenna has
  been given exactly one burst for each transmitted chunk and nothing else.\<close>

theorem transmit_path:
  assumes "modem_run S (new_process enc r ramp dec tin tout now) turns = Some (Inr q)"
    and "encoder_ok enc" "radio_ready r" "tx_chunks r = []" "ramp < 2 ^ 31" "tin_buffer tin = []" "0 < tin_frame_size tin"
  shows "(p_returned q \<or> concat (map fst (offered (p_input q))) @ tin_buffer (tin_server (p_input q))
        = modem_reads S (new_process enc r ramp dec tin tout now) turns)
    \<and> (\<forall>(chunk, pushed) \<in> set (offered (p_input q)). chunk \<noteq> [] \<and> length chunk \<le> tin_frame_size tin)
    \<and> map fst (filter snd (offered (p_input q))) = tx_popped (p_tx q) @ elements (tx_queue (p_tx q))
    \<and> on_antenna (tx_chunks (tx_radio (p_tx q))) = concat (bursts (sg_shape S) (sg_scale S) ramp enc (tx_popped (p_tx q)))
    \<and> length (bursts (sg_shape S) (sg_scale S) ramp enc (tx_popped (p_tx q))) = length (tx_popped (p_tx q))"
proof -
  let ?p = "new_process enc r ramp dec tin tout now"
  have "tx_side S ramp enc (tin_frame_size tin) [] ?p"
    using assms(2-7) by (simp add: tx_side_def tx_sent_def new_process_def new_input_thread_def queued_def spsc_inv_new
        chunks_ok_def stream_of_def on_antenna_def)
  from tx_side_run [OF assms(1) this] show ?thesis
    by (auto simp: tx_side_def tx_sent_def queued_def chunks_ok_def stream_of_def split: if_splits)
qed

text \<open>A decoder that finds the byte 7 in every buffer.\<close>

definition sample_signal :: "unit signal" where
  "sample_signal = \<lparr>sg_shape = (\<lambda>ss. ss), sg_scale = (\<lambda>i n s. s), sg_reset = (\<lambda>d. d), sg_decode = (\<lambda>d _. Inr (Some [7], d))\<rparr>"

definition sample_input :: tcp_input where
  "sample_input = (new_tcp_input 1)\<lparr>tin_listen_fd := 3, tin_client_fd := 4\<rparr>"

definition sample_process :: "unit process" where
  "sample_process = new_process (tx_encoder sample_tx) (tx_radio sample_tx) 32 ()
     sample_input (new_tcp_output\<lparr>tout_listen_fd := 5\<rparr>) 0"

lemma sample_read:
  obtains i where "input_round (new_input_thread sample_input (new_spsc 64 []) 0) (answers False True (Received [7])) 0 0 = Inr i"
    "spsc_inv (tin_queue i)" "elements (tin_queue i) = [[7]]"
proof -
  obtain i where i: "input_round (new_input_thread sample_input (new_spsc 64 []) 0) (answers False True (Received [7])) 0 0 = Inr i"
    "map fst (filter snd (offered i)) = [[7]]"
  proof -
    let ?r = "input_round (new_input_thread sample_input (new_spsc 64 []) 0) (answers False True (Received [7])) 0 0"
    have "case ?r of Inr i \<Rightarrow> map fst (filter snd (offered i)) = [[7]] | Inl _ \<Rightarrow> False" by code_simp
    then show thesis using that by (cases ?r) simp_all
  qed
  moreover have "queued [] (new_input_thread sample_input (new_spsc 64 []) 0)"
    by (simp add: queued_def new_input_thread_def spsc_inv_new)
  ultimately show thesis using that [of i] input_round_queued [OF i(1)] by (auto simp: queued_def)
qed

theorem transmit_path_witness:
  "\<exists>q. modem_run sample_signal sample_process
      [Enter Input_Worker, Input_Turn (answers False True (Received [7])) 0 0, Enter Tx_Worker, Send_Turn [100000]] = Some (Inr q)
    \<and> on_antenna (tx_chunks (tx_radio (p_tx q))) = concat (bursts (\<lambda>ss. ss) (\<lambda>i n s. s) 32 (tx_encoder sample_tx) [[7]])
    \<and> length (bursts (\<lambda>ss. ss) (\<lambda>i n s. s) 32 (tx_encoder sample_tx) [[7]]) = 1"
proof -
  obtain i where i: "input_round (new_input_thread sample_input (new_spsc 64 []) 0) (answers False True (Received [7])) 0 0 = Inr i"
    "spsc_inv (tin_queue i)" "elements (tin_queue i) = [[7]]" by (rule sample_read)
  obtain u where u: "tx_round (\<lambda>ss. ss) (\<lambda>i n s. s) (sample_tx\<lparr>tx_queue := tin_queue i\<rparr>) [100000] = Inr u" "tx_popped u = [[7]]"
    by (rule sample_tx_round [OF i(2,3)])
  have t: "\<lparr>tx_encoder = tx_encoder sample_tx, tx_queue = q, tx_radio = tx_radio sample_tx, tx_ramp = 32, tx_popped = []\<rparr>
      = sample_tx\<lparr>tx_queue := q\<rparr>" for q
    by (simp add: sample_tx_def)
  let ?turns = "[Enter Input_Worker, Input_Turn (answers False True (Received [7])) 0 0, Enter Tx_Worker, Send_Turn [100000]]"
  obtain q where q: "modem_run sample_signal sample_process ?turns = Some (Inr q)" "tx_popped (p_tx q) = [[7]]"
    using i(1) u by (simp add: sample_process_def new_process_def t input_turn_def send_turn_def sample_signal_def moved_def)
  have "tin_buffer sample_input = []" "0 < tin_frame_size sample_input" "(32 :: nat) < 2 ^ 31"
    by (simp_all add: sample_input_def new_tcp_input_def)
  from transmit_path [OF q(1) [unfolded sample_process_def] sample_tx_ok(1,3,6) this(3,1,2)] show ?thesis
    using q by (intro exI [of _ q]) (simp add: sample_signal_def)
qed

text \<open>C5. The receive path as a whole: in every run the decoded payloads that found room in the queue
  are those taken by the output and those still queued, in order; every client that is connected has
  been sent exactly the payloads taken after it was accepted, a removed one a beginning of that;
  only a client with a failed \<open>send\<close> was removed, and until \<open>main\<close> has stopped the
  server every client accepted is connected or removed.\<close>

theorem receive_path:
  assumes "modem_run S (new_process enc r ramp dec tin tout now) turns = Some (Inr q)"
    and "tout_clients tout = []" "tout_removed tout = []" "tout_log tout = []"
  shows "map fst (filter snd (rx_offered (p_rx q))) = popped (p_output q) @ elements (rx_queue (p_rx q))
    \<and> (\<forall>c \<in> set (tout_clients (tout_server (p_output q))).
        client_stream c = concat (drop (client_since c) (popped (p_output q))))
    \<and> (\<forall>c \<in> set (tout_removed (tout_server (p_output q))).
        prefix (client_stream c) (concat (drop (client_since c) (popped (p_output q))))
        \<and> send_failed (send_calls turns) (client_fd c))
    \<and> tout_log (tout_server (p_output q)) = popped (p_output q)
    \<and> (p_returned q \<or> mset (map client_fd (tout_removed (tout_server (p_output q)) @ tout_clients (tout_server (p_output q))))
        = mset (concat (map (accepts (tout_listen_fd tout)) (output_rounds turns))))"
proof -
  let ?p = "new_process enc r ramp dec tin tout now"
  have "rx_side ?p"
    using assms(2-4) by (simp add: rx_side_def output_inv_def new_process_def new_rx_thread_def spsc_inv_new all_served_def)
  moreover have "rx_clients (tout_listen_fd tout) [] ?p"
    using assms(2,3) by (simp add: rx_clients_def new_process_def removals_ok_def sockets_def)
  ultimately show ?thesis
    using rx_side_run [OF assms(1)] rx_clients_run [OF assms(1), of "tout_listen_fd tout" "[]"]
    by (auto simp: rx_side_def output_inv_def all_served_def served_def broke_off_def rx_clients_def removals_ok_def sockets_def)
qed

text \<open>A client joins, a buffer is heard and decoded, and the payload is written to the client.\<close>

definition one_client :: output_answers where
  "one_client = \<lparr>pushes = [], out_polled = Poll_Ready, out_readable = True, out_accepted = (6, ''a'', 1), send_answers = []\<rparr>"

definition one_write :: output_answers where
  "one_write = \<lparr>pushes = [], out_polled = Poll_Timeout, out_readable = False, out_accepted = (-1, [], 0), send_answers = [\<lambda>_. [100]]\<rparr>"

lemma sample_listen:
  assumes "length samples = 16384"
  obtains q where "rx_round (\<lambda>d. d) (\<lambda>d _. Inr (Some [7], d)) (new_rx_thread ()) (Some samples)
      = Inr ((new_rx_thread ())\<lparr>rx_queue := q, rx_offered := [([7], True)], rx_attempts := [samples]\<rparr>)"
    "spsc_inv q" "elements q = [[7]]"
proof -
  have "samples \<noteq> []" using assms by auto
  obtain q where q: "try_push (new_spsc 64 []) [7 :: u8] = Inr (True, q)" "spsc_inv q" "elements q = [[7]]"
    using ring.push_ok [of "new_spsc 64 []" "[7 :: u8]"] by (auto simp: new_spsc_def elements_def queue_size_def spsc_inv_new [unfolded new_spsc_def])
  show thesis
    using that [of q] q assms \<open>samples \<noteq> []\<close>
    by (simp add: rx_round_def new_rx_thread_def MIN_DECODE_SAMPLES_def Let_def)
qed

theorem receive_path_witness:
  "\<exists>q c samples. modem_run sample_signal sample_process
      [Start_Rx, Enter Output_Worker, Output_Turn one_client, Enter Rx_Worker, Listen_Turn (Some samples),
       Enter Output_Worker, Output_Turn one_write] = Some (Inr q)
    \<and> tout_clients (tout_server (p_output q)) = [c] \<and> client_fd c = 6 \<and> client_stream c = [7] \<and> popped (p_output q) = [[7]]
    \<and> mset (map client_fd (tout_removed (tout_server (p_output q)))) = {#}"
proof -
  define samples :: "sample list" where "samples = replicate 16384 (Finite 0, Finite 0)"
  have "length samples = 16384" by (simp only: samples_def length_replicate)
  then obtain h where h: "rx_round (\<lambda>d. d) (\<lambda>d _. Inr (Some [7], d)) (new_rx_thread ()) (Some samples)
      = Inr ((new_rx_thread ())\<lparr>rx_queue := h, rx_offered := [([7], True)], rx_attempts := [samples]\<rparr>)"
    "spsc_inv h" "elements h = [[7]]" by (rule sample_listen)
  let ?turns = "[Start_Rx, Enter Output_Worker, Output_Turn one_client, Enter Rx_Worker, Listen_Turn (Some samples),
       Enter Output_Worker, Output_Turn one_write]"
  have "spsc_inv (new_spsc 64 [] :: bytes spsc)" by (simp add: spsc_inv_new)
  from ring.pop_ok [OF this] obtain v where e: "try_pop (new_spsc 64 [] :: bytes spsc) = Inr (None, v)"
    by (auto simp: spsc_inv_new)
  obtain g where g: "try_pop h = Inr (Some [7], g)" "spsc_inv g" "elements g = []" using ring.pop_ok [OF h(2)] h(3) by auto
  obtain w where w: "try_pop g = Inr (None, w)" using ring.pop_ok [OF g(2)] g(3) by auto
  have n: "(new_rx_thread ())\<lparr>rx_queue := new_spsc 64 []\<rparr> = new_rx_thread ()" by (simp add: new_rx_thread_def)
  obtain q c where q: "modem_run sample_signal sample_process ?turns = Some (Inr q)" "tout_clients (tout_server (p_output q)) = [c]"
    "client_since c = 0" "client_fd c = 6" "popped (p_output q) = [[7]]"
    using h(1) by (simp add: sample_process_def new_process_def n start_rx_def start_rx_stream_def sample_tx_def moved_def sample_signal_def
        listen_turn_def output_turn_def output_round_def one_client_def one_write_def accept_output_def new_tcp_output_def
        drain.simps [of t for t] e g(1) w after_output_def write_to_all_def send_result_def Let_def)
  have "tout_clients (new_tcp_output\<lparr>tout_listen_fd := 5\<rparr>) = []" "tout_removed (new_tcp_output\<lparr>tout_listen_fd := 5\<rparr>) = []"
    "tout_log (new_tcp_output\<lparr>tout_listen_fd := 5\<rparr>) = []"
    by (simp_all add: new_tcp_output_def)
  note t = receive_path [OF q(1) [unfolded sample_process_def] this]
  have "set (tout_removed (tout_server (p_output q))) = {}"
    using t by (auto simp: send_failed_def send_calls_def one_client_def one_write_def)
  then show ?thesis using t q by (intro exI [of _ q] exI [of _ c] exI [of _ samples]) simp
qed

section \<open>Shutdown\<close>

text \<open>The output thread drains the queue when it leaves, but the receive thread may still be in a round: what
  it decodes then stays in the queue for ever.\<close>

lemma shutdown_loses_payload:
  assumes "in_phase p Rx_Worker In_Round" "in_phase p Output_Worker At_Head" "in_phase p Input_Worker Left" "in_phase p Tx_Worker Left"
    and "p_running p" "\<not> p_returned p" "elements (rx_queue (p_rx p)) = []" "rx_side p" "capacity (rx_queue (p_rx p)) = 64"
    and "rx_round (sg_reset S) (sg_decode S) (p_rx p) (Some samples) = Inr r"
      "map fst (filter snd (rx_offered r)) = map fst (filter snd (rx_offered (p_rx p))) @ [data]"
  shows "\<exists>q. modem_run S p [Signal, Leave Output_Worker [], Listen_Turn (Some samples), Leave Rx_Worker [], Join] = Some (Inr q)
    \<and> p_returned q \<and> data \<in> set (elements (rx_queue (p_rx q))) \<and> popped (p_output q) = popped (p_output p)"
proof -
  have q: "tout_queue (p_output p) = rx_queue (p_rx p)" "spsc_inv (rx_queue (p_rx p))"
    using assms(8) by (auto simp: rx_side_def output_inv_def)
  obtain q' where "try_pop (rx_queue (p_rx p)) = Inr (None, q')" using ring.pop_ok [OF q(2)] assms(7) by auto
  then have d: "drain (p_output p) [] = Some (Inr (p_output p))" using q(1) by (simp add: drain.simps [of "p_output p"])
  have e: "elements (rx_queue r) = [data]"
    using rx_round_pushes [OF assms(10) q(2)] assms(7,11) by auto
  have same: "(p_rx p)\<lparr>rx_queue := rx_queue (p_rx p)\<rparr> = p_rx p" by simp
  show ?thesis
    using assms(1-6,10) d e same q(1)
    by (cases "stop_rx_stream (tx_radio (p_tx p))")
      (simp_all add: leave_def after_output_def listen_turn_def stop_servers_def moved_def)
qed

end
