(* ===== verification/Arith.thy ===== *)
theory Arith
  imports Prelude Ieee
begin

text \<open>
  The floating-point arithmetic of the signal processing as a parameter: the rounded operations of
  the two widths, the functions of the mathematical library, and the products of complex numbers,
  whose rounding and treatment of NaNs the compiler chooses. What is exact is defined: changing the sign, the
  componentwise operations, comparisons and constants.
\<close>

type_synonym complex_float = "ieee \<times> ieee"

record arith =
  fadd :: "ieee \<Rightarrow> ieee \<Rightarrow> ieee"     \<comment> \<open>\<open>float\<close>\<close>
  fsub :: "ieee \<Rightarrow> ieee \<Rightarrow> ieee"
  fmul :: "ieee \<Rightarrow> ieee \<Rightarrow> ieee"
  fdiv :: "ieee \<Rightarrow> ieee \<Rightarrow> ieee"
  fsqrt :: "ieee \<Rightarrow> ieee"
  float_of :: "nat \<Rightarrow> ieee"
  dadd :: "ieee \<Rightarrow> ieee \<Rightarrow> ieee"     \<comment> \<open>\<open>double\<close>\<close>
  dsub :: "ieee \<Rightarrow> ieee \<Rightarrow> ieee"
  dmul :: "ieee \<Rightarrow> ieee \<Rightarrow> ieee"
  ddiv :: "ieee \<Rightarrow> ieee \<Rightarrow> ieee"
  dsqrt :: "ieee \<Rightarrow> ieee"
  dsin :: "ieee \<Rightarrow> ieee"
  dcos :: "ieee \<Rightarrow> ieee"
  dpow :: "ieee \<Rightarrow> ieee \<Rightarrow> ieee"
  double_of :: "nat \<Rightarrow> ieee"
  to_float :: "ieee \<Rightarrow> ieee"
  cmul :: "complex_float \<Rightarrow> complex_float \<Rightarrow> complex_float"
  cabs :: "complex_float \<Rightarrow> ieee"
  cnorm :: "complex_float \<Rightarrow> ieee"

fun ieee_neg :: "ieee \<Rightarrow> ieee" where
  "ieee_neg (Finite x) = (if x = 0 then Minus_Zero else Finite (- x))"
| "ieee_neg Minus_Zero = Finite 0"
| "ieee_neg (Infinite negative) = Infinite (\<not> negative)"
| "ieee_neg NaN = NaN"

definition ieee_abs :: "ieee \<Rightarrow> ieee" where
  "ieee_abs x = (case x of Finite q \<Rightarrow> Finite (abs q) | Minus_Zero \<Rightarrow> Finite 0 | Infinite _ \<Rightarrow> Infinite False | NaN \<Rightarrow> NaN)"

definition cadd :: "arith \<Rightarrow> complex_float \<Rightarrow> complex_float \<Rightarrow> complex_float" where
  "cadd A x y = (fadd A (fst x) (fst y), fadd A (snd x) (snd y))"

definition csub :: "arith \<Rightarrow> complex_float \<Rightarrow> complex_float \<Rightarrow> complex_float" where
  "csub A x y = (fsub A (fst x) (fst y), fsub A (snd x) (snd y))"

definition cscale :: "arith \<Rightarrow> complex_float \<Rightarrow> ieee \<Rightarrow> complex_float" where
  "cscale A x t = (fmul A (fst x) t, fmul A (snd x) t)"

definition cdiv :: "arith \<Rightarrow> complex_float \<Rightarrow> ieee \<Rightarrow> complex_float" where
  "cdiv A x t = (fdiv A (fst x) t, fdiv A (snd x) t)"

definition conj_of :: "complex_float \<Rightarrow> complex_float" where
  "conj_of x = (fst x, ieee_neg (snd x))"

definition zero :: complex_float where
  "zero = (Finite 0, Finite 0)"

definition PI :: rat where "PI = 884279719003555 / 281474976710656"   \<comment> \<open>\<open>M_PI\<close>\<close>

end
