(* ===== verification/Dsp.thy ===== *)
theory Dsp
  imports Modem Arith
begin

text \<open>
  The signal processing of the modem over an arithmetic: the pulse shaper, the carrier and the timing
  synchroniser, the preamble search and the phase correction (\<^verbatim>\<open>src/pulse_shaper.cpp\<close>,
  \<^verbatim>\<open>src/carrier_sync.cpp\<close>, \<^verbatim>\<open>src/timing_recovery.cpp\<close>, \<^verbatim>\<open>src/frame_sync.cpp\<close>
  and the helpers of \<^verbatim>\<open>src/decoder.cpp\<close>). A loop whose end depends on rounding may not
  return: \<open>None\<close>.
\<close>

section \<open>Pulse shaper\<close>

record pulse_shaper =
  shaper_sps :: nat
  rrc_taps :: "ieee list"

text \<open>One tap of the root-raised-cosine filter; near a zero of the denominator it averages its two
  neighbours.\<close>

definition rrc_critical :: "arith \<Rightarrow> ieee \<Rightarrow> ieee \<Rightarrow> bool" where
  "rrc_critical A t alpha \<longleftrightarrow>
    ieee_less (Finite (4951760157141521 / 4951760157141521099596496896)) alpha   \<comment> \<open>\<open>1e-12\<close>\<close>
    \<and> ieee_less (ieee_abs (dsub A (ieee_abs t) (ddiv A (Finite 1) (dmul A (Finite 4) alpha))))
        (Finite (3022314549036573 / 302231454903657293676544))"                    \<comment> \<open>\<open>1e-8\<close>\<close>

definition rrc_critical_value :: "arith \<Rightarrow> ieee \<Rightarrow> ieee" where
  "rrc_critical_value A alpha =
    (let pi = Finite PI; q = ddiv A pi (dmul A (Finite 4) alpha); two_over_pi = ddiv A (Finite 2) pi in
     dmul A (ddiv A alpha (dsqrt A (Finite 2)))
       (dadd A (dmul A (dadd A (Finite 1) two_over_pi) (dsin A q))
               (dmul A (dsub A (Finite 1) two_over_pi) (dcos A q))))"

definition rrc_numerator :: "arith \<Rightarrow> ieee \<Rightarrow> ieee \<Rightarrow> ieee" where
  "rrc_numerator A t alpha =
    (let pi_t = dmul A (Finite PI) t in
     dadd A (dsin A (dmul A pi_t (dsub A (Finite 1) alpha)))
            (dmul A (dmul A (dmul A (Finite 4) alpha) t) (dcos A (dmul A pi_t (dadd A (Finite 1) alpha)))))"

definition rrc_denominator :: "arith \<Rightarrow> ieee \<Rightarrow> ieee \<Rightarrow> ieee" where
  "rrc_denominator A t alpha =
    dmul A (dmul A (Finite PI) t)
      (dsub A (Finite 1) (dpow A (dmul A (dmul A (Finite 4) alpha) t) (Finite 2)))"

partial_function (option) rrc_tap :: "arith \<Rightarrow> ieee \<Rightarrow> ieee \<Rightarrow> ieee option" where
  "rrc_tap A t alpha =
    (if ieee_less (ieee_abs t) (Finite (4951760157141521 / 4951760157141521099596496896)) then
       Some (dadd A (dsub A (Finite 1) alpha) (ddiv A (dmul A (Finite 4) alpha) (Finite PI)))
     else if rrc_critical A t alpha then Some (rrc_critical_value A alpha)
     else if ieee_less (ieee_abs (rrc_denominator A t alpha)) (Finite (2535301200456459 / 2535301200456458802993406410752)) then
       Option.bind (rrc_tap A (dadd A t (Finite (4722366482869645 / 4722366482869645213696))) alpha) (\<lambda>a.
       Option.bind (rrc_tap A (dsub A t (Finite (4722366482869645 / 4722366482869645213696))) alpha) (\<lambda>b.
       Some (dmul A (Finite (1 / 2)) (dadd A a b))))
     else Some (ddiv A (rrc_numerator A t alpha) (rrc_denominator A t alpha)))"

text \<open>The taps, in order, until one does not return.\<close>

fun taps_from :: "arith \<Rightarrow> ieee \<Rightarrow> nat \<Rightarrow> ieee \<Rightarrow> nat list \<Rightarrow> ieee list option" where
  "taps_from A rolloff sps centre [] = Some []"
| "taps_from A rolloff sps centre (i # is) =
    Option.bind (rrc_tap A (ddiv A (dsub A (double_of A i) centre) (double_of A sps)) rolloff) (\<lambda>tap.
    Option.bind (taps_from A rolloff sps centre is) (\<lambda>taps. Some (to_float A tap # taps)))"

definition normalise :: "arith \<Rightarrow> ieee list \<Rightarrow> ieee list" where
  "normalise A taps =
    (let energy = foldl (\<lambda>e tap. dadd A e (dmul A tap tap)) (Finite 0) taps in
     if ieee_less (Finite 0) energy then
       let scale = to_float A (ddiv A (Finite 1) (dsqrt A energy)) in map (\<lambda>tap. fmul A tap scale) taps
     else taps)"

definition new_pulse_shaper :: "arith \<Rightarrow> ieee \<Rightarrow> int \<Rightarrow> int \<Rightarrow> pulse_shaper res option" where
  "new_pulse_shaper A rolloff sps num_taps =
    (if ieee_le rolloff (Finite 0) \<or> ieee_less (Finite 1) rolloff then Some (Inl Invalid_Argument)
     else if sps < 1 then Some (Inl Invalid_Argument)
     else if num_taps < 1 then Some (Inl Invalid_Argument)
     else
       let centre = ddiv A (double_of A (nat (num_taps - 1))) (Finite 2) in
       Option.bind (taps_from A rolloff (nat sps) centre [0 ..< nat num_taps]) (\<lambda>taps.
       Some (Inr \<lparr>shaper_sps = nat sps, rrc_taps = normalise A taps\<rparr>)))"

definition upsample :: "nat \<Rightarrow> symbol list \<Rightarrow> symbol list" where
  "upsample sps symbols = concat (map (\<lambda>s. s # replicate (sps - 1) zero) symbols)"

text \<open>One output of the filter, added up in the order of the taps.\<close>

definition filter_at :: "arith \<Rightarrow> ieee list \<Rightarrow> symbol list \<Rightarrow> nat \<Rightarrow> symbol" where
  "filter_at A taps xs n =
    foldl (\<lambda>sum k. if k \<le> n \<and> n - k < length xs then cadd A sum (cscale A (xs ! (n - k)) (taps ! k)) else sum)
      zero [0 ..< length taps]"

definition convolve :: "arith \<Rightarrow> ieee list \<Rightarrow> symbol list \<Rightarrow> symbol list" where
  "convolve A taps xs = map (filter_at A taps xs) [0 ..< length xs + length taps - 1]"

definition shape :: "arith \<Rightarrow> pulse_shaper \<Rightarrow> symbol list \<Rightarrow> symbol list" where
  "shape A p symbols = (if symbols = [] then [] else convolve A (rrc_taps p) (upsample (shaper_sps p) symbols))"

definition matched_filter :: "arith \<Rightarrow> pulse_shaper \<Rightarrow> symbol list \<Rightarrow> symbol list" where
  "matched_filter A p samples = (if samples = [] then [] else convolve A (rrc_taps p) samples)"

section \<open>Carrier synchroniser\<close>

record carrier =
  carrier_phase :: ieee
  carrier_freq :: ieee
  loop_alpha :: ieee
  loop_beta :: ieee

definition new_carrier :: "arith \<Rightarrow> ieee \<Rightarrow> carrier res" where
  "new_carrier A loop_bw =
    (if ieee_le loop_bw (Finite 0) \<or> ieee_le (Finite 1) loop_bw then Inl Invalid_Argument
     else
       let damping = ddiv A (Finite 1) (dsqrt A (Finite 2));
           theta = ddiv A loop_bw (dadd A damping (ddiv A (Finite 1) (dmul A (Finite 4) damping)));
           d = dadd A (dadd A (Finite 1) (dmul A (dmul A (Finite 2) damping) theta)) (dmul A theta theta)
       in Inr \<lparr>carrier_phase = Finite 0, carrier_freq = Finite 0,
               loop_alpha = ddiv A (dmul A (dmul A (Finite 4) damping) theta) d,
               loop_beta = ddiv A (dmul A (dmul A (Finite 4) theta) theta) d\<rparr>)"

definition sign_of_float :: "ieee \<Rightarrow> ieee" where
  "sign_of_float x = (if ieee_le (Finite 0) x then Finite 1 else Finite (-1))"

partial_function (option) wrap_down :: "arith \<Rightarrow> ieee \<Rightarrow> ieee option" where
  "wrap_down A phase =
    (if ieee_less (Finite PI) phase then wrap_down A (dsub A phase (Finite (2 * PI))) else Some phase)"

partial_function (option) wrap_up :: "arith \<Rightarrow> ieee \<Rightarrow> ieee option" where
  "wrap_up A phase =
    (if ieee_less phase (Finite (- PI)) then wrap_up A (dadd A phase (Finite (2 * PI))) else Some phase)"

definition carrier_step :: "arith \<Rightarrow> carrier \<Rightarrow> symbol \<Rightarrow> (symbol \<times> carrier) option" where
  "carrier_step A c sample =
    (let minus_phase = ieee_neg (carrier_phase c);
         rotator = (to_float A (dcos A minus_phase), to_float A (dsin A minus_phase));
         corrected = cmul A sample rotator;
         (i, q) = corrected;
         error = fsub A (fmul A (sign_of_float q) i) (fmul A (sign_of_float i) q);
         freq = dsub A (carrier_freq c) (dmul A (loop_beta c) error);
         phase = dadd A (dsub A (carrier_phase c) (dmul A (loop_alpha c) error)) freq
     in Option.bind (wrap_down A phase) (\<lambda>phase.
        Option.bind (wrap_up A phase) (\<lambda>phase.
        Some (corrected, c\<lparr>carrier_phase := phase, carrier_freq := freq\<rparr>))))"

fun synchronize :: "arith \<Rightarrow> carrier \<Rightarrow> symbol list \<Rightarrow> (symbol list \<times> carrier) option" where
  "synchronize A c [] = Some ([], c)"
| "synchronize A c (sample # samples) =
    Option.bind (carrier_step A c sample) (\<lambda>(corrected, c).
    Option.bind (synchronize A c samples) (\<lambda>(out, c). Some (corrected # out, c)))"

definition carrier_reset :: "carrier \<Rightarrow> carrier" where
  "carrier_reset c = c\<lparr>carrier_phase := Finite 0, carrier_freq := Finite 0\<rparr>"

section \<open>Timing recovery\<close>

record timing =
  timing_mu :: ieee
  gain_mu :: ieee
  gain_omega :: ieee
  timing_omega :: ieee
  timing_sps :: nat
  prev_sample :: symbol
  prev_decision :: symbol

definition new_timing :: "arith \<Rightarrow> int \<Rightarrow> ieee \<Rightarrow> timing res" where
  "new_timing A sps g =
    (if sps < 2 then Inl Invalid_Argument
     else if ieee_le g (Finite 0) \<or> ieee_le (Finite 1) g then Inl Invalid_Argument
     else Inr \<lparr>timing_mu = Finite 0, gain_mu = g, gain_omega = dmul A (dmul A (Finite (1 / 4)) g) g,
            timing_omega = double_of A (nat sps), timing_sps = nat sps, prev_sample = zero, prev_decision = zero\<rparr>)"

definition qpsk_decision :: "symbol \<Rightarrow> symbol" where
  "qpsk_decision s =
    (let half = (\<lambda>x. if ieee_le (Finite 0) x then Finite sqrt_half else Finite (- sqrt_half)) in (half (fst s), half (snd s)))"

definition interpolate :: "arith \<Rightarrow> symbol \<Rightarrow> symbol \<Rightarrow> ieee \<Rightarrow> symbol" where
  "interpolate A a b mu = cadd A a (cscale A (csub A b a) mu)"

text \<open>The conversion of a \<open>double\<close> to \<open>size_t\<close> cuts off the fraction; outside the range of the type it is
  undefined.\<close>

definition to_index :: "ieee \<Rightarrow> nat res" where
  "to_index x =
    (case x of
       Finite q \<Rightarrow> if q \<le> -1 \<or> 2 ^ 64 \<le> q then Inl Undefined_Behaviour else Inr (nat \<lfloor>q\<rfloor>)
     | Minus_Zero \<Rightarrow> Inr 0
     | _ \<Rightarrow> Inl Undefined_Behaviour)"

definition clamp_omega :: "arith \<Rightarrow> nat \<Rightarrow> ieee \<Rightarrow> ieee" where
  "clamp_omega A sps omega =
    (let lo = dmul A (double_of A sps) (Finite (1 / 2)); hi = dmul A (double_of A sps) (Finite (3 / 2));
         omega = (if ieee_less omega lo then lo else omega)
     in if ieee_less hi omega then hi else omega)"

text \<open>One step: the symbol at the fractional index, the detector, the loop filter and the next index.\<close>

definition timing_step :: "arith \<Rightarrow> timing \<Rightarrow> symbol \<Rightarrow> symbol \<Rightarrow> ieee \<Rightarrow> ieee \<Rightarrow> symbol \<times> timing \<times> ieee" where
  "timing_step A t a b fraction index =
    (let current_sample = interpolate A a b fraction;
         current_decision = qpsk_decision current_sample;
         error = fst (csub A (cmul A (prev_decision t) (conj_of current_sample))
                             (cmul A current_decision (conj_of (prev_sample t))));
         mu = dadd A (timing_mu t) (dmul A (gain_mu t) error);
         omega = clamp_omega A (timing_sps t) (dadd A (timing_omega t) (dmul A (gain_omega t) error))
     in (current_sample,
         t\<lparr>timing_mu := Finite 0, timing_omega := omega, prev_sample := current_sample, prev_decision := current_decision\<rparr>,
         dadd A index (dadd A omega mu)))"

partial_function (option) recover_loop ::
  "arith \<Rightarrow> timing \<Rightarrow> symbol list \<Rightarrow> ieee \<Rightarrow> symbol list \<Rightarrow> (symbol list \<times> timing) res option" where
  "recover_loop A t samples index out =
    (if ieee_less (dadd A index (Finite 1)) (double_of A (length samples)) then
       (case to_index index of
          Inl e \<Rightarrow> Some (Inl e)
        | Inr i \<Rightarrow>
            let fraction = to_float A (dsub A index (double_of A i)) in
            if length samples \<le> i + 1 then Some (Inr (out, t))
            else
              let (sym, t, index) = timing_step A t (samples ! i) (samples ! (i + 1)) fraction index in
              recover_loop A t samples index (out @ [sym]))
     else Some (Inr (out, t)))"

definition recover_symbols :: "arith \<Rightarrow> timing \<Rightarrow> symbol list \<Rightarrow> (symbol list \<times> timing) res option" where
  "recover_symbols A t samples = (if samples = [] then Some (Inr ([], t)) else recover_loop A t samples (Finite 0) [])"

definition timing_reset :: "arith \<Rightarrow> timing \<Rightarrow> timing" where
  "timing_reset A t = t\<lparr>timing_mu := Finite 0, timing_omega := double_of A (timing_sps t), prev_sample := zero, prev_decision := zero\<rparr>"

section \<open>Preamble search\<close>

definition preamble_energy :: "arith \<Rightarrow> symbol list \<Rightarrow> ieee" where
  "preamble_energy A reference = foldl (\<lambda>e s. fadd A e (cnorm A s)) (Finite 0) reference"

text \<open>The normalised correlation with the symbols from one position on; none where both are too
  weak to divide by.\<close>

definition correlation :: "arith \<Rightarrow> symbol list \<Rightarrow> symbol list \<Rightarrow> ieee option" where
  "correlation A reference window =
    (let corr = foldl (\<lambda>c (s, p). cadd A c (cmul A s (conj_of p))) zero (zip window reference);
         signal_energy = foldl (\<lambda>e s. fadd A e (cnorm A s)) (Finite 0) window;
         denom = fsqrt A (fmul A (preamble_energy A reference) signal_energy)
     in if ieee_less denom (Finite (2305843 / 2305843009213693952)) then None   \<comment> \<open>\<open>1e-12f\<close>\<close>
        else Some (fdiv A (cabs A corr) denom))"

definition found_at :: "arith \<Rightarrow> ieee \<Rightarrow> symbol list \<Rightarrow> symbol list \<Rightarrow> nat \<Rightarrow> bool" where
  "found_at A threshold reference symbols i =
    (case correlation A reference (take (length reference) (drop i symbols)) of
       None \<Rightarrow> False
     | Some normalized \<Rightarrow> ieee_le threshold normalized)"

definition detect :: "arith \<Rightarrow> ieee \<Rightarrow> symbol list \<Rightarrow> symbol list \<Rightarrow> nat option" where
  "detect A threshold reference symbols =
    (let plen = length reference in
     if length symbols < plen \<or> plen = 0 then None
     else map_option (\<lambda>i. i + plen) (List.find (found_at A threshold reference symbols) [0 ..< length symbols - plen + 1]))"

lemma find_upt_Some:
  "List.find P [0 ..< n] = Some i \<longleftrightarrow> i < n \<and> P i \<and> (\<forall>j < i. \<not> P j)"
  by (auto simp: find_Some_iff simp del: upt_Suc)

text \<open>A hit needs all the symbols of the preamble, so the search never answers with a position
  outside its input.\<close>

lemma detect_in_range: "detect A threshold reference symbols = Some n \<Longrightarrow> n \<le> length symbols"
  by (auto simp: detect_def Let_def find_upt_Some simp del: upt_Suc split: if_splits)

lemma detect_after_preamble: "detect A threshold reference symbols = Some n \<Longrightarrow> length reference \<le> n"
  by (auto simp: detect_def Let_def split: if_splits)

section \<open>Phase correction\<close>

definition estimate_phase_correction :: "arith \<Rightarrow> symbol list \<Rightarrow> symbol list \<Rightarrow> symbol" where
  "estimate_phase_correction A received reference =
    (let corr = foldl (\<lambda>c (r, p). cadd A c (cmul A r (conj_of p))) zero (zip received reference);
         mag = cabs A corr
     in if ieee_less mag (Finite (14411519 / 144115188075855872)) then (Finite 1, Finite 0)   \<comment> \<open>\<open>1e-10f\<close>\<close>
        else cdiv A (conj_of corr) mag)"

definition derotate :: "arith \<Rightarrow> symbol list \<Rightarrow> symbol list option \<Rightarrow> symbol list \<Rightarrow> symbol list" where
  "derotate A reference received_preamble data_symbols =
    (let phase_correction = (case received_preamble of
           None \<Rightarrow> (Finite 1, Finite 0)
         | Some received \<Rightarrow> estimate_phase_correction A received reference)
     in map (\<lambda>sym. cmul A sym phase_correction) data_symbols)"

end
