(* ===== verification/Exact.thy ===== *)
theory Exact
  imports Arith
begin

text \<open>
  An arithmetic of exact rational numbers, with first-order approximations for the functions that have
  none. It is what the examples compute with; no property of the code rests on it.
\<close>

definition exact1 :: "(rat \<Rightarrow> rat) \<Rightarrow> ieee \<Rightarrow> ieee" where
  "exact1 f x = (case unsigned_zero x of Finite a \<Rightarrow> Finite (f a) | _ \<Rightarrow> NaN)"

definition exact2 :: "(rat \<Rightarrow> rat \<Rightarrow> rat) \<Rightarrow> ieee \<Rightarrow> ieee \<Rightarrow> ieee" where
  "exact2 f x y =
    (case unsigned_zero x of Finite a \<Rightarrow> (case unsigned_zero y of Finite b \<Rightarrow> Finite (f a b) | _ \<Rightarrow> NaN) | _ \<Rightarrow> NaN)"

lemma exact_simps [simp]:
  "exact1 g (Finite a) = Finite (g a)" "exact2 f (Finite a) (Finite b) = Finite (f a b)"
  "exact1 g Minus_Zero = exact1 g (Finite 0)"
  "exact2 f Minus_Zero y = exact2 f (Finite 0) y" "exact2 f x Minus_Zero = exact2 f x (Finite 0)"
  by (simp_all add: exact1_def exact2_def split: ieee.split)

lemma exact2_unsigned:
  "unsigned_zero x = Finite a \<Longrightarrow> unsigned_zero y = Finite b \<Longrightarrow> exact2 f x y = Finite (f a b)"
  by (simp add: exact2_def)

text \<open>The integer square root.\<close>

fun isqrt :: "nat \<Rightarrow> nat" where
  "isqrt n = (if n = 0 then 0 else
     let r = 2 * isqrt (n div 4) in if (r + 1) * (r + 1) \<le> n then r + 1 else r)"

declare isqrt.simps [simp del]

definition exact_sqrt :: "ieee \<Rightarrow> ieee" where
  "exact_sqrt = exact1 (\<lambda>x. of_nat (isqrt (nat \<lfloor>x\<rfloor>)))"

definition exact_arith :: arith where
  "exact_arith = \<lparr>fadd = exact2 (+), fsub = exact2 (-), fmul = exact2 (*), fdiv = exact2 (/), fsqrt = exact_sqrt,
     float_of = (\<lambda>n. Finite (of_nat n)),
     dadd = exact2 (+), dsub = exact2 (-), dmul = exact2 (*), ddiv = exact2 (/), dsqrt = exact_sqrt,
     dsin = exact1 (\<lambda>x. x), dcos = exact1 (\<lambda>x. 1), dpow = exact2 (\<lambda>x y. x * x),
     double_of = (\<lambda>n. Finite (of_nat n)), to_float = (\<lambda>x. x),
     cmul = (\<lambda>(a, b) (c, d). (exact2 (-) (exact2 (*) a c) (exact2 (*) b d), exact2 (+) (exact2 (*) a d) (exact2 (*) b c))),
     cabs = (\<lambda>(a, b). exact2 (\<lambda>a b. abs a + abs b) a b),
     cnorm = (\<lambda>(a, b). exact2 (\<lambda>a b. a * a + b * b) a b)\<rparr>"

lemmas exact_arith_simps = exact_arith_def arith.simps

end
