(* ===== verification/Pipeline.thy ===== *)
theory Pipeline
  imports Dsp Exact Modem_Threads
begin

text \<open>
  The whole transmitter and the whole receiver: \<open>Encoder\<close> and \<open>Decoder\<close> of
  \<^verbatim>\<open>src/encoder.cpp\<close> and \<^verbatim>\<open>src/decoder.cpp\<close> with the signal processing of
  theory \<open>Dsp\<close> in the place of the parameters. The result of a call is \<open>None\<close> when it does not
  return, which only the loops that depend on rounding can cause.
\<close>

section \<open>Calls that may not return\<close>

definition then_do :: "'a res option \<Rightarrow> ('a \<Rightarrow> 'b res option) \<Rightarrow> 'b res option" where
  "then_do r f = (case r of None \<Rightarrow> None | Some (Inl e) \<Rightarrow> Some (Inl e) | Some (Inr x) \<Rightarrow> f x)"

lemma then_do_simps [simp]:
  "then_do None f = None" "then_do (Some (Inl e)) f = Some (Inl e)" "then_do (Some (Inr x)) f = f x"
  by (simp_all add: then_do_def)

lemma then_do_Inr: "then_do r f = Some (Inr y) \<longleftrightarrow> (\<exists>x. r = Some (Inr x) \<and> f x = Some (Inr y))"
  by (auto simp: then_do_def split: option.splits sum.splits)

section \<open>Construction\<close>

record transmitter =
  tr_encoder :: encoder
  tr_shaper :: pulse_shaper

record receiver =
  rcv_decoder :: decoder
  rcv_shaper :: pulse_shaper
  rcv_carrier :: carrier
  rcv_timing :: timing

text \<open>The number of taps is computed with \<open>int\<close>, which must not overflow.\<close>

definition rrc_num_taps :: "modem_config \<Rightarrow> int res" where
  "rrc_num_taps c =
    (let n = rrc_span_symbols c * samples_per_symbol c in
     if n < - (2 ^ 31) \<or> 2 ^ 31 \<le> n \<or> 2 ^ 31 \<le> n + 1 then Inl Undefined_Behaviour else Inr (n + 1))"

definition modem_shaper :: "arith \<Rightarrow> modem_config \<Rightarrow> pulse_shaper res option" where
  "modem_shaper A c =
    then_do (Some (rrc_num_taps c)) (\<lambda>n. new_pulse_shaper A (rrc_rolloff c) (samples_per_symbol c) n)"

definition new_transmitter :: "arith \<Rightarrow> modem_config \<Rightarrow> transmitter res option" where
  "new_transmitter A c =
    then_do (Some (new_encoder c)) (\<lambda>e.
    then_do (modem_shaper A c) (\<lambda>p. Some (Inr \<lparr>tr_encoder = e, tr_shaper = p\<rparr>)))"

definition LOOP_BANDWIDTH :: ieee where   \<comment> \<open>\<open>0.01\<close>\<close>
  "LOOP_BANDWIDTH = Finite (5764607523034235 / 576460752303423488)"

definition build_receiver :: "arith \<Rightarrow> modem_config \<Rightarrow> receiver res option" where
  "build_receiver A c =
    then_do (modem_shaper A c) (\<lambda>p.
    then_do (Some (new_carrier A LOOP_BANDWIDTH)) (\<lambda>carrier.
    then_do (Some (new_timing A (samples_per_symbol c) LOOP_BANDWIDTH)) (\<lambda>timing.
    then_do (Some (new_modem_decoder c)) (\<lambda>d.
    Some (Inr \<lparr>rcv_decoder = d, rcv_shaper = p, rcv_carrier = carrier, rcv_timing = timing\<rparr>)))))"

section \<open>Transmitting\<close>

definition transmit :: "arith \<Rightarrow> transmitter \<Rightarrow> bytes \<Rightarrow> (sample list \<times> transmitter) res" where
  "transmit A tr data =
    rbind (encode (shape A (tr_shaper tr)) (tr_encoder tr) data) (\<lambda>(samples, e). Inr (samples, tr\<lparr>tr_encoder := e\<rparr>))"

text \<open>The gain of the ramp.\<close>

definition ramp_scale :: "arith \<Rightarrow> nat \<Rightarrow> nat \<Rightarrow> sample \<Rightarrow> sample" where
  "ramp_scale A i n s = cscale A s (fdiv A (float_of A i) (float_of A n))"

section \<open>Receiving\<close>

definition FRAME_SYNC_THRESHOLD :: ieee where   \<comment> \<open>\<open>0.85f\<close>\<close>
  "FRAME_SYNC_THRESHOLD = Finite (7130317 / 8388608)"

definition find_frame :: "arith \<Rightarrow> modem_config \<Rightarrow> symbol list \<Rightarrow> nat option" where
  "find_frame A c = detect A FRAME_SYNC_THRESHOLD (bpsk_map_preamble (make_doubled_preamble (barker c)))"

definition rotate_back :: "arith \<Rightarrow> modem_config \<Rightarrow> symbol list option \<Rightarrow> symbol list \<Rightarrow> symbol list" where
  "rotate_back A c = derotate A (bpsk_map_preamble (make_doubled_preamble (barker c)))"

definition attempt ::
  "arith \<Rightarrow> modem_config \<Rightarrow> symbol list \<Rightarrow> fec_decoder \<Rightarrow> rx_diagnostics \<Rightarrow> (bytes option \<times> fec_decoder \<times> rx_diagnostics) res" where
  "attempt A c recovered =
    try_decode_frame (find_frame A c) (rotate_back A c) recovered (make_doubled_preamble (barker c))"

definition receive :: "arith \<Rightarrow> receiver \<Rightarrow> sample list \<Rightarrow> (bytes option \<times> receiver) res option" where
  "receive A v samples =
    (if samples = [] then Some (Inr (None, v))
     else
       let d = rcv_decoder v; cfg = dec_config d; sps = nat (samples_per_symbol cfg);
           combined_delay = nat (rrc_span_symbols cfg * samples_per_symbol cfg);
           filtered = matched_filter A (rcv_shaper v) samples
       in Option.bind (synchronize A (rcv_carrier v) filtered) (\<lambda>(synced, carrier).
          then_do (recover_symbols A (rcv_timing v) synced) (\<lambda>(recovered, timing).
          let diag = (dec_diag d)\<lparr>last_freq_offset := carrier_freq carrier, last_phase_offset := carrier_phase carrier,
                                  last_timing_offset := timing_mu timing\<rparr>;
              v = v\<lparr>rcv_timing := timing\<rparr>;
              leave = (\<lambda>carrier result fec diag. Some (Inr (result,
                v\<lparr>rcv_carrier := carrier, rcv_decoder := d\<lparr>dec_fec := fec, dec_diag := diag\<rparr>\<rparr>)))
          in then_do (Some (attempt A cfg recovered (dec_fec d) diag)) (\<lambda>(result, fec, diag).
             if result \<noteq> None then leave carrier result fec diag
             else
             then_do (Some (attempt A cfg (decimate combined_delay sps filtered) fec diag)) (\<lambda>(result, fec, diag).
             if result \<noteq> None then leave carrier result fec diag
             else
             Option.bind (synchronize A (carrier_reset carrier) filtered) (\<lambda>(synced, carrier).
             let diag = diag\<lparr>last_freq_offset := carrier_freq carrier, last_phase_offset := carrier_phase carrier\<rparr> in
             then_do (Some (attempt A cfg (decimate combined_delay sps synced) fec diag)) (\<lambda>(result, fec, diag).
             if result \<noteq> None then leave carrier result fec diag
             else leave carrier None fec (diag\<lparr>crc_errors := crc_errors diag + 1\<rparr>))))))))"

definition receiver_reset :: "arith \<Rightarrow> receiver \<Rightarrow> receiver" where
  "receiver_reset A v =
    v\<lparr>rcv_carrier := carrier_reset (rcv_carrier v), rcv_timing := timing_reset A (rcv_timing v),
      rcv_decoder := modem_reset (rcv_decoder v)\<rparr>"

section \<open>The search for a frame\<close>

text \<open>The preamble search answers exactly with the end of the first place in its input where the
  normalised correlation with the preamble reaches the threshold, if there is one; so it never
  points outside the symbols, and an attempt to decode, on whatever symbols, neither throws nor reads out
  of bounds.\<close>

theorem frame_sync_exact:
  "(detect A threshold reference symbols = Some n \<longleftrightarrow>
      reference \<noteq> [] \<and> length reference \<le> n \<and> n \<le> length symbols
      \<and> found_at A threshold reference symbols (n - length reference)
      \<and> (\<forall>i. i + length reference < n \<longrightarrow> \<not> found_at A threshold reference symbols i))
   \<and> (\<exists>r. attempt A c symbols fec diag = Inr r)"
proof
  let ?f = "found_at A threshold reference symbols" and ?p = "length reference"
  show "detect A threshold reference symbols = Some n \<longleftrightarrow>
      reference \<noteq> [] \<and> ?p \<le> n \<and> n \<le> length symbols \<and> ?f (n - ?p) \<and> (\<forall>i. i + ?p < n \<longrightarrow> \<not> ?f i)"
    (is "?l \<longleftrightarrow> ?r")
  proof
    assume ?l
    then obtain i where "reference \<noteq> []" "?p \<le> length symbols" "n = i + ?p" "i < length symbols - ?p + 1" "?f i" "\<forall>j < i. \<not> ?f j"
      by (auto simp: detect_def Let_def find_upt_Some simp del: upt_Suc split: if_splits)
    then show ?r by auto
  next
    assume r: ?r
    then have "List.find ?f [0 ..< length symbols - ?p + 1] = Some (n - ?p)"
      unfolding find_upt_Some by auto
    then show ?l using r by (auto simp: detect_def Let_def simp del: upt_Suc)
  qed
  show "\<exists>r. attempt A c symbols fec diag = Inr r"
    unfolding attempt_def find_frame_def by (rule try_decode_frame_ok) (rule detect_in_range)
qed

section \<open>What an attempt depends on\<close>

text \<open>The counters decide nothing: the payload is a function of the symbols and the code rate.\<close>

lemma fec_decode_rate:
  "code_rate f = code_rate f' \<Longrightarrow> fst (fec_decode f xs n) = fst (fec_decode f' xs n)"
  "code_rate (snd (fec_decode f xs n)) = code_rate f"
  by (simp_all add: fec_decode_def Let_def)

lemma frame_payload_rate:
  assumes "code_rate f = code_rate f'"
  shows "fst (frame_payload fr f diag) = fst (frame_payload fr f' diag')"
  by (simp add: frame_payload_def split_beta Let_def fec_decode_rate(1) [OF assms])

lemma frame_payload_keeps:
  "code_rate (fst (snd (frame_payload fr f diag))) = code_rate f"
  "last_timing_offset (snd (snd (frame_payload fr f diag))) = last_timing_offset diag"
  by (simp_all add: frame_payload_def split_beta Let_def fec_decode_rate(2))

text \<open>Two outcomes with the same payload, or the same failure.\<close>

definition same_payload :: "('a \<times> 'b) res \<Rightarrow> ('a \<times> 'b) res \<Rightarrow> bool" where
  "same_payload r r' \<longleftrightarrow> map_sum (\<lambda>e. e) fst r = map_sum (\<lambda>e. e) fst r'"

lemma same_payload_simps [simp]:
  "same_payload r r" "same_payload (Inr x) (Inr y) \<longleftrightarrow> fst x = fst y"
  by (simp_all add: same_payload_def)

text \<open>Everything up to the parsed frame is decided by the symbols alone.\<close>

definition frame_in :: "frame option res \<Rightarrow> fec_decoder \<Rightarrow> rx_diagnostics \<Rightarrow> (bytes option \<times> fec_decoder \<times> rx_diagnostics) res" where
  "frame_in p f diag = rbind p (\<lambda>x. Inr (case x of None \<Rightarrow> (None, f, diag) | Some fr \<Rightarrow> frame_payload fr f diag))"

lemma frame_in_intros:
  "\<exists>p. \<forall>f diag. Inr (None, f, diag) = frame_in p f diag"
  "\<exists>p. \<forall>f diag. (rbind q (\<lambda>x. case x of None \<Rightarrow> Inr (None, f, diag) | Some fr \<Rightarrow> Inr (frame_payload fr f diag))) = frame_in p f diag"
  "\<exists>p. \<forall>f diag. a f diag = frame_in p f diag \<Longrightarrow> \<exists>p. \<forall>f diag. b f diag = frame_in p f diag \<Longrightarrow>
    \<exists>p. \<forall>f diag. (if c then a f diag else b f diag) = frame_in p f diag"
  "\<exists>p. \<forall>f diag. a f diag = frame_in p f diag \<Longrightarrow> (\<And>x. \<exists>p. \<forall>f diag. g x f diag = frame_in p f diag) \<Longrightarrow>
    \<exists>p. \<forall>f diag. (case z of None \<Rightarrow> a f diag | Some x \<Rightarrow> g x f diag) = frame_in p f diag"
proof -
  show "\<exists>p. \<forall>f diag. Inr (None, f, diag) = frame_in p f diag"
    by (rule exI [of _ "Inr None"]) (simp add: frame_in_def)
  show "\<exists>p. \<forall>f diag. (rbind q (\<lambda>x. case x of None \<Rightarrow> Inr (None, f, diag) | Some fr \<Rightarrow> Inr (frame_payload fr f diag))) = frame_in p f diag"
    by (rule exI [of _ q]) (auto simp: frame_in_def rbind_def split: option.split sum.split)
qed (cases c, simp, simp, cases z, simp, simp)

lemma decode_data_symbols_frame: "\<exists>p. \<forall>f diag. decode_data_symbols ss f diag = frame_in p f diag"
  unfolding decode_data_symbols_def Let_def by (intro frame_in_intros)

lemma attempt_frame: "\<exists>p. \<forall>f diag. attempt A c ss f diag = frame_in p f diag"
proof (cases "find_frame A c ss")
  case None
  then show ?thesis by (simp add: attempt_def try_decode_frame_def frame_in_intros(1))
next
  case (Some start)
  then have "start \<le> length ss" unfolding find_frame_def by (rule detect_in_range)
  then show ?thesis using Some by (simp add: attempt_def try_decode_frame_def Let_def decode_data_symbols_frame)
qed

lemma frame_in_rate:
  assumes "code_rate f = code_rate f'"
  shows "same_payload (frame_in p f diag) (frame_in p f' diag')"
  by (auto simp: frame_in_def rbind_def frame_payload_rate [OF assms, of _ diag diag'] split: sum.split option.split)

lemma frame_in_keeps:
  "frame_in p f diag = Inr (r, f1, d1) \<Longrightarrow> code_rate f1 = code_rate f \<and> last_timing_offset d1 = last_timing_offset diag"
  using frame_payload_keeps [of _ f diag]
  by (cases p; cases "projr p"; simp add: frame_in_def) (metis fst_conv snd_conv)

lemma attempt_rate: "code_rate f = code_rate f' \<Longrightarrow> same_payload (attempt A c ss f diag) (attempt A c ss f' diag')"
  using attempt_frame [of A c ss] by (auto simp: frame_in_rate)

lemma attempt_keeps:
  "attempt A c ss f diag = Inr (r, f1, d1) \<Longrightarrow> code_rate f1 = code_rate f \<and> last_timing_offset d1 = last_timing_offset diag"
  using attempt_frame [of A c ss] by (auto dest: frame_in_keeps)

section \<open>What the state of the loops keeps\<close>

lemma carrier_step_keeps: "carrier_step A c x = Some (y, c') \<Longrightarrow> carrier_reset c' = carrier_reset c"
  by (auto simp: carrier_step_def carrier_reset_def Let_def split_beta bind_eq_Some_conv)

lemma synchronize_keeps:
  "synchronize A c xs = Some (ys, c') \<Longrightarrow> carrier_reset c' = carrier_reset c \<and> length ys = length xs"
  by (induction A c xs arbitrary: ys c' rule: synchronize.induct)
    (fastforce simp: bind_eq_Some_conv dest: carrier_step_keeps)+

lemma timing_step_keeps:
  "timing_reset A (fst (snd (timing_step A t a b f i))) = timing_reset A t"
  "timing_mu (fst (snd (timing_step A t a b f i))) = Finite 0"
  by (simp_all add: timing_step_def timing_reset_def Let_def)

definition keeps_timing :: "arith \<Rightarrow> timing \<Rightarrow> (symbol list \<times> timing) res \<Rightarrow> bool" where
  "keeps_timing A t r \<longleftrightarrow> (\<forall>ys t'. r = Inr (ys, t') \<longrightarrow>
    timing_reset A t' = timing_reset A t \<and> (timing_mu t = Finite 0 \<longrightarrow> timing_mu t' = Finite 0))"

lemma recover_loop_keeps:
  assumes "recover_loop A t xs index out = Some r"
  shows "keeps_timing A t r"
proof (rule recover_loop.raw_induct [OF _ assms, where P = "\<lambda>A t xs index out r. keeps_timing A t r"])
  fix loop :: "arith \<Rightarrow> timing \<Rightarrow> symbol list \<Rightarrow> ieee \<Rightarrow> symbol list \<Rightarrow> (symbol list \<times> timing) res option"
    and A t xs index out r
  assume IH: "\<And>A t xs index out r. loop A t xs index out = Some r \<Longrightarrow> keeps_timing A t r"
    and step: "(if ieee_less (dadd A index (Finite 1)) (double_of A (length xs)) then
       (case to_index index of
          Inl e \<Rightarrow> Some (Inl e)
        | Inr i \<Rightarrow>
            let fraction = to_float A (dsub A index (double_of A i)) in
            if length xs \<le> i + 1 then Some (Inr (out, t))
            else
              let (sym, t, index) = timing_step A t (xs ! i) (xs ! (i + 1)) fraction index in
              loop A t xs index (out @ [sym]))
     else Some (Inr (out, t))) = Some r"
  show "keeps_timing A t r"
  proof (cases "\<exists>a b f. loop A (fst (snd (timing_step A t a b f index))) xs (snd (snd (timing_step A t a b f index)))
      (out @ [fst (timing_step A t a b f index)]) = Some r")
    case True
    then obtain a b f where "loop A (fst (snd (timing_step A t a b f index))) xs (snd (snd (timing_step A t a b f index)))
      (out @ [fst (timing_step A t a b f index)]) = Some r" by blast
    from IH [OF this] show ?thesis by (auto simp: keeps_timing_def timing_step_keeps)
  next
    case False
    then have "(\<exists>e. r = Inl e) \<or> r = Inr (out, t)"
      using step by (cases "to_index index") (auto simp: Let_def split_beta simp del: split_paired_All split_paired_Ex split: if_splits)
    then show ?thesis by (auto simp: keeps_timing_def)
  qed
qed

lemma recover_keeps:
  "recover_symbols A t xs = Some (Inr (ys, t')) \<Longrightarrow>
    timing_reset A t' = timing_reset A t \<and> (timing_mu t = Finite 0 \<longrightarrow> timing_mu t' = Finite 0)"
  using recover_loop_keeps [of A t xs "Finite 0" "[]"]
  by (fastforce simp: recover_symbols_def keeps_timing_def split: if_splits)

section \<open>What a call keeps\<close>

text \<open>A condition on the value of a call, if it has one.\<close>

definition post :: "'a res option \<Rightarrow> ('a \<Rightarrow> bool) \<Rightarrow> bool" where
  "post r Q \<longleftrightarrow> (\<forall>x. r = Some (Inr x) \<longrightarrow> Q x)"

lemma post_intros:
  "Q x \<Longrightarrow> post (Some (Inr x)) Q"
  "(\<And>x. b \<Longrightarrow> post r Q) \<Longrightarrow> (\<not> b \<Longrightarrow> post s Q) \<Longrightarrow> post (if b then r else s) Q"
  "(\<And>x. o1 = Some x \<Longrightarrow> post (f x) Q) \<Longrightarrow> post (Option.bind o1 f) Q"
  "(\<And>x. r1 = Some (Inr x) \<Longrightarrow> post (g x) Q) \<Longrightarrow> post (then_do r1 g) Q"
  "(\<And>x y. p = (x, y) \<Longrightarrow> post (h x y) Q) \<Longrightarrow> post (case p of (x, y) \<Rightarrow> h x y) Q"
  by (auto simp: post_def then_do_Inr bind_eq_Some_conv split: prod.split)

definition kept :: "arith \<Rightarrow> receiver \<Rightarrow> receiver \<Rightarrow> bool" where
  "kept A v v' \<longleftrightarrow> rcv_shaper v' = rcv_shaper v \<and> carrier_reset (rcv_carrier v') = carrier_reset (rcv_carrier v)
    \<and> timing_reset A (rcv_timing v') = timing_reset A (rcv_timing v)
    \<and> dec_config (rcv_decoder v') = dec_config (rcv_decoder v)
    \<and> code_rate (dec_fec (rcv_decoder v')) = code_rate (dec_fec (rcv_decoder v))"

definition no_offset :: "receiver \<Rightarrow> bool" where
  "no_offset v \<longleftrightarrow> timing_mu (rcv_timing v) = Finite 0 \<and> last_timing_offset (dec_diag (rcv_decoder v)) = Finite 0"

lemma receive_keeps: "post (receive A v samples) (\<lambda>(_, v'). kept A v v' \<and> (no_offset v \<longrightarrow> no_offset v'))"
  unfolding receive_def Let_def
  by (intro post_intros; clarsimp simp: kept_def no_offset_def carrier_reset_def
    dest!: recover_keeps synchronize_keeps attempt_keeps)

section \<open>What a call does not depend on\<close>

text \<open>The payload of a call, its failure, or that it does not return.\<close>

definition outcome_of :: "('a \<times> 'b) res option \<Rightarrow> 'a res option" where
  "outcome_of r = map_option (map_sum (\<lambda>e. e) fst) r"

lemma outcome_simps [simp]:
  "outcome_of None = None" "outcome_of (Some (Inl e)) = Some (Inl e)" "outcome_of (Some (Inr (x, y))) = Some (Inr x)"
  by (simp_all add: outcome_of_def)

lemma outcome_intros:
  "outcome_of (Some (Inr (x, y))) = outcome_of (Some (Inr (x, y')))"
  "outcome_of r = outcome_of r' \<Longrightarrow> outcome_of s = outcome_of s' \<Longrightarrow> outcome_of (if b then r else s) = outcome_of (if b then r' else s')"
  "(\<And>x. outcome_of (f x) = outcome_of (f' x)) \<Longrightarrow> outcome_of (Option.bind r1 f) = outcome_of (Option.bind r1 f')"
  "(\<And>x. outcome_of (g x) = outcome_of (g' x)) \<Longrightarrow> outcome_of (then_do r2 g) = outcome_of (then_do r2 g')"
  "(\<And>x y. outcome_of (h x y) = outcome_of (h' x y)) \<Longrightarrow> outcome_of (case p of (x, y) \<Rightarrow> h x y) = outcome_of (case p of (x, y) \<Rightarrow> h' x y)"
  by (auto simp: then_do_def split: option.split sum.split prod.split)
    (cases r1; simp)

lemma outcome_attempt:
  assumes "code_rate f = code_rate f'"
    and "\<And>x f1 d1 f1' d1'. code_rate f1 = code_rate f1' \<Longrightarrow> outcome_of (g x f1 d1) = outcome_of (g' x f1' d1')"
  shows "outcome_of (then_do (Some (attempt A c ss f diag)) (\<lambda>(x, f1, d1). g x f1 d1))
    = outcome_of (then_do (Some (attempt A c ss f' diag')) (\<lambda>(x, f1, d1). g' x f1 d1))"
proof (cases "attempt A c ss f diag")
  case (Inl e)
  then have "attempt A c ss f' diag' = Inl e"
    using attempt_rate [OF assms(1), of A c ss diag diag'] by (cases "attempt A c ss f' diag'") (simp_all add: same_payload_def)
  then show ?thesis using Inl by simp
next
  case (Inr a)
  obtain x f1 d1 where a: "a = (x, f1, d1)" by (cases a)
  obtain f1' d1' where b: "attempt A c ss f' diag' = Inr (x, f1', d1')"
    using attempt_rate [OF assms(1), of A c ss diag diag'] Inr a
    by (cases "attempt A c ss f' diag'") (auto simp: same_payload_def)
  have "code_rate f1 = code_rate f1'" using attempt_keeps Inr a b assms(1) by metis
  then show ?thesis using assms(2) Inr a b by simp
qed

lemma receive_outcome:
  assumes "rcv_shaper v = rcv_shaper v'" "rcv_carrier v = rcv_carrier v'" "rcv_timing v = rcv_timing v'"
    and "dec_config (rcv_decoder v) = dec_config (rcv_decoder v')"
    and "code_rate (dec_fec (rcv_decoder v)) = code_rate (dec_fec (rcv_decoder v'))"
  shows "outcome_of (receive A v samples) = outcome_of (receive A v' samples)"
  unfolding receive_def Let_def assms(1-4) by (intro outcome_intros(2-5) outcome_attempt assms(5)) simp_all

section \<open>A receiver and its history\<close>

datatype receiver_op = Decode "sample list" | Reset

fun run_receiver :: "arith \<Rightarrow> receiver \<Rightarrow> receiver_op list \<Rightarrow> receiver res option" where
  "run_receiver A v [] = Some (Inr v)"
| "run_receiver A v (Decode samples # later) = then_do (receive A v samples) (\<lambda>(_, v). run_receiver A v later)"
| "run_receiver A v (Reset # later) = run_receiver A (receiver_reset A v) later"

lemma kept_refl: "kept A v v"
  by (simp add: kept_def)

lemma kept_trans: "kept A u v \<Longrightarrow> kept A v w \<Longrightarrow> kept A u w"
  by (simp add: kept_def)

lemma reset_keeps: "kept A v (receiver_reset A v)" "no_offset (receiver_reset A v)"
  by (simp_all add: kept_def no_offset_def receiver_reset_def carrier_reset_def timing_reset_def modem_reset_def no_rx_diagnostics_def)

lemma run_keeps:
  "run_receiver A v later = Some (Inr v') \<Longrightarrow> kept A v v' \<and> (no_offset v \<longrightarrow> no_offset v')"
proof (induction A v later arbitrary: v' rule: run_receiver.induct)
  case (2 A v samples later)
  then obtain r u where "receive A v samples = Some (Inr (r, u))" "run_receiver A u later = Some (Inr v')"
    by (auto simp: then_do_Inr)
  then show ?case using 2(1) receive_keeps [of A v samples] by (auto simp: post_def intro: kept_trans)
next
  case (3 A v later)
  then show ?case using reset_keeps [of A v] by (auto intro: kept_trans)
qed (simp add: kept_refl)

lemma build_receiver_state:
  "build_receiver A c = Some (Inr v) \<Longrightarrow> no_offset v \<and> carrier_reset (rcv_carrier v) = rcv_carrier v
    \<and> timing_reset A (rcv_timing v) = rcv_timing v \<and> dec_config (rcv_decoder v) = c
    \<and> code_rate (dec_fec (rcv_decoder v)) = use_code_rate c"
  by (auto simp: build_receiver_def then_do_Inr new_carrier_def new_timing_def new_modem_decoder_def new_decoder_def check_rate_def
      no_offset_def carrier_reset_def timing_reset_def no_rx_diagnostics_def Let_def split: if_splits)

text \<open>C8. A reset receiver has forgotten everything: whatever buffers it was given before, and however
  often it was reset, after a reset it makes of any samples exactly what a receiver fresh from
  its constructor makes of them - the same payload, the same failure, or the same loop that does not
  end. This is what entitles the receive thread to decode the same, growing, buffer again and again.\<close>

theorem receive_history_free:
  assumes "build_receiver A c = Some (Inr v0)" "run_receiver A v0 history = Some (Inr v)"
  shows "outcome_of (receive A (receiver_reset A v) samples) = outcome_of (receive A v0 samples)"
proof (rule receive_outcome)
  have "kept A v0 v" using run_keeps [OF assms(2)] by blast
  then show "rcv_shaper (receiver_reset A v) = rcv_shaper v0" "rcv_carrier (receiver_reset A v) = rcv_carrier v0"
    "rcv_timing (receiver_reset A v) = rcv_timing v0" "dec_config (rcv_decoder (receiver_reset A v)) = dec_config (rcv_decoder v0)"
    "code_rate (dec_fec (rcv_decoder (receiver_reset A v))) = code_rate (dec_fec (rcv_decoder v0))"
    using build_receiver_state [OF assms(1)] by (simp_all add: kept_def receiver_reset_def modem_reset_def)
qed

text \<open>The timing estimate never reaches the diagnostics: the offset the decoder copies from the timing
  recovery after each pass has already been absorbed into the sampling position and cleared, so
  whatever a receiver hears, the timing offset it reports is 0.\<close>

theorem timing_offset_never_reported:
  assumes "build_receiver A c = Some (Inr v0)" "run_receiver A v0 history = Some (Inr v)"
  shows "last_timing_offset (dec_diag (rcv_decoder v)) = Finite 0"
  using run_keeps [OF assms(2)] build_receiver_state [OF assms(1)] by (simp add: no_offset_def)

text \<open>The receiver of the default configuration.\<close>

lemma taps_from_Some:
  "\<forall>i \<in> set is. rrc_tap A (ddiv A (dsub A (double_of A i) centre) (double_of A sps)) rolloff \<noteq> None \<Longrightarrow>
    \<exists>taps. taps_from A rolloff sps centre is = Some taps \<and> length taps = length is"
  by (induction "is") auto

text \<open>Away from the special points the first evaluation of a tap is the last.\<close>

lemma rrc_tap_returns:
  "\<not> ieee_less (ieee_abs (rrc_denominator A t alpha)) (Finite (2535301200456459 / 2535301200456458802993406410752))
     \<or> ieee_less (ieee_abs t) (Finite (4951760157141521 / 4951760157141521099596496896)) \<Longrightarrow> rrc_tap A t alpha \<noteq> None"
  by (subst rrc_tap.simps) auto

lemma default_receiver: "\<exists>v. build_receiver exact_arith modem_defaults = Some (Inr v)"
proof -
  let ?t = "\<lambda>i. ddiv exact_arith (dsub exact_arith (double_of exact_arith i) (Finite 12)) (double_of exact_arith 4)"
  have "\<forall>i \<in> set [0 ..< 25]. rrc_tap exact_arith (?t i) (rrc_rolloff modem_defaults) \<noteq> None"
  proof
    fix i assume "i \<in> set [0 ..< 25]"
    then have "i \<in> set [0,1,2,3,4,5,6,7,8,9,10,11,12,13,14,15,16,17,18,19,20,21,22,23,24]" by simp presburger
    then show "rrc_tap exact_arith (?t i) (rrc_rolloff modem_defaults) \<noteq> None"
      by (intro rrc_tap_returns) (auto simp: rrc_denominator_def exact_arith_simps ieee_abs_def modem_defaults_def PI_def)
  qed
  from taps_from_Some [OF this] obtain taps where
    "taps_from exact_arith (rrc_rolloff modem_defaults) 4 (Finite 12) [0 ..< 25] = Some taps" by blast
  then show ?thesis
    by (simp add: build_receiver_def modem_shaper_def rrc_num_taps_def new_pulse_shaper_def new_carrier_def new_timing_def
        new_modem_decoder_def new_decoder_def check_rate_def modem_defaults_def LOOP_BANDWIDTH_def exact_arith_simps Let_def)
qed

lemma run_reset: "run_receiver A v [Decode [], Reset] = Some (Inr (receiver_reset A v))"
  by (simp add: receive_def)

theorem receive_history_free_witness:
  "\<exists>v0 v. build_receiver exact_arith modem_defaults = Some (Inr v0) \<and> run_receiver exact_arith v0 [Decode [], Reset] = Some (Inr v)
    \<and> outcome_of (receive exact_arith (receiver_reset exact_arith v) [zero]) = outcome_of (receive exact_arith v0 [zero])"
proof -
  obtain v0 where v0: "build_receiver exact_arith modem_defaults = Some (Inr v0)" using default_receiver by blast
  show ?thesis using v0 run_reset receive_history_free [OF v0 run_reset] by blast
qed

theorem timing_offset_never_reported_witness:
  "\<exists>v0 v. build_receiver exact_arith modem_defaults = Some (Inr v0) \<and> run_receiver exact_arith v0 [Decode [], Reset] = Some (Inr v)
    \<and> last_timing_offset (dec_diag (rcv_decoder v)) = Finite 0"
proof -
  obtain v0 where v0: "build_receiver exact_arith modem_defaults = Some (Inr v0)" using default_receiver by blast
  show ?thesis using v0 run_reset timing_offset_never_reported [OF v0 run_reset] by blast
qed

section \<open>The receive thread with the receiver\<close>

text \<open>A call that does not return keeps the thread for ever.\<close>

definition receive_call :: "arith \<Rightarrow> receiver \<Rightarrow> sample list \<Rightarrow> (bytes option \<times> receiver) res" where
  "receive_call A v samples = (case receive A v samples of None \<Rightarrow> Inl Diverges | Some r \<Rightarrow> r)"

text \<open>Without any state: what a receiver fresh from its constructor makes of the buffer.\<close>

definition fresh_call :: "arith \<Rightarrow> receiver \<Rightarrow> unit \<Rightarrow> sample list \<Rightarrow> (bytes option \<times> unit) res" where
  "fresh_call A v0 d samples = map_sum (\<lambda>e. e) (\<lambda>(r, _). (r, d)) (receive_call A v0 samples)"

text \<open>All of the thread but its decoder.\<close>

definition rx_view :: "'d rx_thread \<Rightarrow> bytes spsc \<times> sample list \<times> nat \<times> (bytes \<times> bool) list \<times> sample list list \<times> sample list" where
  "rx_view t = (rx_queue t, rx_samples t, samples_since_last_decode t, rx_offered t, rx_attempts t, rx_heard t)"

lemma receive_call_outcome:
  "outcome_of (receive A v xs) = outcome_of (receive A v' xs) \<Longrightarrow>
    map_sum (\<lambda>e. e) fst (receive_call A v xs) = map_sum (\<lambda>e. e) fst (receive_call A v' xs)"
  by (auto simp: receive_call_def outcome_of_def split: option.splits)

lemma receive_call_keeps: "receive_call A v xs = Inr (r, v') \<Longrightarrow> kept A v v'"
  using receive_keeps [of A v xs] by (auto simp: receive_call_def post_def split: option.splits)

lemma fresh_decodes:
  assumes "build_receiver A c = Some (Inr v0)" "kept A v0 v"
  shows "map_sum (\<lambda>e. e) fst (receive_call A (receiver_reset A v) xs) = map_sum (\<lambda>e. e) fst (fresh_call A v0 d xs)"
proof -
  have "outcome_of (receive A (receiver_reset A v) xs) = outcome_of (receive A v0 xs)"
    using assms build_receiver_state [OF assms(1)]
    by (intro receive_outcome) (simp_all add: kept_def receiver_reset_def modem_reset_def)
  from receive_call_outcome [OF this] show ?thesis
    by (cases "receive_call A v0 xs") (auto simp: fresh_call_def)
qed

definition same_thread :: "arith \<Rightarrow> receiver \<Rightarrow> receiver rx_thread res \<Rightarrow> unit rx_thread res \<Rightarrow> bool" where
  "same_thread A v0 r s \<longleftrightarrow> map_sum (\<lambda>e. e) rx_view r = map_sum (\<lambda>e. e) rx_view s
     \<and> (\<forall>t. r = Inr t \<longrightarrow> kept A v0 (rx_decoder t))"

lemma same_round:
  assumes "build_receiver A c = Some (Inr v0)" "rx_view t = rx_view s" "kept A v0 (rx_decoder t)"
  shows "same_thread A v0 (rx_round (receiver_reset A) (receive_call A) t heard) (rx_round (\<lambda>d. d) (fresh_call A v0) s heard)"
proof (cases "heard = None \<or> heard = Some []")
  case True
  then show ?thesis using assms(2,3) by (auto simp: rx_round_def same_thread_def)
next
  case False
  then obtain samples where samples: "heard = Some samples" "samples \<noteq> []" by auto
  have f: "rx_queue t = rx_queue s" "rx_samples t = rx_samples s" "samples_since_last_decode t = samples_since_last_decode s"
    "rx_offered t = rx_offered s" "rx_attempts t = rx_attempts s" "rx_heard t = rx_heard s"
    using assms(2) by (simp_all add: rx_view_def)
  show ?thesis
  proof (cases "samples_since_last_decode s + length samples < MIN_DECODE_SAMPLES")
    case True
    then show ?thesis using samples f assms(3) by (simp add: rx_round_def same_thread_def rx_view_def)
  next
    case late: False
    let ?buf = "rx_samples s @ samples"
    let ?l = "receive_call A (receiver_reset A (rx_decoder t)) ?buf" and ?r = "fresh_call A v0 (rx_decoder s) ?buf"
    note eq = fresh_decodes [OF assms(1,3), of ?buf "rx_decoder s"]
    show ?thesis
    proof (cases ?l)
      case (Inl e)
      then have "?r = Inl e" using eq by (cases ?r) simp_all
      then show ?thesis using Inl samples late f by (simp add: rx_round_def same_thread_def)
    next
      case (Inr rd)
      obtain x v where l: "?l = Inr (x, v)" using Inr by (cases rd) simp
      then obtain d where r: "?r = Inr (x, d)" using eq by (cases ?r) auto
      have k: "kept A v0 v"
        using kept_trans [OF assms(3) kept_trans [OF reset_keeps(1) receive_call_keeps [OF l]]] .
      show ?thesis
        using l r k samples late f
        by (cases "try_push (rx_queue s) (the x)") (auto simp: rx_round_def same_thread_def rx_view_def Let_def)
    qed
  qed
qed

lemma same_run:
  assumes "build_receiver A c = Some (Inr v0)"
  shows "rx_view t = rx_view s \<Longrightarrow> kept A v0 (rx_decoder t) \<Longrightarrow>
    same_thread A v0 (rx_thread_run (receiver_reset A) (receive_call A) t rounds) (rx_thread_run (\<lambda>d. d) (fresh_call A v0) s rounds)"
proof (induction rounds arbitrary: t s)
  case Nil
  then show ?case by (simp add: same_thread_def)
next
  case (Cons r rounds)
  obtain q heard where r: "r = (q, heard)" by force
  let ?t = "t\<lparr>rx_queue := q\<rparr>" and ?s = "s\<lparr>rx_queue := q\<rparr>"
  have "rx_view ?t = rx_view ?s" "kept A v0 (rx_decoder ?t)" using Cons.prems by (simp_all add: rx_view_def)
  from same_round [OF assms this, of heard] have one:
    "same_thread A v0 (rx_round (receiver_reset A) (receive_call A) ?t heard) (rx_round (\<lambda>d. d) (fresh_call A v0) ?s heard)" .
  show ?case
  proof (cases "rx_round (receiver_reset A) (receive_call A) ?t heard")
    case (Inl e)
    then show ?thesis using one
      by (cases "rx_round (\<lambda>d. d) (fresh_call A v0) ?s heard") (simp_all add: r same_thread_def)
  next
    case (Inr u)
    then obtain w where w: "rx_round (\<lambda>d. d) (fresh_call A v0) ?s heard = Inr w" "rx_view u = rx_view w" "kept A v0 (rx_decoder u)"
      using one by (cases "rx_round (\<lambda>d. d) (fresh_call A v0) ?s heard") (auto simp: same_thread_def)
    show ?thesis using Cons.IH [OF w(2,3)] Inr w(1) by (simp add: r)
  qed
qed

text \<open>The receiver throws nothing.\<close>

definition fails_in :: "cxx_error set \<Rightarrow> 'a res option \<Rightarrow> bool" where
  "fails_in E r \<longleftrightarrow> (\<forall>e. r = Some (Inl e) \<longrightarrow> e \<in> E)"

lemma fails_in_intros:
  "fails_in E (Some (Inr x))"
  "fails_in E r \<Longrightarrow> fails_in E s \<Longrightarrow> fails_in E (if b then r else s)"
  "(\<And>x. fails_in E (f x)) \<Longrightarrow> fails_in E (Option.bind o1 f)"
  "fails_in E r1 \<Longrightarrow> (\<And>x. fails_in E (g x)) \<Longrightarrow> fails_in E (then_do r1 g)"
  "(\<And>x y. fails_in E (h x y)) \<Longrightarrow> fails_in E (case p of (x, y) \<Rightarrow> h x y)"
  by (auto simp: fails_in_def then_do_def bind_eq_Some_conv split: prod.split option.splits sum.splits)

lemma recover_fails: "fails_in {Undefined_Behaviour} (recover_symbols A t xs)"
proof -
  have "r = Inl e \<longrightarrow> e = Undefined_Behaviour" if "recover_loop A t xs index out = Some r" for t xs index out r e
  proof (rule recover_loop.raw_induct [OF _ that, where P = "\<lambda>A t xs index out r. r = Inl e \<longrightarrow> e = Undefined_Behaviour"])
    fix loop :: "arith \<Rightarrow> timing \<Rightarrow> symbol list \<Rightarrow> ieee \<Rightarrow> symbol list \<Rightarrow> (symbol list \<times> timing) res option"
      and A t xs index out r
    assume IH: "\<And>A t xs index out r. loop A t xs index out = Some r \<Longrightarrow> r = Inl e \<longrightarrow> e = Undefined_Behaviour"
      and step: "(if ieee_less (dadd A index (Finite 1)) (double_of A (length xs)) then
         (case to_index index of
            Inl e \<Rightarrow> Some (Inl e)
          | Inr i \<Rightarrow>
              let fraction = to_float A (dsub A index (double_of A i)) in
              if length xs \<le> i + 1 then Some (Inr (out, t))
              else
                let (sym, t, index) = timing_step A t (xs ! i) (xs ! (i + 1)) fraction index in
                loop A t xs index (out @ [sym]))
       else Some (Inr (out, t))) = Some r"
    have "to_index index = Inl e' \<Longrightarrow> e' = Undefined_Behaviour" for e'
      by (auto simp: to_index_def split: ieee.splits if_splits)
    then show "r = Inl e \<longrightarrow> e = Undefined_Behaviour"
      using step IH by (auto simp: Let_def split_beta split: if_splits sum.splits)
  qed
  then show ?thesis by (auto simp: fails_in_def recover_symbols_def split: if_splits)
qed

lemma attempt_returns: "fails_in {Undefined_Behaviour} (Some (attempt A c ss f diag))"
proof -
  have "\<exists>r. attempt A c ss f diag = Inr r"
    unfolding attempt_def find_frame_def by (rule try_decode_frame_ok) (rule detect_in_range)
  then show ?thesis by (auto simp: fails_in_def)
qed

lemma receive_fails: "fails_in {Undefined_Behaviour} (receive A v samples)"
  unfolding receive_def Let_def by (intro fails_in_intros recover_fails attempt_returns)

text \<open>C7. The receive thread with the receiver it has: over all that is heard, the payloads offered to the
  queue, the buffers attempted and the failures are those of a thread that builds a new receiver for
  every attempt, so nothing an earlier burst left in the loops ever decides a later payload; and the thread
  ends by no exception: if it does not go on, the timing recovery had undefined behaviour or
  a loop did not end.\<close>

theorem rx_thread_stateless:
  assumes "build_receiver A c = Some (Inr v0)"
    and "\<forall>(q, ss) \<in> set rounds. spsc_inv q \<and> (\<forall>xs. ss = Some xs \<longrightarrow> length xs \<le> RX_BATCH_SIZE)"
  shows "map_sum (\<lambda>e. e) rx_view (rx_thread_run (receiver_reset A) (receive_call A) (new_rx_thread v0) rounds)
      = map_sum (\<lambda>e. e) rx_view (rx_thread_run (\<lambda>d. d) (fresh_call A v0) (new_rx_thread ()) rounds)
    \<and> ((\<exists>t. rx_thread_run (receiver_reset A) (receive_call A) (new_rx_thread v0) rounds = Inr t)
      \<or> rx_thread_run (receiver_reset A) (receive_call A) (new_rx_thread v0) rounds = Inl Undefined_Behaviour
      \<or> rx_thread_run (receiver_reset A) (receive_call A) (new_rx_thread v0) rounds = Inl Diverges)"
proof
  have view: "rx_view (new_rx_thread v0) = rx_view (new_rx_thread ())" "kept A v0 (rx_decoder (new_rx_thread v0))"
    by (simp_all add: rx_view_def new_rx_thread_def kept_refl)
  show "map_sum (\<lambda>e. e) rx_view (rx_thread_run (receiver_reset A) (receive_call A) (new_rx_thread v0) rounds)
      = map_sum (\<lambda>e. e) rx_view (rx_thread_run (\<lambda>d. d) (fresh_call A v0) (new_rx_thread ()) rounds)"
    using same_run [OF assms(1) view] by (simp add: same_thread_def)
  have "receive_call A v ss = Inl e \<Longrightarrow> e = Undefined_Behaviour \<or> e = Diverges" for v ss e
    using receive_fails [of A v ss] by (auto simp: receive_call_def fails_in_def split: option.splits)
  then have only: "attempt_fails (receiver_reset A) (receive_call A) e \<Longrightarrow> e = Undefined_Behaviour \<or> e = Diverges" for e
    unfolding attempt_fails_def by blast
  have "rx_inv (new_rx_thread v0)" by (simp add: rx_inv_def new_rx_thread_def MIN_DECODE_SAMPLES_def)
  from rx_run_inv [OF this assms(2)] only
  show "(\<exists>t. rx_thread_run (receiver_reset A) (receive_call A) (new_rx_thread v0) rounds = Inr t)
      \<or> rx_thread_run (receiver_reset A) (receive_call A) (new_rx_thread v0) rounds = Inl Undefined_Behaviour
      \<or> rx_thread_run (receiver_reset A) (receive_call A) (new_rx_thread v0) rounds = Inl Diverges"
    by blast
qed

theorem rx_thread_stateless_witness:
  "\<exists>v0. build_receiver exact_arith modem_defaults = Some (Inr v0)
    \<and> map_sum (\<lambda>e. e) rx_view (rx_thread_run (receiver_reset exact_arith) (receive_call exact_arith) (new_rx_thread v0)
          (replicate 5 (new_spsc 64 [], Some (replicate 4096 zero))))
      = map_sum (\<lambda>e. e) rx_view (rx_thread_run (\<lambda>d. d) (fresh_call exact_arith v0) (new_rx_thread ())
          (replicate 5 (new_spsc 64 [], Some (replicate 4096 zero))))"
proof -
  obtain v0 where v0: "build_receiver exact_arith modem_defaults = Some (Inr v0)" using default_receiver by blast
  have batch: "\<forall>(q, ss) \<in> set (replicate k (q0, Some b)). spsc_inv q \<and> (\<forall>xs. ss = Some xs \<longrightarrow> length xs \<le> RX_BATCH_SIZE)"
    if "spsc_inv q0" "length b \<le> RX_BATCH_SIZE" for k and q0 :: "bytes spsc" and b :: "sample list"
    using that by auto
  have inv: "spsc_inv (new_spsc 64 [] :: bytes spsc)" by (rule spsc_inv_new) simp
  have "length (replicate 4096 zero) \<le> RX_BATCH_SIZE" by (simp only: length_replicate RX_BATCH_SIZE_def order_refl)
  note rx_thread_stateless [OF v0 batch [OF inv this], THEN conjunct1]
  then show ?thesis using v0 by blast
qed

section \<open>The length of a burst\<close>

lemma shaper_state:
  "new_pulse_shaper A rolloff sps n = Some (Inr p) \<Longrightarrow> shaper_sps p = nat sps \<and> 1 \<le> sps \<and> 1 \<le> n \<and> length (rrc_taps p) = nat n"
proof -
  have "taps_from A rolloff sps centre is = Some taps \<Longrightarrow> length taps = length is" for sps centre "is" taps
    by (induction "is" arbitrary: taps) (auto simp: bind_eq_Some_conv)
  then show "new_pulse_shaper A rolloff sps n = Some (Inr p) \<Longrightarrow> ?thesis"
    by (fastforce simp: new_pulse_shaper_def normalise_def Let_def bind_eq_Some_conv split: if_splits)
qed

lemma length_upsample: "1 \<le> sps \<Longrightarrow> length (upsample sps symbols) = length symbols * sps"
  by (induction symbols) (simp_all add: upsample_def)

lemma length_shape: "1 \<le> shaper_sps p \<Longrightarrow> 1 \<le> length (rrc_taps p) \<Longrightarrow> symbols \<noteq> [] \<Longrightarrow>
  length (shape A p symbols) = length symbols * shaper_sps p + (length (rrc_taps p) - 1)"
  by (simp add: shape_def convolve_def length_upsample)

text \<open>C36. Every payload becomes a burst of the length its size determines: the constructed transmitter
  never fails, and what it returns is exactly the training symbols, the doubled preamble, the
  header, the payload as coded, the checksum and the tail, at the configured number of samples per
  symbol, and the transient of the filter.\<close>

theorem transmit_length:
  assumes "new_transmitter A c = Some (Inr tr)" "0 \<le> acquisition_symbols c"
  shows "\<exists>samples tr'. transmit A tr data = Inr (samples, tr')
    \<and> length samples = (nat (acquisition_symbols c) + 2 * length (barker c) + 34 + 4 * length (on_air c data) + TAIL_SYMBOLS)
        * nat (samples_per_symbol c) + nat (rrc_span_symbols c * samples_per_symbol c)
    \<and> encoder_ok (tr_encoder tr') \<and> enc_config (tr_encoder tr') = c \<and> tr_shaper tr' = tr_shaper tr"
proof -
  obtain e p n where tr: "new_encoder c = Inr e" "tr = \<lparr>tr_encoder = e, tr_shaper = p\<rparr>" "rrc_num_taps c = Inr n"
    "new_pulse_shaper A (rrc_rolloff c) (samples_per_symbol c) n = Some (Inr p)"
    using assms(1) by (auto simp: new_transmitter_def modem_shaper_def then_do_Inr)
  have e: "encoder_ok e" "enc_config e = c"
    using tr(1) assms(2) by (auto simp: new_encoder_def encoder_ok_def link_config_def new_builder_def check_rate_def rbind_def split: if_splits)
  have n: "n = rrc_span_symbols c * samples_per_symbol c + 1" using tr(3) by (auto simp: rrc_num_taps_def Let_def split: if_splits)
  have p: "shaper_sps p = nat (samples_per_symbol c)" "1 \<le> samples_per_symbol c" "1 \<le> n" "length (rrc_taps p) = nat n"
    using shaper_state [OF tr(4)] by auto
  obtain ds e' where b: "encode_symbols e data = Inr (map (\<lambda>i. acquisition_pattern ! (i mod 4)) [0 ..< nat (acquisition_symbols c)]
      @ bpsk_map_preamble (make_doubled_preamble (barker c)) @ ds @ replicate 6 (Finite 0, Finite 0), e')"
    "length ds = 34 + 4 * length (on_air c data)" "encoder_ok e'" "enc_config e' = c"
    using encode_burst [OF e(1), of data] e(2) by blast
  have taps: "1 \<le> length (rrc_taps p)" "length (rrc_taps p) - 1 = nat (rrc_span_symbols c * samples_per_symbol c)"
    using p(3,4) n by (simp_all add: nat_add_distrib)
  have "1 \<le> shaper_sps p" using p(1,2) by simp
  note len = length_shape [OF this taps(1)]
  show ?thesis
    using b p(1) by (simp add: transmit_def encode_def tr(2) len taps(2) TAIL_SYMBOLS_def bpsk_map_preamble_def
      make_doubled_preamble_def algebra_simps del: One_nat_def)
qed

lemma default_transmitter: "\<exists>tr. new_transmitter exact_arith modem_defaults = Some (Inr tr)"
proof -
  obtain v where "build_receiver exact_arith modem_defaults = Some (Inr v)" using default_receiver by blast
  then obtain p where "modem_shaper exact_arith modem_defaults = Some (Inr p)" by (auto simp: build_receiver_def then_do_Inr)
  then show ?thesis by (simp add: new_transmitter_def new_encoder_def check_rate_def modem_defaults_def)
qed

theorem transmit_length_witness:
  "\<exists>tr samples tr'. new_transmitter exact_arith modem_defaults = Some (Inr tr) \<and> transmit exact_arith tr [] = Inr (samples, tr')
    \<and> length samples = (128 + 26 + 34 + 4 * length (on_air modem_defaults []) + 6) * 4 + 24"
proof -
  obtain tr where tr: "new_transmitter exact_arith modem_defaults = Some (Inr tr)" using default_transmitter by blast
  have "0 \<le> acquisition_symbols modem_defaults" by (simp add: modem_defaults_def)
  from transmit_length [OF tr this, of "[]"] tr show ?thesis by (auto simp: modem_defaults_def TAIL_SYMBOLS_def)
qed

end
