(* ===== verification/Phase.thy ===== *)
theory Phase
  imports Pipeline Exact
begin

text \<open>
  The phase correction of the receiver against the ambiguity of the carrier loop: a QPSK loop locks in
  one of four phases, and the preamble tells which. What the code needs of floating-point arithmetic
  for that is only that it is exact on small integers and on the products with a unit.
\<close>

section \<open>Values\<close>

definition stands_for :: "symbol \<Rightarrow> rat \<times> rat \<Rightarrow> bool" where
  "stands_for s v \<longleftrightarrow> unsigned_zero (fst s) = Finite (fst v) \<and> unsigned_zero (snd s) = Finite (snd v)"

definition finite_symbol :: "symbol \<Rightarrow> bool" where
  "finite_symbol s \<longleftrightarrow> (\<exists>v. stands_for s v)"

text \<open>A quarter turn to the left, and the units it generates.\<close>

definition turn :: "symbol \<Rightarrow> symbol" where
  "turn s = (ieee_neg (snd s), fst s)"

definition units :: "(int \<times> int) list" where
  "units = [(1, 0), (0, 1), (-1, 0), (0, -1)]"

definition times :: "rat \<times> rat \<Rightarrow> int \<times> int \<Rightarrow> rat \<times> rat" where
  "times v u = (fst v * of_int (fst u) - snd v * of_int (snd u), fst v * of_int (snd u) + snd v * of_int (fst u))"

text \<open>The sums of integers of up to 24 bits, the products with a unit, the absolute value of a number on
  an axis and the quotient by it are exact; the sign of a zero is left open.\<close>

definition exact_on_units :: "arith \<Rightarrow> bool" where
  "exact_on_units A \<longleftrightarrow>
    (\<forall>m n :: int. \<forall>x y. abs m \<le> 2 ^ 24 \<longrightarrow> abs n \<le> 2 ^ 24 \<longrightarrow> abs (m + n) \<le> 2 ^ 24 \<longrightarrow>
       unsigned_zero x = Finite (of_int m) \<longrightarrow> unsigned_zero y = Finite (of_int n) \<longrightarrow>
       unsigned_zero (fadd A x y) = Finite (of_int (m + n)))
  \<and> (\<forall>u \<in> set units. \<forall>v s w. stands_for s v \<longrightarrow> stands_for w (of_int (fst u), of_int (snd u)) \<longrightarrow>
       stands_for (cmul A s w) (times v u))
  \<and> (\<forall>u \<in> set units. \<forall>n :: nat. \<forall>w. n \<le> 2 ^ 24 \<longrightarrow> stands_for w (of_int (fst u * int n), of_int (snd u * int n)) \<longrightarrow>
       cabs A w = Finite (of_nat n))
  \<and> (\<forall>n :: nat. \<forall>m :: int. \<forall>x. 0 < n \<longrightarrow> n \<le> 2 ^ 24 \<longrightarrow> m \<in> {-1, 0, 1} \<longrightarrow> unsigned_zero x = Finite (of_int (m * int n)) \<longrightarrow>
       unsigned_zero (fdiv A x (Finite (of_nat n))) = Finite (of_int m))"

lemma unsigned_neg: "unsigned_zero x = Finite a \<Longrightarrow> unsigned_zero (ieee_neg x) = Finite (- a)"
  by (cases x) (auto simp: unsigned_zero_def split: if_splits)

lemma stands_turn: "stands_for s v \<Longrightarrow> stands_for (turn s) (- snd v, fst v)"
  by (simp add: stands_for_def turn_def unsigned_neg)

lemma stands_conj: "stands_for s v \<Longrightarrow> stands_for (conj_of s) (fst v, - snd v)"
  by (simp add: stands_for_def conj_of_def unsigned_neg)

lemma compare_values:
  assumes "unsigned_zero x = Finite a"
  shows "ieee_less (Finite 0) x \<longleftrightarrow> 0 < a" "ieee_le (Finite 0) x \<longleftrightarrow> 0 \<le> a" "ieee_le x (Finite 0) \<longleftrightarrow> a \<le> 0"
  using assms by (cases x; auto simp: ieee_less_def ieee_le_def unsigned_zero_def split: if_splits)+

lemma stands_inj: "stands_for s v \<Longrightarrow> stands_for t v \<Longrightarrow> symbol_to_dibit s = symbol_to_dibit t"
  by (simp add: stands_for_def symbol_to_dibit_def split_beta Let_def compare_values)

lemma turns: "k < 4 \<Longrightarrow> stands_for s v \<Longrightarrow> stands_for ((turn ^^ k) s) (times v (units ! k))"
  using stands_turn [of s v] stands_turn [of "turn s" "(- snd v, fst v)"] stands_turn [of "turn (turn s)" "(- fst v, - snd v)"]
  by (auto simp: less_Suc_eq numeral_eq_Suc units_def times_def)

section \<open>The correction\<close>

definition multiple :: "nat \<Rightarrow> int \<times> int \<Rightarrow> rat \<times> rat" where
  "multiple n u = (of_int (fst u * int n), of_int (snd u * int n))"

lemma exact_laws:
  assumes "exact_on_units A" "u \<in> set units"
  shows "stands_for c (multiple n u) \<Longrightarrow> stands_for w (multiple 1 u) \<Longrightarrow> n < 2 ^ 24 \<Longrightarrow> stands_for (cadd A c w) (multiple (Suc n) u)"
    and "stands_for s v \<Longrightarrow> stands_for w (multiple 1 u) \<Longrightarrow> stands_for (cmul A s w) (times v u)"
    and "stands_for w (multiple n u) \<Longrightarrow> n \<le> 2 ^ 24 \<Longrightarrow> cabs A w = Finite (of_nat n)"
    and "stands_for w (multiple n u) \<Longrightarrow> 0 < n \<Longrightarrow> n \<le> 2 ^ 24 \<Longrightarrow> stands_for (cdiv A w (Finite (of_nat n))) (multiple 1 u)"
proof -
  have u: "fst u \<in> {-1, 0, 1}" "snd u \<in> {-1, 0, 1}" using assms(2) by (auto simp: units_def)
  { assume c: "stands_for c (multiple n u)" "stands_for w (multiple 1 u)" "n < 2 ^ 24"
    have bounds: "abs (z * int n) \<le> 2 ^ 24 \<and> abs z \<le> 2 ^ 24 \<and> abs (z * int n + z) \<le> 2 ^ 24" if "z \<in> {-1, 0, 1 :: int}" for z
      using that c(3) by auto
    have add: "unsigned_zero (fadd A x y) = Finite (of_int (z * int n + z))"
      if "z \<in> {-1, 0, 1}" "unsigned_zero x = Finite (of_int (z * int n))" "unsigned_zero y = Finite (of_int z)" for x y z
      using assms(1) bounds [OF that(1)] that(2,3) unfolding exact_on_units_def by blast
    show "stands_for (cadd A c w) (multiple (Suc n) u)"
      using add [OF u(1), of "fst c" "fst w"] add [OF u(2), of "snd c" "snd w"] c(1,2)
      by (simp add: stands_for_def cadd_def multiple_def algebra_simps) }
  { assume "stands_for s v" "stands_for w (multiple 1 u)"
    then show "stands_for (cmul A s w) (times v u)"
      using assms unfolding exact_on_units_def multiple_def by (simp only: of_nat_1 mult_1_right) }
  { assume "stands_for w (multiple n u)" "n \<le> 2 ^ 24"
    then show "cabs A w = Finite (of_nat n)"
      using assms unfolding exact_on_units_def multiple_def by blast }
  { assume w: "stands_for w (multiple n u)" "0 < n" "n \<le> 2 ^ 24"
    have "unsigned_zero (fdiv A x (Finite (of_nat n))) = Finite (of_int z)"
      if "z \<in> {-1, 0, 1}" "unsigned_zero x = Finite (of_int (z * int n))" for x z
      using assms(1) that w(2,3) unfolding exact_on_units_def by blast
    then show "stands_for (cdiv A w (Finite (of_nat n))) (multiple 1 u)"
      using u w(1) by (simp only: stands_for_def cdiv_def multiple_def fst_conv snd_conv of_nat_1 mult_1_right) }
qed

lemma times_units:
  "k < 4 \<Longrightarrow> units ! k \<in> set units"
  "e \<in> {1, -1} \<Longrightarrow> k < 4 \<Longrightarrow> times (times (of_int e, 0) (units ! k)) (e, 0) = multiple 1 (units ! k)"
  "k < 4 \<Longrightarrow> times (times v (units ! k)) (fst (units ! k), - snd (units ! k)) = v"
  "k < 4 \<Longrightarrow> (fst (units ! k), - snd (units ! k)) \<in> set units"
  by (auto simp: less_Suc_eq numeral_eq_Suc units_def times_def multiple_def)

lemma correlate_preamble:
  assumes "exact_on_units A" "k < 4"
  shows "stands_for c (multiple n (units ! k)) \<Longrightarrow> n + length bits \<le> 2 ^ 24 \<Longrightarrow>
    stands_for (foldl (\<lambda>c (r, p). cadd A c (cmul A r (conj_of p))) c
        (zip (map (turn ^^ k) (bpsk_map_preamble bits)) (bpsk_map_preamble bits)))
      (multiple (n + length bits) (units ! k))"
proof (induction bits arbitrary: c n)
  case (Cons b bits)
  let ?p = "(if b = 0 then Finite 1 else Finite (-1), Finite 0)"
  obtain e :: int where e: "e \<in> {1, -1}" "stands_for ?p (of_int e, 0)"
    by (cases "b = 0") (auto simp: stands_for_def intro: that [of 1] that [of "-1"])
  have "stands_for (conj_of ?p) (multiple 1 (e, 0))"
    using stands_conj [OF e(2)] by (simp add: multiple_def)
  moreover have "(e, 0) \<in> set units" using e(1) by (auto simp: units_def)
  ultimately have "stands_for (cmul A ((turn ^^ k) ?p) (conj_of ?p)) (times (times (of_int e, 0) (units ! k)) (e, 0))"
    by (intro exact_laws(2) assms(1) turns [OF assms(2) e(2)])
  then have "stands_for (cmul A ((turn ^^ k) ?p) (conj_of ?p)) (multiple 1 (units ! k))"
    using times_units(2) [OF e(1) assms(2)] by simp
  then have "stands_for (cadd A c (cmul A ((turn ^^ k) ?p) (conj_of ?p))) (multiple (Suc n) (units ! k))"
    using Cons.prems exact_laws(1) [OF assms(1) times_units(1) [OF assms(2)]] by simp
  from Cons.IH [OF this] Cons.prems(2) show ?case by (simp add: bpsk_map_preamble_def)
qed (simp add: bpsk_map_preamble_def)

lemma correction_value:
  assumes "exact_on_units A" "k < 4" "bits \<noteq> []" "length bits \<le> 2 ^ 24"
  shows "stands_for (estimate_phase_correction A (map (turn ^^ k) (bpsk_map_preamble bits)) (bpsk_map_preamble bits))
    (multiple 1 (fst (units ! k), - snd (units ! k)))"
proof -
  let ?u = "units ! k" and ?n = "length bits"
  let ?corr = "foldl (\<lambda>c (r, p). cadd A c (cmul A r (conj_of p))) zero
    (zip (map (turn ^^ k) (bpsk_map_preamble bits)) (bpsk_map_preamble bits))"
  have "stands_for zero (multiple 0 ?u)" by (simp add: stands_for_def zero_def multiple_def)
  from correlate_preamble [OF assms(1,2) this] assms(4) have corr: "stands_for ?corr (multiple ?n ?u)" by simp
  then have mag: "cabs A ?corr = Finite (of_nat ?n)"
    using exact_laws(3) [OF assms(1) times_units(1) [OF assms(2)]] assms(4) by blast
  have "stands_for (conj_of ?corr) (multiple ?n (fst ?u, - snd ?u))"
    using stands_conj [OF corr] by (simp add: multiple_def)
  then have "stands_for (cdiv A (conj_of ?corr) (Finite (of_nat ?n))) (multiple 1 (fst ?u, - snd ?u))"
    using exact_laws(4) [OF assms(1) times_units(4) [OF assms(2)]] assms(3,4) by blast
  moreover have "\<not> rat_of_nat ?n < 14411519 / 144115188075855872"
  proof -
    have "(1 :: rat) \<le> of_nat ?n" using assms(3) by (cases bits) auto
    then show ?thesis by simp
  qed
  ultimately show ?thesis by (simp add: estimate_phase_correction_def mag Let_def)
qed

lemma demap_cong: "(\<And>s. s \<in> set ss \<Longrightarrow> symbol_to_dibit (f s) = symbol_to_dibit s) \<Longrightarrow> demap (map f ss) = demap ss"
  by (induction ss) simp_all

lemma derotated:
  assumes "exact_on_units A" "k < 4" "bits \<noteq> []" "length bits \<le> 2 ^ 24" "\<forall>s \<in> set clean. finite_symbol s"
  shows "demap (derotate A (bpsk_map_preamble bits) (Some (map (turn ^^ k) (bpsk_map_preamble bits))) (map (turn ^^ k) clean)) = demap clean"
proof -
  let ?c = "estimate_phase_correction A (map (turn ^^ k) (bpsk_map_preamble bits)) (bpsk_map_preamble bits)"
  have "symbol_to_dibit (cmul A ((turn ^^ k) s) ?c) = symbol_to_dibit s" if "s \<in> set clean" for s
  proof -
    obtain v where v: "stands_for s v" using assms(5) \<open>s \<in> set clean\<close> by (auto simp: finite_symbol_def)
    have "stands_for (cmul A ((turn ^^ k) s) ?c) (times (times v (units ! k)) (fst (units ! k), - snd (units ! k)))"
      by (rule exact_laws(2) [OF assms(1) times_units(4) [OF assms(2)] turns [OF assms(2) v] correction_value [OF assms(1-4)]])
    then show ?thesis using stands_inj [OF _ v] times_units(3) [OF assms(2), of v] by (simp only:)
  qed
  then have "demap (map (\<lambda>s. cmul A ((turn ^^ k) s) ?c) clean) = demap clean" by (rule demap_cong)
  then show ?thesis by (simp add: derotate_def comp_def)
qed

section \<open>A burst in any of the four phases\<close>

text \<open>C6. The phase ambiguity is resolved: with an arithmetic that is exact on small integers and units, as
  that of IEEE is, a burst that the preamble search finds is decoded to the payload it was made of in
  whichever of the four phases the carrier loop has locked - when preamble and data are turned by the
  same number of quarter turns and the noise on the data leaves every symbol in its quadrant.\<close>

theorem phase_ambiguity_resolved:
  assumes "exact_on_units A" "encoder_ok e" "length data < 2 ^ 16" "encode_symbols e data = Inr (burst, e')"
    and "c = enc_config e" "barker c \<noteq> []" "length (barker c) \<le> 2 ^ 23" "code_rate f = use_code_rate c"
    and "find_frame A c recovered = Some start" "k < 4"
    and "take (2 * length (barker c)) (drop (start - 2 * length (barker c)) recovered)
      = map (turn ^^ k) (bpsk_map_preamble (make_doubled_preamble (barker c)))"
    and "drop start recovered = map (turn ^^ k) clean" "\<forall>s \<in> set clean. finite_symbol s"
    and "take (length (burst_bits c data burst)) (demap clean) = burst_bits c data burst"
  shows "\<exists>f' diag'. attempt A c recovered f diag = Inr (Some data, f', diag') \<and> frames_received diag' = frames_received diag + 1
    \<and> corrected_errors f' = corrected_errors f"
proof -
  let ?bits = "make_doubled_preamble (barker c)" and ?n = "2 * length (barker c)" and ?sent = "burst_bits c data burst"
  have bits: "?bits \<noteq> []" "length ?bits \<le> 2 ^ 24" "length ?bits = ?n"
    using assms(6,7) by (simp_all add: make_doubled_preamble_def)
  have found: "start \<le> length recovered" "?n \<le> start"
    using assms(9) bits(3) unfolding find_frame_def
    by (auto dest: detect_in_range detect_after_preamble simp: bpsk_map_preamble_def)
  have heard: "?sent = take (length ?sent) (demap (rotate_back A c (if ?n \<le> start
      then Some (take ?n (drop (start - ?n) recovered)) else None) (drop start recovered)))"
    using derotated [OF assms(1,10) bits(1,2) assms(13)] assms(11,12,14) found(2) by (simp add: rotate_back_def)
  have "code_rate f = use_code_rate (enc_config e)" using assms(5,8) by simp
  from link_recovers [where derotate = "rotate_back A c" and detect = "find_frame A c" and diag = diag, OF assms(2-4,9) found(1) this assms(5) refl heard]
  show ?thesis by (auto simp: attempt_def ham_same)
qed

section \<open>An example\<close>

lemma exact_arith_units: "exact_on_units exact_arith"
proof -
  have sums: "unsigned_zero (fadd exact_arith x y) = Finite (of_int (m + n))"
    if "unsigned_zero x = Finite (of_int m)" "unsigned_zero y = Finite (of_int n)" for x y and m n :: int
    using exact2_unsigned [OF that, of "(+)"] by (simp add: exact_arith_simps)
  have products: "stands_for (cmul exact_arith s w) (times v u)"
    if "stands_for s v" "stands_for w (of_int (fst u), of_int (snd u))" for s w v and u :: "int \<times> int"
    using that by (cases s; cases w) (simp add: stands_for_def times_def exact_arith_simps exact2_unsigned)
  have sizes: "cabs exact_arith w = Finite (of_nat n)"
    if "u \<in> set units" "stands_for w (of_int (fst u * int n), of_int (snd u * int n))" for w u n
    using that by (cases w) (auto simp: stands_for_def units_def exact_arith_simps exact2_unsigned)
  have quotients: "unsigned_zero (fdiv exact_arith x (Finite (of_nat n))) = Finite (of_int m)"
    if "0 < n" "unsigned_zero x = Finite (of_int (m * int n))" for x n m
    using that by (simp add: exact_arith_simps exact2_unsigned)
  show ?thesis using sums products sizes quotients unfolding exact_on_units_def by blast
qed

lemma map_symbols_finite: "map_symbols bits = Inr (ss, pad) \<Longrightarrow> \<forall>s \<in> set ss. finite_symbol s"
proof -
  have point: "finite_symbol (CONSTELLATION ! unat b)" if "\<not> b > 3" for b :: u8
  proof -
    have "unat b < 4" using that by (simp add: word_less_nat_alt not_less)
    then have "\<exists>x y. CONSTELLATION ! unat b = (Finite x, Finite y)"
      by (auto simp: CONSTELLATION_def less_Suc_eq numeral_eq_Suc)
    then show ?thesis by (auto simp: finite_symbol_def stands_for_def)
  qed
  have "map_loop bits = Inr ss \<Longrightarrow> \<forall>s \<in> set ss. finite_symbol s" for bits ss
    by (induction bits arbitrary: ss rule: map_loop.induct) (auto simp: Let_def rbind_def point split: if_splits sum.splits)
  then show "map_symbols bits = Inr (ss, pad) \<Longrightarrow> ?thesis"
    by (auto simp: map_symbols_def Let_def rbind_def split: if_splits sum.splits)
qed

lemma found_in_default:
  "find_frame exact_arith modem_defaults (map turn (bpsk_map_preamble (make_doubled_preamble (barker modem_defaults))) @ later) = Some 26"
proof -
  let ?pre = "bpsk_map_preamble (make_doubled_preamble (barker modem_defaults))"
  have "found_at exact_arith FRAME_SYNC_THRESHOLD ?pre (map turn ?pre @ later) 0"
    by (simp add: found_at_def correlation_def preamble_energy_def modem_defaults_def make_doubled_preamble_def bpsk_map_preamble_def
        turn_def exact_arith_simps conj_of_def zero_def cadd_def exact_sqrt_def isqrt.simps FRAME_SYNC_THRESHOLD_def Let_def)
  then have "List.find (found_at exact_arith FRAME_SYNC_THRESHOLD ?pre (map turn ?pre @ later))
      [0 ..< length (map turn ?pre @ later) - length ?pre + 1] = Some 0"
    by (simp only: find_upt_Some) simp
  moreover have "length ?pre = 26" by (simp add: modem_defaults_def make_doubled_preamble_def bpsk_map_preamble_def)
  ultimately show ?thesis unfolding find_frame_def detect_def Let_def by simp
qed

text \<open>A modem with the default configuration sends one byte; the receiver hears everything a quarter turn
  off.\<close>

theorem phase_ambiguity_resolved_witness:
  "\<exists>recovered f' diag'. recovered \<noteq> [] \<and> attempt exact_arith modem_defaults (map turn recovered) \<lparr>code_rate = RATE_1_2, corrected_errors = 0\<rparr>
      no_rx_diagnostics = Inr (Some [7], f', diag') \<and> frames_received diag' = 1 \<and> corrected_errors f' = 0"
proof -
  let ?c = modem_defaults
  let ?e = "\<lparr>enc_config = ?c, enc_builder = new_builder (make_doubled_preamble (barker ?c)),
      enc_diag = \<lparr>frames_transmitted = 0, symbols_transmitted = 0\<rparr>\<rparr>"
  let ?pre = "bpsk_map_preamble (make_doubled_preamble (barker ?c))" and ?f = "\<lparr>code_rate = RATE_1_2, corrected_errors = 0\<rparr>"
  have ok: "encoder_ok ?e"
    by (simp add: encoder_ok_def link_config_def modem_defaults_def new_builder_def check_rate_def)
  have len: "length ?pre = 26" "2 * length (barker ?c) = 26"
    by (simp_all add: modem_defaults_def make_doubled_preamble_def bpsk_map_preamble_def)
  obtain burst e' ds seq crcv where b: "encode_symbols ?e [7] = Inr (burst, e')" "burst = map (\<lambda>i. acquisition_pattern ! (i mod 4)) [0 ..< nat (acquisition_symbols ?c)]
      @ ?pre @ ds @ replicate 6 (Finite 0, Finite 0)" "length ds = 34 + 4 * length (on_air ?c [7])"
    "take (67 + 8 * length (on_air ?c [7])) (demap ds) = frame_bits (of_nat 1) 0 (use_fec ?c) (use_code_rate ?c) seq (on_air ?c [7]) crcv"
    using encode_burst [OF ok, of "[7]"] by auto
  let ?sent = "burst_bits ?c [7] burst"
  have sent: "?sent = frame_bits (of_nat 1) 0 (use_fec ?c) (use_code_rate ?c) seq (on_air ?c [7]) crcv"
    using b(3,4) len by (simp add: burst_bits_def b(2))
  obtain clean pad where clean: "map_symbols ?sent = Inr (clean, pad)" "take (length ?sent) (demap clean) = ?sent"
    using map_symbols_demap [of ?sent] frame_bits_01 unfolding sent by blast
  have c: "?c = enc_config ?e" "barker ?c \<noteq> []" "length (barker ?c) \<le> 2 ^ 23" "code_rate ?f = use_code_rate ?c"
    by (simp_all add: modem_defaults_def)
  have cut: "take (2 * length (barker ?c)) (drop (26 - 2 * length (barker ?c)) (map turn ?pre @ map turn clean)) = map (turn ^^ 1) ?pre"
    "drop 26 (map turn ?pre @ map turn clean) = map (turn ^^ 1) clean"
    using len by simp_all
  have "\<exists>f' diag'. attempt exact_arith ?c (map turn ?pre @ map turn clean) ?f no_rx_diagnostics = Inr (Some [7], f', diag')
      \<and> frames_received diag' = frames_received no_rx_diagnostics + 1 \<and> corrected_errors f' = corrected_errors ?f"
    by (rule phase_ambiguity_resolved [OF exact_arith_units ok _ b(1) c found_in_default _ cut map_symbols_finite [OF clean(1)] clean(2)])
      simp_all
  then show ?thesis
    using len(1) by (intro exI [of _ "?pre @ clean"]) (auto simp: no_rx_diagnostics_def)
qed

end
