(* ===== verification/Modem_Main.thy ===== *)
theory Modem_Main
  imports Pipeline Modem_Json
begin

text \<open>
  The start of the modem process, \<open>main\<close> of \<^verbatim>\<open>src/main.cpp\<close>: from the command line
  through the radio, the encoder and decoder and the servers to the threads that run. What the
  hardware and the sockets answer is an input; logging, the wait for a signal and the joins that
  follow it are left out.
\<close>

section \<open>Start\<close>

datatype modem_thread =
    Tcp_Input_Thread | Udp_Input_Thread | Tx_Thread | Rx_Thread | Tcp_Output_Thread | Udp_Output_Thread

record start_answers =
  uhd :: bool              \<comment> \<open>built with the driver\<close>
  device_found :: bool
  tx_accepted :: nat       \<comment> \<open>calls of \<open>configure_tx\<close> the driver accepts\<close>
  rx_accepted :: nat
  device_found_again :: bool
  input_starts :: bool     \<comment> \<open>the input socket opens\<close>
  output_starts :: bool

record modem =
  modem_opts :: app_options
  modem_radio :: "radio option"
  modem_transmitter :: transmitter
  modem_receiver :: receiver
  modem_threads :: "modem_thread list"

text \<open>The process ends with an exit code, fails in a constructor - where nobody catches - or runs.\<close>

datatype start = Exited nat | Failed cxx_error | Running modem

definition transmits :: "app_mode \<Rightarrow> bool" where
  "transmits m \<longleftrightarrow> m = TX_ONLY \<or> m = TX_RX"

definition receives :: "app_mode \<Rightarrow> bool" where
  "receives m \<longleftrightarrow> m = RX_ONLY \<or> m = TX_RX"

text \<open>The radio: constructed and configured; when one of them fails, constructed once more without
  configuration. When that fails too, the pointer keeps what it had: nothing, or the first radio with what
  was configured of it. The flag says whether nothing was thrown.\<close>

definition configured_radio :: "modem_config \<Rightarrow> app_mode \<Rightarrow> start_answers \<Rightarrow> radio option \<times> bool" where
  "configured_radio c mode a =
    (case new_radio (uhd a) (device_found a) of
       Inl _ \<Rightarrow> (None, False)
     | Inr r \<Rightarrow>
         let (r, ok) = (if transmits mode then configure_tx r c (tx_accepted a) else (r, True));
             (r, ok) = (if ok \<and> receives mode then configure_rx r c (rx_accepted a) else (r, ok))
         in (Some r, ok))"

definition start_radio :: "modem_config \<Rightarrow> app_mode \<Rightarrow> start_answers \<Rightarrow> radio option" where
  "start_radio c mode a =
    (let (b200, ok) = configured_radio c mode a in
     if ok then b200
     else (case new_radio (uhd a) (device_found_again a) of Inr r \<Rightarrow> Some r | Inl _ \<Rightarrow> b200))"

text \<open>The threads: the transmit path, then the receive path; without a radio only the input and
  output threads.\<close>

definition threads_of :: "modem_config \<Rightarrow> app_mode \<Rightarrow> bool \<Rightarrow> modem_thread list" where
  "threads_of c mode radio =
    (if transmits mode
     then [if use_udp c then Udp_Input_Thread else Tcp_Input_Thread] @ (if radio then [Tx_Thread] else [])
     else [])
  @ (if receives mode
     then (if radio then [Rx_Thread] else []) @ [if use_udp c then Udp_Output_Thread else Tcp_Output_Thread]
     else [])"

text \<open>Encoder and decoder, in this order.\<close>

definition construct :: "arith \<Rightarrow> modem_config \<Rightarrow> (transmitter \<times> receiver) res option" where
  "construct A c = then_do (new_transmitter A c) (\<lambda>tr. then_do (build_receiver A c) (\<lambda>v. Some (Inr (tr, v))))"

definition start_modem ::
  "arith \<Rightarrow> (string \<Rightarrow> ieee option) \<Rightarrow> (string \<Rightarrow> modem_config outcome) \<Rightarrow> string list \<Rightarrow> start_answers \<Rightarrow> start option" where
  "start_modem A stod load argv a =
    (case parse_args stod load argv of
       Exits n \<Rightarrow> Some (Exited n)
     | Throws \<Rightarrow> Some (Exited 1)
     | Undefined \<Rightarrow> Some (Failed Undefined_Behaviour)
     | Returns opts \<Rightarrow>
         let cfg = app_config opts; mode = app_mode opts;
             b200 = start_radio cfg mode a
         in case construct A cfg of
              None \<Rightarrow> None
            | Some (Inl e) \<Rightarrow> Some (Failed e)
            | Some (Inr (tr, v)) \<Rightarrow>
                if transmits mode \<and> \<not> input_starts a then Some (Exited 1)
                else if receives mode \<and> \<not> output_starts a then Some (Exited 1)
                else Some (Running \<lparr>modem_opts = opts, modem_radio = b200, modem_transmitter = tr, modem_receiver = v,
                       modem_threads = threads_of cfg mode (b200 \<noteq> None)\<rparr>))"

section \<open>Options\<close>

text \<open>A value in a range with or without its lower end, or no number at all.\<close>

definition in_range :: "ieee \<Rightarrow> rat \<Rightarrow> rat \<Rightarrow> bool" where
  "in_range x lo hi \<longleftrightarrow> x = NaN \<or> ieee_le (Finite lo) x \<and> ieee_le x (Finite hi)"

definition above :: "ieee \<Rightarrow> rat \<Rightarrow> rat \<Rightarrow> bool" where
  "above x lo hi \<longleftrightarrow> x = NaN \<or> ieee_less (Finite lo) x \<and> ieee_le x (Finite hi)"

lemma parse_args_validates: "parse_args stod load argv = Returns opts \<Longrightarrow> modem_validate (app_config opts) = Inr ()"
  by (auto simp: parse_args_def split: outcome.splits sum.splits invalid.splits)

text \<open>Validation looks at these fields and at no other.\<close>

definition checked_fields :: "modem_config \<Rightarrow> bool" where
  "checked_fields c \<longleftrightarrow>
     in_range (center_freq c) 70000000 6000000000 \<and> above (sample_rate c) 0 56000000
     \<and> in_range (tx_gain c) 0 (359 / 4) \<and> in_range (rx_gain c) 0 76 \<and> above (rrc_rolloff c) 0 1
     \<and> 2 \<le> samples_per_symbol c \<and> 1 \<le> rrc_span_symbols c \<and> use_code_rate c \<in> {RATE_1_2, RATE_3_4}
     \<and> tcp_input_port c \<noteq> 0 \<and> tcp_output_port c \<noteq> 0 \<and> barker c \<noteq> []
     \<and> 0 \<le> acquisition_symbols c \<and> 0 \<le> ramp_symbols c"

lemma out_of_range:
  "ieee_less x (Finite lo) \<or> ieee_less (Finite hi) x \<longleftrightarrow> \<not> in_range x lo hi"
  "ieee_le x (Finite lo) \<or> ieee_less (Finite hi) x \<longleftrightarrow> \<not> above x lo hi"
  by (cases x; auto simp: in_range_def above_def ieee_le_def)+

lemma validated_fields: "modem_validate c = Inr () \<longleftrightarrow> checked_fields c"
  unfolding modem_validate_def checked_fields_def out_of_range by (simp add: not_less split: if_split)

text \<open>C38. The options a modem starts with, whatever the command line and the configuration file say: the
  centre frequency is from 70 MHz to 6 GHz, the sample rate above 0 and at most 56 MHz, the
  gains from 0 to 89.75 and 76, the roll-off above 0 and at most 1 - each of them, or not a number -,
  there are at least two samples per symbol and one symbol of span, the code rate is one of the two,
  the TCP ports are not 0, the preamble is not empty and the counts are not negative. The separate
  transmit and receive frequencies and the UDP ports are not looked at: with any values in their place
  the options are accepted too; and so is a gain that is no number, when the parser reads one.\<close>

theorem options_valid:
  assumes "parse_args stod load argv = Returns opts"
  shows "in_range (center_freq (app_config opts)) 70000000 6000000000 \<and> above (sample_rate (app_config opts)) 0 56000000
    \<and> in_range (tx_gain (app_config opts)) 0 (359 / 4) \<and> in_range (rx_gain (app_config opts)) 0 76
    \<and> above (rrc_rolloff (app_config opts)) 0 1 \<and> 2 \<le> samples_per_symbol (app_config opts)
    \<and> 1 \<le> rrc_span_symbols (app_config opts) \<and> use_code_rate (app_config opts) \<in> {RATE_1_2, RATE_3_4}
    \<and> tcp_input_port (app_config opts) \<noteq> 0 \<and> tcp_output_port (app_config opts) \<noteq> 0 \<and> barker (app_config opts) \<noteq> []
    \<and> 0 \<le> acquisition_symbols (app_config opts) \<and> 0 \<le> ramp_symbols (app_config opts)
    \<and> modem_validate ((app_config opts)\<lparr>tx_freq := any_tx, rx_freq := any_rx, udp_input_port := any_in, udp_output_port := any_out\<rparr>)
        = Inr ()
    \<and> parse_args (\<lambda>_. Some NaN) load' [prog, ''--tx-gain'', ''nan''] = Returns
        \<lparr>app_config = modem_defaults\<lparr>tx_gain := NaN\<rparr>, app_mode = TX_RX\<rparr>"
proof -
  have "parse_loop (\<lambda>_. Some NaN) load' \<lparr>app_config = modem_defaults, app_mode = TX_RX\<rparr> [''--tx-gain'', ''nan'']
      = Returns \<lparr>app_config = modem_defaults\<lparr>tx_gain := NaN\<rparr>, app_mode = TX_RX\<rparr>"
    by (simp add: parse_loop.simps set_option_def from_option_def)
  moreover have "modem_validate (modem_defaults\<lparr>tx_gain := NaN\<rparr>) = Inr ()"
    by (simp add: modem_validate_def modem_defaults_def)
  ultimately have nan: "parse_args (\<lambda>_. Some NaN) load' [prog, ''--tx-gain'', ''nan''] = Returns
      \<lparr>app_config = modem_defaults\<lparr>tx_gain := NaN\<rparr>, app_mode = TX_RX\<rparr>"
    by (simp add: parse_args_def)
  have "checked_fields (app_config opts)" using parse_args_validates [OF assms] by (simp add: validated_fields)
  then show ?thesis using nan by (simp add: validated_fields checked_fields_def)
qed

definition no_config :: "string \<Rightarrow> modem_config outcome" where
  "no_config path = Throws"

lemma parse_args_defaults: "parse_args (\<lambda>_. None) no_config [''qpsk_b200''] = Returns \<lparr>app_config = modem_defaults, app_mode = TX_RX\<rparr>"
  by (simp add: parse_args_def parse_loop.simps modem_validate_def modem_defaults_def)

theorem options_valid_witness: "in_range (center_freq modem_defaults) 70000000 6000000000 \<and> 2 \<le> samples_per_symbol modem_defaults"
  using options_valid [OF parse_args_defaults] by simp

section \<open>A modem that starts\<close>

lemma parse_args_in_range:
  assumes "parse_args stod load argv = Returns opts"
  shows "check_rate (use_code_rate (app_config opts)) = Inr (use_code_rate (app_config opts))"
    "0 \<le> acquisition_symbols (app_config opts)" "2 \<le> samples_per_symbol (app_config opts)" "1 \<le> rrc_span_symbols (app_config opts)"
    "\<not> ieee_le (rrc_rolloff (app_config opts)) (Finite 0)" "\<not> ieee_less (Finite 1) (rrc_rolloff (app_config opts))"
  using parse_args_validates [OF assms] by (auto simp: modem_validate_def check_rate_def split: if_splits)

text \<open>Every call of the configuration of the mode's directions was accepted.\<close>

definition fully_configured :: "app_mode \<Rightarrow> start_answers \<Rightarrow> bool" where
  "fully_configured mode a \<longleftrightarrow> (mode \<noteq> RX_ONLY \<longrightarrow> 5 \<le> tx_accepted a) \<and> (mode \<noteq> TX_ONLY \<longrightarrow> 5 \<le> rx_accepted a)"

lemma started_radio:
  "start_radio c mode a = None \<longleftrightarrow> uhd a \<and> \<not> device_found a \<and> \<not> device_found_again a"
  "start_radio c mode a = Some r \<Longrightarrow>
     (tx_stream r \<longleftrightarrow> uhd a \<and> device_found a \<and> mode \<noteq> RX_ONLY \<and> 5 \<le> tx_accepted a
        \<and> (fully_configured mode a \<or> \<not> device_found_again a))
   \<and> (rx_stream r \<longleftrightarrow> uhd a \<and> device_found a \<and> mode \<noteq> TX_ONLY \<and> fully_configured mode a)"
  by (cases mode; auto simp: start_radio_def configured_radio_def new_radio_def configure_tx_def configure_rx_def tx_setup_def
      rx_setup_def transmits_def receives_def fully_configured_def split: if_splits)+

lemma shaper_errors:
  assumes "2 \<le> samples_per_symbol c" "1 \<le> rrc_span_symbols c" "\<not> ieee_le (rrc_rolloff c) (Finite 0)" "\<not> ieee_less (Finite 1) (rrc_rolloff c)"
  shows "2 ^ 31 \<le> rrc_span_symbols c * samples_per_symbol c + 1 \<Longrightarrow> modem_shaper A c = Some (Inl Undefined_Behaviour)"
    and "\<not> 2 ^ 31 \<le> rrc_span_symbols c * samples_per_symbol c + 1 \<Longrightarrow> modem_shaper A c = None \<or> (\<exists>p. modem_shaper A c = Some (Inr p))"
proof -
  have "1 * 2 \<le> rrc_span_symbols c * samples_per_symbol c" using assms(1,2) by (intro mult_mono) auto
  then show "2 ^ 31 \<le> rrc_span_symbols c * samples_per_symbol c + 1 \<Longrightarrow> modem_shaper A c = Some (Inl Undefined_Behaviour)"
    "\<not> 2 ^ 31 \<le> rrc_span_symbols c * samples_per_symbol c + 1 \<Longrightarrow> modem_shaper A c = None \<or> (\<exists>p. modem_shaper A c = Some (Inr p))"
    using assms by (auto simp: modem_shaper_def rrc_num_taps_def new_pulse_shaper_def Let_def split: Option.bind_split)
qed

lemma loops_start:
  "\<exists>c. new_carrier A LOOP_BANDWIDTH = Inr c" "2 \<le> sps \<Longrightarrow> \<exists>t. new_timing A sps LOOP_BANDWIDTH = Inr t"
  by (simp_all add: new_carrier_def new_timing_def LOOP_BANDWIDTH_def Let_def)

text \<open>What construction makes of a validated configuration.\<close>

lemma constructed:
  fixes A :: arith
  assumes "parse_args stod load argv = Returns opts"
  defines "c \<equiv> app_config opts"
  obtains (hangs) "construct A c = None" "rrc_span_symbols c * samples_per_symbol c + 1 < 2 ^ 31"
  | (fails) "construct A c = Some (Inl Undefined_Behaviour)" "2 ^ 31 \<le> rrc_span_symbols c * samples_per_symbol c + 1"
  | (runs) tr v where "construct A c = Some (Inr (tr, v))" "new_transmitter A c = Some (Inr tr)" "build_receiver A c = Some (Inr v)"
      "rrc_span_symbols c * samples_per_symbol c + 1 < 2 ^ 31"
proof -
  note range = parse_args_in_range [OF assms(1), folded c_def]
  note shaper = shaper_errors [OF range(3-6), of A]
  obtain e where e: "new_encoder c = Inr e" using range(1) by (simp add: new_encoder_def)
  obtain d where d: "new_modem_decoder c = Inr d" using range(1) by (simp add: new_modem_decoder_def new_decoder_def)
  obtain k where k: "new_carrier A LOOP_BANDWIDTH = Inr k" using loops_start(1) by blast
  obtain t where t: "new_timing A (samples_per_symbol c) LOOP_BANDWIDTH = Inr t" using loops_start(2) range(3) by blast
  show thesis
  proof (cases "2 ^ 31 \<le> rrc_span_symbols c * samples_per_symbol c + 1")
    case True
    then show thesis using shaper(1) fails by (simp add: construct_def new_transmitter_def e)
  next
    case False
    consider "modem_shaper A c = None" | p where "modem_shaper A c = Some (Inr p)" using shaper(2) [OF False] by (elim disjE exE)
    then show thesis
    proof cases
      case 1
      then show thesis using hangs False by (simp add: construct_def new_transmitter_def e)
    next
      case 2
      then show thesis using runs False by (simp add: construct_def new_transmitter_def build_receiver_def e d k t)
    qed
  qed
qed

text \<open>C37. Starting is safe, and what it leaves is known. The constructors throw nothing on the options
  the command line leaves; their one failure is the overflow of the number of filter taps, which
  the validation does not bound, and it happens exactly from 2147483648 taps on. A modem that runs has
  an encoder whose every burst can be decoded at the rate its decoder was built for, both with the
  configuration of the command line. It has a radio unless the driver found no device twice; with one,
  each direction of the mode runs its thread. A direction has its stream only if the driver
  accepted its whole configuration, and then unless the other direction's failure made
  \<open>main\<close> construct the radio again; so after a driver exception the threads of a mode
  can run on a radio without streams.\<close>

theorem modem_starts:
  "(\<forall>e. start_modem A stod load argv a = Some (Failed e) \<longrightarrow> e = Undefined_Behaviour)
    \<and> (\<forall>opts. parse_args stod load argv = Returns opts \<longrightarrow>
        (start_modem A stod load argv a = Some (Failed Undefined_Behaviour)
          \<longleftrightarrow> 2 ^ 31 \<le> rrc_span_symbols (app_config opts) * samples_per_symbol (app_config opts) + 1))
    \<and> (\<forall>m. start_modem A stod load argv a = Some (Running m) \<longrightarrow>
        parse_args stod load argv = Returns (modem_opts m)
        \<and> new_transmitter A (app_config (modem_opts m)) = Some (Inr (modem_transmitter m))
        \<and> build_receiver A (app_config (modem_opts m)) = Some (Inr (modem_receiver m))
        \<and> encoder_ok (tr_encoder (modem_transmitter m))
        \<and> code_rate (dec_fec (rcv_decoder (modem_receiver m))) = use_code_rate (enc_config (tr_encoder (modem_transmitter m)))
        \<and> (modem_radio m = None \<longleftrightarrow> uhd a \<and> \<not> device_found a \<and> \<not> device_found_again a)
        \<and> (Tx_Thread \<in> set (modem_threads m) \<longleftrightarrow> app_mode (modem_opts m) \<noteq> RX_ONLY \<and> modem_radio m \<noteq> None)
        \<and> (Rx_Thread \<in> set (modem_threads m) \<longleftrightarrow> app_mode (modem_opts m) \<noteq> TX_ONLY \<and> modem_radio m \<noteq> None)
        \<and> (\<forall>r. modem_radio m = Some r \<longrightarrow>
             (tx_stream r \<longleftrightarrow> uhd a \<and> device_found a \<and> app_mode (modem_opts m) \<noteq> RX_ONLY \<and> 5 \<le> tx_accepted a
                \<and> (fully_configured (app_mode (modem_opts m)) a \<or> \<not> device_found_again a))
           \<and> (rx_stream r \<longleftrightarrow> uhd a \<and> device_found a \<and> app_mode (modem_opts m) \<noteq> TX_ONLY
                \<and> fully_configured (app_mode (modem_opts m)) a)))"
proof (cases "parse_args stod load argv")
  case (Returns opts)
  let ?c = "app_config opts" and ?mode = "app_mode opts"
  let ?radio = "start_radio ?c ?mode a"
  have threads: "Tx_Thread \<in> set (threads_of ?c ?mode b) \<longleftrightarrow> ?mode \<noteq> RX_ONLY \<and> b"
    "Rx_Thread \<in> set (threads_of ?c ?mode b) \<longleftrightarrow> ?mode \<noteq> TX_ONLY \<and> b" for b
    by (cases ?mode; simp add: threads_of_def transmits_def receives_def)+
  have made: "encoder_ok (tr_encoder tr) \<and> enc_config (tr_encoder tr) = ?c" if "new_transmitter A ?c = Some (Inr tr)" for tr
    using that parse_args_in_range(1,2) [OF Returns]
    by (auto simp: new_transmitter_def then_do_Inr new_encoder_def encoder_ok_def link_config_def new_builder_def)
  show ?thesis
  proof (rule constructed [OF Returns, of A], goal_cases)
    case 1
    then show ?thesis by (simp add: start_modem_def Returns Let_def)
  next
    case 2
    then show ?thesis by (simp add: start_modem_def Returns Let_def)
  next
    case runs: (3 tr v)
    have start: "start_modem A stod load argv a = (if transmits ?mode \<and> \<not> input_starts a then Some (Exited 1)
        else if receives ?mode \<and> \<not> output_starts a then Some (Exited 1)
        else Some (Running \<lparr>modem_opts = opts, modem_radio = ?radio, modem_transmitter = tr,
          modem_receiver = v, modem_threads = threads_of ?c ?mode (?radio \<noteq> None)\<rparr>))"
      by (simp add: start_modem_def Returns Let_def runs(1))
    have "code_rate (dec_fec (rcv_decoder v)) = use_code_rate (enc_config (tr_encoder tr))"
      using build_receiver_state [OF runs(3)] made [OF runs(2)] by simp
    moreover have "(\<exists>r. ?radio = Some r) \<longleftrightarrow> \<not> (uhd a \<and> \<not> device_found a \<and> \<not> device_found_again a)"
      using started_radio(1) [of ?c ?mode a] by (metis not_None_eq)
    moreover have "\<not> 2 ^ 31 \<le> rrc_span_symbols ?c * samples_per_symbol ?c + 1" using runs(4) by simp
    ultimately show ?thesis
      unfolding start Returns using made [OF runs(2)] runs(2,3) started_radio [of ?c ?mode a] threads
      by (simp split: if_split)
  qed
qed (simp_all add: start_modem_def)

theorem modem_starts_witness:
  "\<exists>m. start_modem exact_arith (\<lambda>_. None) no_config [''qpsk_b200'']
      \<lparr>uhd = True, device_found = True, tx_accepted = 5, rx_accepted = 3, device_found_again = True, input_starts = True, output_starts = True\<rparr> = Some (Running m)
    \<and> encoder_ok (tr_encoder (modem_transmitter m)) \<and> code_rate (dec_fec (rcv_decoder (modem_receiver m))) = RATE_1_2
    \<and> Tx_Thread \<in> set (modem_threads m) \<and> Rx_Thread \<in> set (modem_threads m)
    \<and> (\<exists>r. modem_radio m = Some r \<and> \<not> tx_stream r \<and> \<not> rx_stream r)"
proof -
  let ?a = "\<lparr>uhd = True, device_found = True, tx_accepted = 5, rx_accepted = 3, device_found_again = True, input_starts = True, output_starts = True\<rparr>"
  obtain tr v where "new_transmitter exact_arith modem_defaults = Some (Inr tr)" "build_receiver exact_arith modem_defaults = Some (Inr v)"
    using default_transmitter default_receiver by blast
  then obtain m where m: "start_modem exact_arith (\<lambda>_. None) no_config [''qpsk_b200''] ?a = Some (Running m)" "modem_receiver m = v"
    by (simp add: start_modem_def construct_def parse_args_defaults Let_def)
  note run = modem_starts [of exact_arith "\<lambda>_. None" no_config "[''qpsk_b200'']" ?a, THEN conjunct2, THEN conjunct2,
    rule_format, OF m(1)]
  have "modem_opts m = \<lparr>app_config = modem_defaults, app_mode = TX_RX\<rparr>"
    using run parse_args_defaults by auto
  moreover obtain r where "modem_radio m = Some r" using run by (auto simp: not_None_eq)
  moreover have "use_code_rate modem_defaults = RATE_1_2" by (simp add: modem_defaults_def)
  ultimately show ?thesis
    using m(1) run build_receiver_state [of exact_arith modem_defaults "modem_receiver m"]
    by (intro exI [of _ m]) (auto simp: fully_configured_def)
qed

end
