(* ===== verification/Framing.thy ===== *)
theory Framing
  imports Prelude "HOL-Library.Sublist"
begin

text \<open>
  The length-prefix framing of \<^verbatim>\<open>src/ltp_cla/convergence_layer_adapter.cpp\<close>, which
  the convergence layer adapter and the ingress server use to cut a TCP byte stream into messages,
  and the loop around it that both run on every read.
\<close>

section \<open>The code\<close>

definition frame_message :: "bytes \<Rightarrow> bytes" where
  "frame_message data =
    (let len = (of_nat (length data) :: u32) in
     [ucast (drop_bit 24 len AND 0xFF), ucast (drop_bit 16 len AND 0xFF),
      ucast (drop_bit 8 len AND 0xFF), ucast (len AND 0xFF)] @ data)"

text \<open>The length read from the first four bytes. The sum \<open>4 + len\<close> is taken in 32 bits
  and wraps, the iterators \<open>begin() + 4 + len\<close> are not: an iterator past the end is undefined.
  The result is the message and what is left of the buffer.\<close>

definition prefix_length :: "bytes \<Rightarrow> u32" where
  "prefix_length b = push_bit 24 (ucast (b ! 0)) OR push_bit 16 (ucast (b ! 1))
     OR push_bit 8 (ucast (b ! 2)) OR ucast (b ! 3)"

definition extract_framed_message :: "bytes \<Rightarrow> (bytes \<times> bytes) option res" where
  "extract_framed_message buffer =
    (if length buffer < 4 then Inr None
     else
       let len = prefix_length buffer in
       if length buffer < unat (4 + len) then Inr None
       else if length buffer < 4 + unat len then Inl Undefined_Behaviour
       else Inr (Some (take (unat len) (drop 4 buffer), drop (4 + unat len) buffer)))"

lemma extract_consumes:
  "extract_framed_message b = Inr (Some (msg, rest)) \<Longrightarrow> length rest + 4 + length msg = length b"
  by (auto simp: extract_framed_message_def Let_def split: if_splits)

text \<open>The loop over the complete messages of the buffer: the messages handed to the callback, in
  order, and the bytes kept for the next read.\<close>

function extract_all :: "bytes \<Rightarrow> (bytes list \<times> bytes) res" where
  "extract_all buffer =
    (case extract_framed_message buffer of
       Inl e \<Rightarrow> Inl e
     | Inr None \<Rightarrow> Inr ([], buffer)
     | Inr (Some (msg, rest)) \<Rightarrow> rbind (extract_all rest) (\<lambda>(msgs, b). Inr (msg # msgs, b)))"
  by pat_completeness auto
termination
  by (relation "measure length") (auto dest!: extract_consumes)

declare extract_all.simps [simp del]

text \<open>Appending what a read returned, then the loop; and a sequence of reads.\<close>

definition receive_bytes :: "bytes \<Rightarrow> bytes \<Rightarrow> (bytes list \<times> bytes) res" where
  "receive_bytes buffer chunk = extract_all (buffer @ chunk)"

fun receive_stream :: "bytes \<Rightarrow> bytes list \<Rightarrow> (bytes list \<times> bytes) res" where
  "receive_stream buffer [] = Inr ([], buffer)"
| "receive_stream buffer (c # cs) =
     rbind (receive_bytes buffer c) (\<lambda>(msgs, b).
     rbind (receive_stream b cs) (\<lambda>(msgs', b'). Inr (msgs @ msgs', b')))"

section \<open>Messages in a stream\<close>

text \<open>The lengths that survive the 32-bit sum.\<close>

definition framable :: "bytes \<Rightarrow> bool" where
  "framable m \<longleftrightarrow> length m < 2 ^ 32 - 4"

definition frames :: "bytes list \<Rightarrow> bytes" where
  "frames ms = concat (map frame_message ms)"

lemma frames_simps [simp]:
  "frames [] = []" "frames (m # ms) = frame_message m @ frames ms" "frames (ms @ ns) = frames ms @ frames ns"
  by (simp_all add: frames_def)

lemma length_frame_message [simp]: "length (frame_message m) = 4 + length m"
  by (simp add: frame_message_def Let_def)

lemma frame_message_neq_Nil [simp]: "frame_message m \<noteq> []"
  by (simp add: frame_message_def Let_def)

lemma four_bytes:
  fixes len :: u32
  shows "push_bit 24 (ucast (ucast (drop_bit 24 len AND 0xFF) :: u8))
    OR push_bit 16 (ucast (ucast (drop_bit 16 len AND 0xFF) :: u8))
    OR push_bit 8 (ucast (ucast (drop_bit 8 len AND 0xFF) :: u8))
    OR (ucast (ucast (len AND 0xFF) :: u8) :: u32) = len"
proof -
  have FF: "0xFF = (mask 8 :: u32)" by (simp add: mask_eq_decr_exp)
  show ?thesis
    unfolding FF
  proof (rule bit_word_eqI)
    fix n assume n: "n < LENGTH(32)"
    consider "n < 8" | "8 \<le> n" "n < 16" | "16 \<le> n" "n < 24" | "24 \<le> n" by linarith
    then show "bit (push_bit 24 (ucast (ucast (drop_bit 24 len AND mask 8) :: u8))
      OR push_bit 16 (ucast (ucast (drop_bit 16 len AND mask 8) :: u8))
      OR push_bit 8 (ucast (ucast (drop_bit 8 len AND mask 8) :: u8))
      OR (ucast (ucast (len AND mask 8) :: u8) :: u32)) n = bit len n"
      by cases (use n in \<open>auto simp: bit_simps\<close>)
  qed
qed

lemma prefix_length_frame: "prefix_length (frame_message m @ rest) = of_nat (length m)"
  unfolding prefix_length_def frame_message_def Let_def by (simp add: four_bytes)

lemma framable_sum:
  assumes "framable m"
  shows "unat (of_nat (length m) :: u32) = length m" "unat (4 + of_nat (length m) :: u32) = 4 + length m"
proof -
  have b: "4 + length m < 2 ^ 32" using assms by (simp add: framable_def)
  then show "unat (of_nat (length m) :: u32) = length m" by (simp add: unat_of_nat)
  have "(4 :: u32) + of_nat (length m) = of_nat (4 + length m)" by simp
  then have "unat (4 + of_nat (length m) :: u32) = (4 + length m) mod 2 ^ 32"
    by (simp only: unat_of_nat) simp
  then show "unat (4 + of_nat (length m) :: u32) = 4 + length m" using b by simp
qed

lemma extract_frame:
  assumes "framable m"
  shows "extract_framed_message (frame_message m @ rest) = Inr (Some (m, rest))"
proof -
  have "drop 4 (frame_message m @ rest) = m @ rest" by (simp add: frame_message_def Let_def)
  then show ?thesis
    using framable_sum [OF assms]
    by (simp add: extract_framed_message_def Let_def prefix_length_frame)
qed

lemma extract_partial:
  assumes "framable m" "strict_prefix r (frame_message m)"
  shows "extract_framed_message r = Inr None"
proof -
  have len: "length r < 4 + length m" using prefix_length_less [OF assms(2)] by simp
  show ?thesis
  proof (cases "length r < 4")
    case False
    from assms(2) obtain t where t: "frame_message m = r @ t" by (auto simp: strict_prefix_def prefix_def)
    have len_pos: "0 < length r" using False by linarith
    have "prefix_length r = prefix_length (r @ t)"
      using False len_pos nth_append_left [of 0 r t] nth_append_left [of 1 r t] nth_append_left [of 2 r t]
        nth_append_left [of 3 r t]
      by (simp add: prefix_length_def)
    also have "\<dots> = of_nat (length m)" using prefix_length_frame [of m "[]"] t by simp
    finally show ?thesis using False len framable_sum [OF assms(1)]
      by (simp add: extract_framed_message_def)
  qed (simp add: extract_framed_message_def)
qed

text \<open>A prefix of a framed stream: some whole frames and a proper part of the next.\<close>

definition parted :: "bytes list \<Rightarrow> bytes \<Rightarrow> nat \<Rightarrow> bytes \<Rightarrow> bool" where
  "parted ms b k r \<longleftrightarrow> b = frames (take k ms) @ r
     \<and> (if k < length ms then strict_prefix r (frame_message (ms ! k)) else k = length ms \<and> r = [])"

lemma parted_start: "parted ms [] 0 []"
  by (cases ms) (auto simp: parted_def strict_prefix_def dest: sym)

lemma parted_prefix:
  "prefix b (frames ms) \<Longrightarrow> \<exists>k r. parted ms b k r"
proof (induction ms arbitrary: b)
  case Nil
  then show ?case by (auto simp: parted_def intro: exI [of _ 0])
next
  case (Cons m ms)
  show ?case
  proof (cases "strict_prefix b (frame_message m)")
    case True
    then show ?thesis by (auto simp: parted_def intro!: exI [of _ 0])
  next
    case False
    then have "prefix (frame_message m) b"
      using Cons.prems by (auto simp: strict_prefix_def prefix_append)
    then obtain b' where b': "b = frame_message m @ b'" by (auto simp: prefix_def)
    then have "prefix b' (frames ms)" using Cons.prems by simp
    then obtain k r where "parted ms b' k r" using Cons.IH by blast
    then have "parted (m # ms) b (Suc k) r" by (simp add: parted_def b')
    then show ?thesis by blast
  qed
qed

lemma extract_all_parted:
  "\<forall>m \<in> set ms. framable m \<Longrightarrow> parted ms b k r \<Longrightarrow> extract_all b = Inr (take k ms, r)"
proof (induction ms arbitrary: b k)
  case Nil
  then show ?case by (simp add: parted_def extract_all.simps extract_framed_message_def)
next
  case (Cons m ms)
  show ?case
  proof (cases k)
    case 0
    then have "strict_prefix r (frame_message m)" "b = r" using Cons.prems(2) by (simp_all add: parted_def)
    then show ?thesis using extract_partial [of m r] Cons.prems(1) 0 by (simp add: extract_all.simps)
  next
    case (Suc k')
    then obtain b' where b: "b = frame_message m @ b'" "parted ms b' k' r"
      using Cons.prems(2) by (auto simp: parted_def split: if_splits)
    then show ?thesis
      using Cons.IH [OF _ b(2)] Cons.prems(1) Suc extract_frame [of m b']
      by (subst extract_all.simps) simp
  qed
qed

lemma extract_all_frames:
  "\<forall>m \<in> set ms. framable m \<Longrightarrow> extract_all (frames ms) = Inr (ms, [])"
  using extract_all_parted [of ms "frames ms" "length ms" "[]"] by (simp add: parted_def)

lemma receive_stream_parted:
  assumes "\<forall>m \<in> set ms. framable m" "parted ms b k r" "prefix (b @ concat cs) (frames ms)"
  shows "\<exists>k' r'. receive_stream r cs = Inr (drop k (take k' ms), r') \<and> parted ms (b @ concat cs) k' r' \<and> k \<le> k'"
  using assms(2,3)
proof (induction cs arbitrary: b k r)
  case Nil
  then show ?case by (intro exI [of _ k]) auto
next
  case (Cons c cs)
  have k: "k \<le> length ms" using Cons.prems(1) by (auto simp: parted_def split: if_splits)
  let ?ms = "drop k ms"
  have S: "frames ms = frames (take k ms) @ frames ?ms" by (metis append_take_drop_id frames_simps(3))
  have b: "b = frames (take k ms) @ r" using Cons.prems(1) by (simp add: parted_def)
  have "prefix (frames (take k ms) @ ((r @ c) @ concat cs)) (frames (take k ms) @ frames ?ms)"
    using Cons.prems(2) unfolding S b by simp
  then have "prefix ((r @ c) @ concat cs) (frames ?ms)" by (simp only: same_prefix_prefix)
  then have "prefix (r @ c) (frames ?ms)" by (rule append_prefixD)
  then obtain j r1 where j: "parted ?ms (r @ c) j r1" using parted_prefix by blast
  then have p: "parted ms (b @ c) (k + j) r1"
    using k by (auto simp: parted_def b take_add split: if_splits)
  have "extract_all (r @ c) = Inr (take j ?ms, r1)"
    by (rule extract_all_parted [OF _ j]) (use assms(1) in_set_dropD in fast)
  moreover obtain k' r' where "receive_stream r1 cs = Inr (drop (k + j) (take k' ms), r')"
    "parted ms ((b @ c) @ concat cs) k' r'" "k + j \<le> k'"
    using Cons.IH [OF p] Cons.prems(2) by auto
  moreover have "take j (drop k ms) @ drop (k + j) (take k' ms) = drop k (take k' ms)" if "k + j \<le> k'"
    using that le_diff_conv2 [of k k' j] append_take_drop_id [of j "drop k (take k' ms)"]
    by (simp add: drop_take min_def add.commute)
  ultimately show ?case by (auto simp: receive_bytes_def)
qed

lemma receive_prefix:
  assumes "\<forall>m \<in> set ms. framable m" "prefix (concat cs) (frames ms)"
  shows "\<exists>k r. receive_stream [] cs = Inr (take k ms, r) \<and> parted ms (concat cs) k r
    \<and> (concat cs = frames ms \<longrightarrow> take k ms = ms \<and> r = [])"
proof -
  obtain k r where k: "receive_stream [] cs = Inr (take k ms, r)" "parted ms (concat cs) k r"
    using receive_stream_parted [OF assms(1) parted_start, of cs] assms(2) by auto
  have "take k ms = ms \<and> r = []" if "concat cs = frames ms"
    using trans [OF sym [OF extract_all_parted [OF assms(1) k(2), unfolded that]] extract_all_frames [OF assms(1)]]
    by (simp only: sum.inject prod.inject)
  then show ?thesis using k by blast
qed

lemma receive_stream_append:
  "receive_stream b (cs @ ds) = rbind (receive_stream b cs) (\<lambda>(ms, b1).
     rbind (receive_stream b1 ds) (\<lambda>(ms', b2). Inr (ms @ ms', b2)))"
proof (induction cs arbitrary: b)
  case Nil
  show ?case by (cases "receive_stream b ds") auto
next
  case (Cons c cs)
  show ?case by (cases "receive_bytes b c") (auto simp: Cons.IH rbind_def split: sum.splits)
qed

section \<open>Lengths that wrap\<close>

text \<open>Four bytes that read as one of the four lengths whose sum with \<open>4\<close> wraps: without
  them, in whatever position, the loop never fails.\<close>

definition wild :: "bytes \<Rightarrow> bool" where
  "wild b \<longleftrightarrow> (\<exists>i. i + 4 \<le> length b \<and> 2 ^ 32 - 4 \<le> unat (prefix_length (drop i b)))"

lemma wild_prepend: "wild b \<Longrightarrow> wild (a @ b)"
  unfolding wild_def by (elim exE) (rule_tac x = "length a + i" in exI, simp)

lemma wild_append: "wild b \<Longrightarrow> wild (b @ a)"
  unfolding wild_def
proof (elim exE conjE)
  fix i assume i: "i + 4 \<le> length b" "2 ^ 32 - 4 \<le> unat (prefix_length (drop i b))"
  have "3 < length b - i" using i(1) by linarith
  then have "prefix_length (drop i (b @ a)) = prefix_length (drop i b)"
    by (simp add: prefix_length_def nth_append)
  then show "\<exists>i. i + 4 \<le> length (b @ a) \<and> 2 ^ 32 - 4 \<le> unat (prefix_length (drop i (b @ a)))"
    using i by (intro exI [of _ i]) simp
qed

lemma wild_suffix: "suffix b c \<Longrightarrow> wild b \<Longrightarrow> wild c"
  by (auto simp: suffix_def wild_prepend)

lemma extract_error:
  assumes "extract_framed_message b = Inl e"
  shows "e = Undefined_Behaviour \<and> wild b"
proof -
  let ?l = "prefix_length b"
  have "unat (4 + ?l) = (4 + unat ?l) mod 2 ^ 32" by (simp add: unat_word_ariths)
  then have "2 ^ 32 - 4 \<le> unat ?l" "4 \<le> length b" "e = Undefined_Behaviour"
    using assms by (auto simp: extract_framed_message_def Let_def mod_if split: if_splits)
  then show ?thesis unfolding wild_def by (intro conjI exI [of _ 0]) simp_all
qed

lemma extract_rest:
  "extract_framed_message b = Inr (Some (m, rest)) \<Longrightarrow> suffix rest b"
  by (auto simp: extract_framed_message_def Let_def suffix_drop split: if_splits)

lemma extract_all_error: "extract_all b = Inl e \<Longrightarrow> e = Undefined_Behaviour \<and> wild b"
proof (induction b rule: extract_all.induct)
  case (1 b)
  show ?case
  proof (cases "extract_framed_message b")
    case (Inr r)
    then obtain m rest where r: "r = Some (m, rest)" "extract_all rest = Inl e"
      using "1.prems" by (subst (asm) extract_all.simps) (auto simp: rbind_def split: option.splits sum.splits)
    then show ?thesis using "1.IH" [OF Inr r(1) refl r(2)] wild_suffix extract_rest Inr by blast
  qed (use "1.prems" extract_error in \<open>auto simp: extract_all.simps\<close>)
qed

lemma extract_all_rest: "extract_all b = Inr (ms, r) \<Longrightarrow> suffix r b"
proof (induction b arbitrary: ms rule: extract_all.induct)
  case (1 b)
  show ?case
  proof (cases "extract_framed_message b")
    case (Inr r1)
    show ?thesis
    proof (cases r1)
      case (Some a)
      obtain m rest where a: "a = (m, rest)" by force
      then obtain ms' where "extract_all rest = Inr (ms', r)"
        using "1.prems" Inr Some by (subst (asm) extract_all.simps) (auto simp: rbind_eq_Inr)
      then show ?thesis
        using "1.IH" [OF Inr Some a [symmetric]] extract_rest [of b m rest] Inr Some a suffix_order.trans by blast
    qed (use "1.prems" Inr in \<open>simp add: extract_all.simps\<close>)
  qed (use "1.prems" in \<open>simp add: extract_all.simps\<close>)
qed

section \<open>Properties\<close>

text \<open>C28. However TCP cuts a framed stream into reads, and wherever the stream stops, the
  receiver has delivered exactly the messages that arrived whole, in order, and keeps exactly the
  bytes of the message that did not; with the whole stream it has delivered everything.\<close>

theorem framed_stream_delivery:
  assumes "\<forall>m \<in> set ms. length m < 2 ^ 32 - 4" "prefix (concat chunks) (concat (map frame_message ms))"
  shows "\<exists>k r. receive_stream [] chunks = Inr (take k ms, r)
    \<and> concat chunks = concat (map frame_message (take k ms)) @ r
    \<and> (k < length ms \<longrightarrow> strict_prefix r (frame_message (ms ! k)))
    \<and> (concat chunks = concat (map frame_message ms) \<longrightarrow> take k ms = ms \<and> r = [])"
proof -
  have ok: "\<forall>m \<in> set ms. framable m" using assms(1) by (simp add: framable_def)
  obtain k r where k: "receive_stream [] chunks = Inr (take k ms, r)" "parted ms (concat chunks) k r"
    "concat chunks = frames ms \<longrightarrow> take k ms = ms \<and> r = []"
    using receive_prefix [OF ok, of chunks] assms(2) by (auto simp: frames_def)
  have "concat chunks = frames (take k ms) @ r" "k < length ms \<longrightarrow> strict_prefix r (frame_message (ms ! k))"
    using k(2) by (simp_all add: parted_def)
  then show ?thesis using k(1,3) unfolding frames_def by blast
qed

theorem framed_stream_delivery_witness:
  "\<exists>r. receive_stream [] [[0, 0, 0], [2, 7, 8, 0], [0, 0]] = Inr ([[7, 8]], r) \<and> r = [0, 0, 0]"
proof -
  let ?ms = "[[7, 8], [9]] :: bytes list" and ?c = "[[0, 0, 0], [2, 7, 8, 0], [0, 0]] :: bytes list"
  have f: "frame_message [7, 8] = [0, 0, 0, 2, 7, 8]" "frame_message [9] = [0, 0, 0, 1, 9]"
    by (simp_all add: frame_message_def Let_def)
  have "prefix (concat ?c) (concat (map frame_message ?ms))" by (simp add: f)
  then obtain k r where k: "receive_stream [] ?c = Inr (take k ?ms, r)"
    "concat ?c = concat (map frame_message (take k ?ms)) @ r"
    "k < length ?ms \<longrightarrow> strict_prefix r (frame_message (?ms ! k))"
    using framed_stream_delivery [of ?ms ?c] by (force simp del: receive_stream.simps)
  consider "k = 0" | "k = 1" | "2 \<le> k" by linarith
  then show ?thesis
  proof cases
    case 1
    then show ?thesis using k(2) k(3) by (auto simp: f)
  next
    case 2
    then show ?thesis using k(1,2) by (auto simp: f)
  next
    case 3
    then show ?thesis using k(2) by (auto simp: f)
  qed
qed

lemma prefix_length_FF: "prefix_length [0xFF, 0xFF, 0xFF, 0xFF, 1, 2, 3, 4] = 0xFFFFFFFF"
  by code_simp

text \<open>The four largest lengths wrap the 32-bit sum, so the check of the buffer passes and the
  copy runs past its end: eight bytes from a client are enough. Every other prefix is safe.\<close>

theorem length_prefix_overflow:
  "(extract_framed_message buffer = Inl e \<longleftrightarrow>
      e = Undefined_Behaviour \<and> 4 \<le> length buffer \<and> 2 ^ 32 - 4 \<le> unat (prefix_length buffer)
       \<and> length buffer < 4 + unat (prefix_length buffer))
   \<and> extract_framed_message [0xFF, 0xFF, 0xFF, 0xFF, 1, 2, 3, 4] = Inl Undefined_Behaviour"
proof -
  let ?l = "prefix_length buffer"
  have "unat (4 + ?l) = (4 + unat ?l) mod 2 ^ 32" by (simp add: unat_word_ariths)
  moreover have "unat ?l < 2 ^ 32" using unsigned_less [of ?l] by simp
  ultimately have sum: "unat (4 + ?l) = (if unat ?l < 2 ^ 32 - 4 then 4 + unat ?l else unat ?l - (2 ^ 32 - 4))"
    by (auto simp: mod_if)
  have "extract_framed_message buffer = Inl e \<longleftrightarrow>
      e = Undefined_Behaviour \<and> 4 \<le> length buffer \<and> 2 ^ 32 - 4 \<le> unat ?l \<and> length buffer < 4 + unat ?l"
    using sum \<open>unat ?l < 2 ^ 32\<close> by (auto simp: extract_framed_message_def Let_def split: if_splits)
  moreover have "extract_framed_message [0xFF, 0xFF, 0xFF, 0xFF, 1, 2, 3, 4] = Inl Undefined_Behaviour"
    using prefix_length_FF by (simp add: extract_framed_message_def)
  ultimately show ?thesis by blast
qed

end
