(* ===== verification/Cla.thy ===== *)
theory Cla
  imports Framing
begin

text \<open>
  The convergence layer adapter of \<^verbatim>\<open>src/ltp_cla/convergence_layer_adapter.cpp\<close>: the queue
  of encoded segments, the transmit and the receive thread with their reconnection loops, and
  starting and stopping them. What the sockets answer is the input of a thread's step; each step is
  one iteration of the loop the thread is in, its check of \<open>running\<close> included. The bytes the
  kernel accepted are kept per connection, and what the callback was given as a list.
\<close>

section \<open>State\<close>

record cla_config =
  tx_addr :: string
  tx_port :: u16
  rx_addr :: string
  rx_port :: u16
  initial_reconnect_delay_ms :: u32
  max_reconnect_delay_ms :: u32

definition default_cla_config :: cla_config where
  "default_cla_config = \<lparr>tx_addr = ''127.0.0.1'', tx_port = 5000, rx_addr = ''127.0.0.1'', rx_port = 5001,
     initial_reconnect_delay_ms = 1000, max_reconnect_delay_ms = 30000\<rparr>"

text \<open>Where the threads are: in \<open>reconnect_loop\<close> with the current delay and, for the
  transmitter, the frame whose write failed; at the head of the main loop; or returned.\<close>

datatype tx_phase =
    TX_Connecting u32 "bytes option"
  | TX_Waiting
  | TX_Writing bytes nat   \<comment> \<open>the frame and \<open>written\<close>\<close>
  | TX_Exited

datatype rx_phase =
    RX_Connecting u32
  | RX_Polling
  | RX_Exited

record cla =
  cla_cfg :: cla_config
  running :: bool
  tx_queue :: "bytes list"
  tx_connected :: bool
  tx_phase :: tx_phase
  tx_wire :: "bytes list"
  rx_connected :: bool
  rx_phase :: rx_phase
  rx_buffer :: bytes
  segments_received :: "bytes list"

definition new_cla :: "cla_config \<Rightarrow> cla" where
  "new_cla cfg = \<lparr>cla_cfg = cfg, running = False, tx_queue = [], tx_connected = False, tx_phase = TX_Exited,
     tx_wire = [], rx_connected = False, rx_phase = RX_Exited, rx_buffer = [], segments_received = []\<rparr>"

section \<open>Operations\<close>

definition cla_send_segment :: "cla \<Rightarrow> bytes \<Rightarrow> cla" where
  "cla_send_segment s encoded_segment = s\<lparr>tx_queue := tx_queue s @ [encoded_segment]\<rparr>"

definition cla_start :: "cla \<Rightarrow> cla" where
  "cla_start s =
    (if running s then s
     else s\<lparr>running := True,
            tx_phase := TX_Connecting (initial_reconnect_delay_ms (cla_cfg s)) None,
            rx_phase := RX_Connecting (initial_reconnect_delay_ms (cla_cfg s)),
            rx_buffer := []\<rparr>)"

text \<open>\<open>stop\<close> clears the flag, joins the threads and, once both have returned, closes.\<close>

definition cla_request_stop :: "cla \<Rightarrow> cla" where
  "cla_request_stop s = (if \<not> running s then s else s\<lparr>running := False\<rparr>)"

definition cla_finish_stop :: "cla \<Rightarrow> cla option" where
  "cla_finish_stop s =
    (if tx_phase s = TX_Exited \<and> rx_phase s = RX_Exited
     then Some (s\<lparr>tx_connected := False, rx_connected := False\<rparr>)
     else None)"

text \<open>\<open>delay_ms * 2\<close> is a 32-bit product.\<close>

definition next_delay :: "cla_config \<Rightarrow> u32 \<Rightarrow> u32" where
  "next_delay cfg delay_ms = min (delay_ms * 2) (max_reconnect_delay_ms cfg)"

section \<open>The transmit thread\<close>

text \<open>What the sockets answer: the connection attempt succeeds or not, \<open>write\<close> takes
  some bytes or fails; \<open>Woken\<close> is the wait on the queue returning or a check of the flag.\<close>

datatype tx_event = TX_Connected | TX_Refused | TX_Woken | TX_Wrote nat | TX_Write_Failed

fun tx_step :: "cla \<Rightarrow> tx_event \<Rightarrow> cla option" where
  "tx_step s ev =
    (case tx_phase s of
       TX_Connecting delay_ms pending \<Rightarrow>
         if \<not> running s then (if ev = TX_Woken then Some (s\<lparr>tx_phase := TX_Exited\<rparr>) else None)
         else
           (case ev of
              TX_Connected \<Rightarrow> Some (s\<lparr>tx_connected := True, tx_wire := tx_wire s @ [[]],
                  tx_phase := (case pending of None \<Rightarrow> TX_Waiting | Some framed \<Rightarrow> TX_Writing framed 0)\<rparr>)
            | TX_Refused \<Rightarrow> Some (s\<lparr>tx_phase := TX_Connecting (next_delay (cla_cfg s) delay_ms) pending\<rparr>)
            | _ \<Rightarrow> None)
     | TX_Waiting \<Rightarrow>
         if ev \<noteq> TX_Woken then None
         else if \<not> running s then Some (s\<lparr>tx_phase := TX_Exited\<rparr>)
         else (case tx_queue s of
                 [] \<Rightarrow> None
               | segment # queue \<Rightarrow>
                   Some (s\<lparr>tx_queue := queue, tx_phase := TX_Writing (frame_message segment) 0\<rparr>))
     | TX_Writing framed written \<Rightarrow>
         if \<not> running s then (if ev = TX_Woken then Some (s\<lparr>tx_phase := TX_Exited\<rparr>) else None)
         else
           (case ev of
              TX_Wrote n \<Rightarrow>
                if n = 0 \<or> written + n > length framed then None
                else Some (s\<lparr>tx_wire := butlast (tx_wire s) @ [last (tx_wire s) @ take n (drop written framed)],
                    tx_phase := (if written + n < length framed then TX_Writing framed (written + n) else TX_Waiting)\<rparr>)
            | TX_Write_Failed \<Rightarrow>
                Some (s\<lparr>tx_connected := False,
                    tx_phase := TX_Connecting (initial_reconnect_delay_ms (cla_cfg s)) (Some framed)\<rparr>)
            | _ \<Rightarrow> None)
     | TX_Exited \<Rightarrow> None)"

section \<open>The receive thread\<close>

datatype rx_event = RX_Connected | RX_Refused | RX_Woken | RX_Timeout | RX_Interrupted | RX_Poll_Error
  | RX_Hangup | RX_Read bytes | RX_Read_Failed

text \<open>Losing the connection: what was buffered is dropped.\<close>

definition rx_lost :: "cla \<Rightarrow> cla" where
  "rx_lost s = s\<lparr>rx_connected := False, rx_buffer := [],
     rx_phase := RX_Connecting (initial_reconnect_delay_ms (cla_cfg s))\<rparr>"

fun rx_step :: "cla \<Rightarrow> rx_event \<Rightarrow> cla option res" where
  "rx_step s ev =
    (case rx_phase s of
       RX_Connecting delay_ms \<Rightarrow>
         if \<not> running s then Inr (if ev = RX_Woken then Some (s\<lparr>rx_phase := RX_Exited\<rparr>) else None)
         else
           (case ev of
              RX_Connected \<Rightarrow> Inr (Some (s\<lparr>rx_connected := True, rx_phase := RX_Polling\<rparr>))
            | RX_Refused \<Rightarrow> Inr (Some (s\<lparr>rx_phase := RX_Connecting (next_delay (cla_cfg s) delay_ms)\<rparr>))
            | _ \<Rightarrow> Inr None)
     | RX_Polling \<Rightarrow>
         if \<not> running s then Inr (if ev = RX_Woken then Some (s\<lparr>rx_phase := RX_Exited\<rparr>) else None)
         else
           (case ev of
              RX_Timeout \<Rightarrow> Inr (Some s)
            | RX_Interrupted \<Rightarrow> Inr (Some s)
            | RX_Poll_Error \<Rightarrow> Inr (Some (s\<lparr>rx_phase := RX_Exited\<rparr>))
            | RX_Hangup \<Rightarrow> Inr (Some (rx_lost s))
            | RX_Read_Failed \<Rightarrow> Inr (Some (rx_lost s))
            | RX_Read chunk \<Rightarrow>
                if chunk = [] \<or> 4096 < length chunk then Inr None
                else
                  rbind (receive_bytes (rx_buffer s) chunk) (\<lambda>(msgs, buffer).
                  Inr (Some (s\<lparr>rx_buffer := buffer, segments_received := segments_received s @ msgs\<rparr>)))
            | _ \<Rightarrow> Inr None)
     | RX_Exited \<Rightarrow> Inr None)"

section \<open>Runs\<close>

datatype tx_op = Op_Send bytes | Op_Stop | Op_Tx tx_event

fun tx_run :: "cla \<Rightarrow> tx_op list \<Rightarrow> cla option" where
  "tx_run s [] = Some s"
| "tx_run s (Op_Send seg # ops) = tx_run (cla_send_segment s seg) ops"
| "tx_run s (Op_Stop # ops) = tx_run (cla_request_stop s) ops"
| "tx_run s (Op_Tx ev # ops) = (case tx_step s ev of None \<Rightarrow> None | Some t \<Rightarrow> tx_run t ops)"

fun sent_segments :: "tx_op list \<Rightarrow> bytes list" where
  "sent_segments [] = []"
| "sent_segments (Op_Send seg # ops) = seg # sent_segments ops"
| "sent_segments (_ # ops) = sent_segments ops"

text \<open>What one \<open>read\<close> can return.\<close>

definition readable :: "bytes list \<Rightarrow> bool" where
  "readable chunks \<longleftrightarrow> (\<forall>c \<in> set chunks. c \<noteq> [] \<and> length c \<le> 4096)"

section \<open>What is on the wire\<close>

text \<open>The stream of a connection is the frames of a group of segments and a proper part of one more
  frame.\<close>

definition stream_of :: "bytes list \<Rightarrow> bytes \<Rightarrow> bool" where
  "stream_of g w \<longleftrightarrow> (\<forall>m \<in> set g. framable m) \<and> (\<exists>m r. framable m \<and> strict_prefix r (frame_message m) \<and> w = frames g @ r)"

definition tx_ok :: "cla \<Rightarrow> bytes list \<Rightarrow> bytes list list \<Rightarrow> bytes list \<Rightarrow> bool" where
  "tx_ok s sent gs lost \<longleftrightarrow>
     sent = concat gs @ lost @ tx_queue s \<and> (\<forall>m \<in> set sent. framable m)
     \<and> list_all2 stream_of gs (tx_wire s) \<and> length lost \<le> 1
     \<and> (case tx_phase s of
          TX_Connecting d pending \<Rightarrow> map frame_message lost = (case pending of None \<Rightarrow> [] | Some f \<Rightarrow> [f])
        | TX_Waiting \<Rightarrow> lost = [] \<and> gs \<noteq> [] \<and> last (tx_wire s) = frames (last gs)
        | TX_Writing f w \<Rightarrow> map frame_message lost = [f] \<and> w < length f \<and> gs \<noteq> []
            \<and> last (tx_wire s) = frames (last gs) @ take w f
        | TX_Exited \<Rightarrow> True)"

lemma stream_of_frames: "\<forall>m \<in> set g. framable m \<Longrightarrow> stream_of g (frames g)"
  unfolding stream_of_def by (auto intro!: exI [of _ "[]"] simp: framable_def frame_message_def Let_def)

lemma stream_of_part:
  "\<forall>m \<in> set g. framable m \<Longrightarrow> framable m \<Longrightarrow> w < length (frame_message m) \<Longrightarrow> stream_of g (frames g @ take w (frame_message m))"
  unfolding stream_of_def
  by (auto intro!: exI [of _ m] simp: strict_prefix_def take_is_prefix)

lemma extract_stream:
  assumes "stream_of g w" "concat cs = w"
  shows "\<exists>r. receive_stream [] cs = Inr (g, r)"
proof -
  obtain m r where m: "framable m" "strict_prefix r (frame_message m)" "w = frames g @ r" "\<forall>x \<in> set g. framable x"
    using assms(1) by (auto simp: stream_of_def)
  have ok: "\<forall>x \<in> set (g @ [m]). framable x" using m by simp
  have p: "parted (g @ [m]) w (length g) r" using m by (simp add: parted_def)
  have "prefix w (frames (g @ [m]))" using m(2,3) by (auto simp: strict_prefix_def)
  then obtain k' r' where k: "receive_stream [] cs = Inr (take k' (g @ [m]), r')" "parted (g @ [m]) w k' r'"
    using receive_stream_parted [OF ok parted_start, of cs] assms(2) by auto
  have "take k' (g @ [m]) = g"
    using extract_all_parted [OF ok p] extract_all_parted [OF ok k(2)] by simp
  then show ?thesis using k(1) by metis
qed

section \<open>The invariant of the transmitter\<close>

lemma tx_ok_start: "tx_ok (cla_start (new_cla cfg)) [] [] []"
  by (simp add: tx_ok_def cla_start_def new_cla_def)

lemma tx_ok_send:
  "tx_ok s sent gs lost \<Longrightarrow> framable seg \<Longrightarrow> tx_ok (cla_send_segment s seg) (sent @ [seg]) gs lost"
  by (cases "tx_phase s") (auto simp: tx_ok_def cla_send_segment_def)

lemma tx_ok_stop: "tx_ok s sent gs lost \<Longrightarrow> tx_ok (cla_request_stop s) sent gs lost"
  by (cases "tx_phase s") (auto simp: tx_ok_def cla_request_stop_def)

lemma last_connection:
  assumes "list_all2 stream_of gs ws" "gs \<noteq> []"
  shows "ws \<noteq> []" "list_all2 stream_of (butlast gs) (butlast ws)" "stream_of (last gs) (last ws)"
proof -
  show ne: "ws \<noteq> []" using assms by auto
  show "list_all2 stream_of (butlast gs) (butlast ws)" "stream_of (last gs) (last ws)"
    using assms ne by (auto simp: list_all2_conv_all_nth nth_butlast last_conv_nth)
qed

lemma replace_last:
  assumes "list_all2 stream_of gs ws" "gs \<noteq> []" "stream_of g w"
  shows "list_all2 stream_of (butlast gs @ [g]) (butlast ws @ [w])"
  using last_connection [OF assms(1,2)] assms(3) by (simp add: list_all2_appendI)

lemma concat_butlast: "gs \<noteq> [] \<Longrightarrow> concat (butlast gs) @ last gs = concat gs"
  by (metis append_butlast_last_id concat.simps(1) concat.simps(2) concat_append append_Nil2)

lemma tx_ok_step:
  assumes ok: "tx_ok s sent gs lost" and step: "tx_step s ev = Some t"
  shows "\<exists>gs' lost'. tx_ok t sent gs' lost'"
proof (cases "tx_phase s")
  case (TX_Connecting d pending)
  show ?thesis
  proof (cases "ev = TX_Connected \<and> running s")
    case True
    then have t: "t = s\<lparr>tx_connected := True, tx_wire := tx_wire s @ [[]],
        tx_phase := (case pending of None \<Rightarrow> TX_Waiting | Some framed \<Rightarrow> TX_Writing framed 0)\<rparr>"
      using step TX_Connecting by simp
    have "tx_ok t sent (gs @ [[]]) lost"
      using ok TX_Connecting stream_of_frames [of "[]"]
      by (cases pending) (auto simp: tx_ok_def t list_all2_appendI map_eq_Cons_conv)
    then show ?thesis by blast
  next
    case False
    then have "tx_ok t sent gs lost"
      using ok step TX_Connecting by (auto simp: tx_ok_def split: if_splits tx_event.splits)
    then show ?thesis by blast
  qed
next
  case TX_Waiting
  show ?thesis
  proof (cases "running s")
    case True
    then obtain seg q where q: "tx_queue s = seg # q" "t = s\<lparr>tx_queue := q, tx_phase := TX_Writing (frame_message seg) 0\<rparr>"
      using step TX_Waiting by (auto split: if_splits list.splits)
    have "tx_ok t sent gs [seg]" using ok TX_Waiting q by (auto simp: tx_ok_def frame_message_def Let_def)
    then show ?thesis by blast
  next
    case False
    then have "tx_ok t sent gs lost" using ok step TX_Waiting by (auto simp: tx_ok_def split: if_splits)
    then show ?thesis by blast
  qed
next
  case (TX_Writing f w)
  show ?thesis
  proof (cases "running s \<and> (\<exists>n. ev = TX_Wrote n)")
    case True
    then obtain n where n: "0 < n" "w + n \<le> length f" and t: "t = s\<lparr>
        tx_wire := butlast (tx_wire s) @ [last (tx_wire s) @ take n (drop w f)],
        tx_phase := (if w + n < length f then TX_Writing f (w + n) else TX_Waiting)\<rparr>"
      using step TX_Writing by (auto split: if_splits)
    obtain m where m: "lost = [m]" "f = frame_message m" "framable m"
      using ok TX_Writing by (auto simp: tx_ok_def map_eq_Cons_conv)
    have o: "list_all2 stream_of gs (tx_wire s)" "gs \<noteq> []" "last (tx_wire s) = frames (last gs) @ take w f"
      using ok TX_Writing by (simp_all add: tx_ok_def)
    have lastok: "\<forall>x \<in> set (last gs). framable x"
      using last_connection(3) [OF o(1,2)] by (simp add: stream_of_def)
    have w: "last (tx_wire s) @ take n (drop w f) = frames (last gs) @ take (w + n) f"
      by (simp add: o(3) take_add)
    show ?thesis
    proof (cases "w + n < length f")
      case True
      have "stream_of (last gs) (frames (last gs) @ take (w + n) f)"
        using stream_of_part [OF lastok m(3)] True m(2) by simp
      from replace_last [OF o(1,2) this] have "tx_ok t sent gs lost"
        using ok True TX_Writing o(2) unfolding tx_ok_def t w by simp
      then show ?thesis by blast
    next
      case False
      then have full: "take (w + n) f = frame_message m" using n m(2) by simp
      have "stream_of (last gs @ [m]) (frames (last gs @ [m]))"
        using lastok m(3) by (intro stream_of_frames) auto
      from replace_last [OF o(1,2) this] have "tx_ok t sent (butlast gs @ [last gs @ [m]]) []"
        using ok False TX_Writing m(1) concat_butlast [OF o(2)] unfolding tx_ok_def t w full
        by (auto simp flip: append_assoc)
      then show ?thesis by blast
    qed
  next
    case False
    then have "tx_ok t sent gs lost"
      using ok step TX_Writing by (auto simp: tx_ok_def split: if_splits tx_event.splits)
    then show ?thesis by blast
  qed
next
  case TX_Exited
  then show ?thesis using step by simp
qed

lemma tx_ok_run:
  "tx_ok s sent gs lost \<Longrightarrow> tx_run s ops = Some t \<Longrightarrow> \<forall>m \<in> set (sent_segments ops). framable m
    \<Longrightarrow> \<exists>gs' lost'. tx_ok t (sent @ sent_segments ops) gs' lost'"
proof (induction ops arbitrary: s sent gs lost)
  case (Cons op ops)
  show ?case
  proof (cases op)
    case (Op_Send seg)
    then show ?thesis using Cons.IH [OF tx_ok_send [OF Cons.prems(1)], of seg] Cons.prems by simp
  next
    case Op_Stop
    then show ?thesis using Cons.IH [OF tx_ok_stop [OF Cons.prems(1)]] Cons.prems by simp
  next
    case (Op_Tx ev)
    then obtain u where u: "tx_step s ev = Some u" "tx_run u ops = Some t"
      using Cons.prems(2) by (auto simp del: tx_step.simps split: option.splits)
    then show ?thesis using tx_ok_step [OF Cons.prems(1) u(1)] Cons.IH [OF _ u(2)] Cons.prems(3) Op_Tx by auto
  qed
qed auto

section \<open>The receiver\<close>

text \<open>What the receive thread read on each of its connections, chunk by chunk.\<close>

definition note_read :: "bytes list list \<Rightarrow> rx_event \<Rightarrow> bytes list list" where
  "note_read reads ev =
    (case ev of
       RX_Connected \<Rightarrow> reads @ [[]]
     | RX_Read chunk \<Rightarrow> butlast reads @ [last reads @ [chunk]]
     | _ \<Rightarrow> reads)"

definition reads_of :: "rx_event list \<Rightarrow> bytes list list" where
  "reads_of evs = foldl note_read [] evs"

lemma reads_of_snoc [simp]: "reads_of (evs @ [ev]) = note_read (reads_of evs) ev"
  by (simp add: reads_of_def)

text \<open>Whatever happened to its connections, the messages handed on are those of each stream by itself.\<close>

definition rx_ok :: "bytes list list \<Rightarrow> cla \<Rightarrow> bool" where
  "rx_ok reads s \<longleftrightarrow>
     (\<exists>mss. list_all2 (\<lambda>cs ms. \<exists>b. receive_stream [] cs = Inr (ms, b)) reads mss \<and> segments_received s = concat mss)
     \<and> (case rx_phase s of
          RX_Connecting d \<Rightarrow> rx_buffer s = []
        | RX_Polling \<Rightarrow> reads \<noteq> [] \<and> (\<exists>ms. receive_stream [] (last reads) = Inr (ms, rx_buffer s))
        | RX_Exited \<Rightarrow> True)"

lemma rx_ok_cong:
  "rx_phase t = rx_phase s \<Longrightarrow> rx_buffer t = rx_buffer s \<Longrightarrow> segments_received t = segments_received s
    \<Longrightarrow> rx_ok reads t = rx_ok reads s"
  by (cases "rx_phase s") (simp_all add: rx_ok_def)

lemma rx_ok_start: "rx_ok (reads_of []) (cla_start (new_cla cfg))"
  by (simp add: rx_ok_def reads_of_def cla_start_def new_cla_def)

lemma rx_ok_read:
  assumes ok: "rx_ok reads s" "rx_phase s = RX_Polling" and r: "receive_bytes (rx_buffer s) chunk = Inr (msgs, buffer)"
  shows "rx_ok (note_read reads (RX_Read chunk))
    (s\<lparr>rx_buffer := buffer, segments_received := segments_received s @ msgs\<rparr>)"
proof -
  obtain mss where mss: "list_all2 (\<lambda>cs ms. \<exists>b. receive_stream [] cs = Inr (ms, b)) reads mss"
    "segments_received s = concat mss" using ok by (auto simp: rx_ok_def)
  obtain ms where ms: "reads \<noteq> []" "receive_stream [] (last reads) = Inr (ms, rx_buffer s)"
    using ok by (auto simp: rx_ok_def)
  obtain xs x where x: "reads = xs @ [x]" using ms(1) by (cases reads rule: rev_cases) auto
  then obtain ys y where e: "reads = xs @ [x]" "mss = ys @ [y]"
    using mss(1) by (auto simp: list_all2_append1 list_all2_Cons1)
  have l: "list_all2 (\<lambda>cs ms. \<exists>b. receive_stream [] cs = Inr (ms, b)) xs ys" "y = ms"
    using mss(1) ms(2) list_all2_lengthD [OF mss(1)] by (auto simp: e list_all2_append)
  have n: "receive_stream [] (x @ [chunk]) = Inr (ms @ msgs, buffer)"
    using ms(2) r by (simp add: e receive_stream_append)
  then have "list_all2 (\<lambda>cs ms. \<exists>b. receive_stream [] cs = Inr (ms, b)) (xs @ [x @ [chunk]]) (ys @ [ms @ msgs])"
    using l(1) by (simp add: list_all2_appendI)
  then show ?thesis using n ok(2) mss(2) l(2) unfolding rx_ok_def
    by (intro conjI exI [of _ "ys @ [ms @ msgs]"]) (simp_all add: note_read_def e)
qed

lemma rx_ok_step:
  assumes ok: "rx_ok reads s" and step: "rx_step s ev = Inr (Some t)"
  shows "rx_ok (note_read reads ev) t"
proof (cases "rx_phase s")
  case (RX_Connecting d)
  show ?thesis
  proof (cases "ev = RX_Connected \<and> running s")
    case True
    obtain mss where "list_all2 (\<lambda>cs ms. \<exists>b. receive_stream [] cs = Inr (ms, b)) reads mss"
      "segments_received s = concat mss" using ok by (auto simp: rx_ok_def)
    then show ?thesis
      using ok step RX_Connecting True unfolding rx_ok_def note_read_def
      by (intro conjI exI [of _ "mss @ [[]]"]) (auto simp: list_all2_appendI)
  next
    case False
    then show ?thesis using ok step RX_Connecting
      by (cases ev) (auto simp: rx_ok_def note_read_def split: if_splits)
  qed
next
  case RX_Polling
  show ?thesis
  proof (cases "\<exists>chunk. ev = RX_Read chunk \<and> running s")
    case True
    then show ?thesis using rx_ok_read [OF ok RX_Polling] step RX_Polling by (auto simp: rbind_eq_Inr split: if_splits)
  next
    case False
    then show ?thesis using ok step RX_Polling
      by (cases ev) (auto simp: rx_ok_def rx_lost_def note_read_def split: if_splits)
  qed
next
  case RX_Exited
  then show ?thesis using step by simp
qed

section \<open>From one adapter to the other\<close>

text \<open>The bytes of \<open>chunks\<close> are the frames of the first \<open>k\<close> segments, whole, and a proper part of
  one more frame, the next one's if there is a next one.\<close>

definition whole_frames :: "bytes list \<Rightarrow> nat \<Rightarrow> bytes \<Rightarrow> bool" where
  "whole_frames h k w \<longleftrightarrow> k \<le> length h
     \<and> (\<exists>m r. w = frames (take k h) @ r \<and> framable m \<and> strict_prefix r (frame_message m) \<and> (k < length h \<longrightarrow> m = h ! k))"

lemma whole_stream: "stream_of h w \<Longrightarrow> whole_frames h (length h) w"
  by (auto simp: stream_of_def whole_frames_def)

lemma hear_stream:
  assumes s: "stream_of h w" and p: "prefix (concat cs) w"
  shows "\<exists>k b. receive_stream [] cs = Inr (take k h, b) \<and> whole_frames h k (concat cs)
    \<and> (concat cs = w \<longrightarrow> k = length h)"
proof -
  obtain m r where m: "framable m" "strict_prefix r (frame_message m)" "w = frames h @ r" "\<forall>x \<in> set h. framable x"
    using s by (auto simp: stream_of_def)
  have ok: "\<forall>x \<in> set (h @ [m]). framable x" using m by simp
  have "prefix w (frames (h @ [m]))" using m(2,3) by (auto simp: strict_prefix_def)
  then have "prefix (concat cs) (frames (h @ [m]))" using p by (rule prefix_order.trans [rotated])
  then obtain k b where k: "receive_stream [] cs = Inr (take k (h @ [m]), b)" "parted (h @ [m]) (concat cs) k b"
    using receive_prefix [OF ok] by blast
  have "length r < length (frame_message m)" using m(2) by (rule prefix_length_less)
  then have "length (concat cs) < length (frames (h @ [m]))"
    using prefix_length_le [OF p] m(3) by simp
  then have le: "k \<le> length h" using k(2) by (auto simp: parted_def split: if_splits)
  have b: "concat cs = frames (take k h) @ b" "strict_prefix b (frame_message ((h @ [m]) ! k))"
    using k(2) le by (simp_all add: parted_def)
  have "framable ((h @ [m]) ! k)" using ok le by (auto simp: nth_append)
  then have "whole_frames h k (concat cs)"
    using b le unfolding whole_frames_def by (intro conjI exI [of _ "(h @ [m]) ! k"] exI [of _ b]) (simp_all add: nth_append)
  moreover have "k = length h" if "concat cs = w"
    using extract_stream [OF s that] k(1) le by (auto dest: arg_cong [where f = length])
  ultimately show ?thesis using k(1) le by auto
qed

text \<open>One connection of the receiver may carry several of the transmitter's, one after the other. Then a
  connection that is not the last of its group must have ended between two frames.\<close>

definition between_frames :: "bytes \<Rightarrow> bool" where
  "between_frames w \<longleftrightarrow> (\<exists>ms. extract_all w = Inr (ms, []))"

definition carried :: "bytes list list \<Rightarrow> bytes list list \<Rightarrow> bool" where
  "carried groups reads \<longleftrightarrow>
     list_all2 (\<lambda>g cs. prefix (concat cs) (concat g) \<and> (\<forall>w \<in> set (butlast g). between_frames w)) groups reads"

lemma stream_between: "stream_of h w \<Longrightarrow> between_frames w \<Longrightarrow> w = frames h"
proof -
  assume s: "stream_of h w" and b: "between_frames w"
  obtain m r where m: "framable m" "strict_prefix r (frame_message m)" "w = frames h @ r" "\<forall>x \<in> set h. framable x"
    using s by (auto simp: stream_of_def)
  have "extract_all w = Inr (h, r)"
    using extract_all_parted [of "h @ [m]" w "length h" r] m by (simp add: parted_def)
  then show "w = frames h" using b m(3) by (auto simp: between_frames_def)
qed

lemma stream_of_append: "\<forall>m \<in> set g. framable m \<Longrightarrow> stream_of h w \<Longrightarrow> stream_of (g @ h) (frames g @ w)"
  by (auto simp: stream_of_def)

lemma group_stream:
  "list_all2 stream_of hs g \<Longrightarrow> \<forall>w \<in> set (butlast g). between_frames w \<Longrightarrow> stream_of (concat hs) (concat g)"
proof (induction hs g rule: list_all2_induct)
  case Nil
  show ?case using stream_of_frames [of "[]"] by simp
next
  case (Cons h hs w g)
  show ?case
  proof (cases "g = []")
    case True
    then show ?thesis using Cons.hyps by simp
  next
    case False
    then have "w = frames h" using Cons.prems stream_between [OF Cons.hyps(1)] by simp
    moreover have "stream_of (concat hs) (concat g)" using Cons.IH Cons.prems False by simp
    moreover have "\<forall>m \<in> set h. framable m" using Cons.hyps(1) by (simp add: stream_of_def)
    ultimately show ?thesis using stream_of_append [of h "concat hs" "concat g"] by simp
  qed
qed

lemma concat_groups: "concat (map concat ggs) = concat (concat ggs)"
  by (induction ggs) simp_all

lemma split_groups:
  "list_all2 P gs (concat groups @ beyond) \<Longrightarrow>
    \<exists>ggs rest. gs = concat ggs @ rest \<and> list_all2 (list_all2 P) ggs groups \<and> list_all2 P rest beyond"
proof (induction groups arbitrary: gs)
  case Nil
  then show ?case by (intro exI [of _ "[]"] exI [of _ gs]) simp
next
  case (Cons g groups)
  then obtain us vs where u: "gs = us @ vs" "list_all2 P us g" "list_all2 P vs (concat groups @ beyond)"
    by (auto simp: list_all2_append2)
  then obtain ggs rest where "vs = concat ggs @ rest" "list_all2 (list_all2 P) ggs groups" "list_all2 P rest beyond"
    using Cons.IH by blast
  then show ?case using u by (intro exI [of _ "us # ggs"]) auto
qed

text \<open>So the receiver is given, connection by connection, the first of a run of the segments: those
  whose frames arrived whole.\<close>

lemma carried_segments:
  assumes ok: "tx_ok s sent gs lost" and w: "tx_wire s = concat groups @ beyond" and c: "carried groups reads"
    and r: "rx_ok reads r"
  shows "\<exists>hs ks rest. sent = concat hs @ rest @ lost @ tx_queue s \<and> (beyond = [] \<longrightarrow> rest = [])
    \<and> length hs = length reads \<and> length ks = length reads \<and> segments_received r = concat (map2 take ks hs)
    \<and> (\<forall>i < length reads. whole_frames (hs ! i) (length (hs ! i)) (concat (groups ! i))
        \<and> whole_frames (hs ! i) (ks ! i) (concat (reads ! i))
        \<and> (concat (reads ! i) = concat (groups ! i) \<longrightarrow> ks ! i = length (hs ! i)))"
proof -
  have "list_all2 stream_of gs (concat groups @ beyond)" using ok w by (simp add: tx_ok_def)
  then obtain ggs rest where g: "gs = concat ggs @ rest" "list_all2 (list_all2 stream_of) ggs groups"
    "list_all2 stream_of rest beyond" using split_groups by blast
  let ?hs = "map concat ggs"
  have len: "length ggs = length groups" "length groups = length reads"
    using g(2) c by (auto simp: carried_def dest: list_all2_lengthD)
  have st: "stream_of (?hs ! i) (concat (groups ! i))" "prefix (concat (reads ! i)) (concat (groups ! i))" if "i < length reads" for i
    using group_stream [of "ggs ! i" "groups ! i"] g(2) c that len by (auto simp: carried_def list_all2_conv_all_nth)
  have "\<forall>i. \<exists>k. i < length reads \<longrightarrow> (\<exists>b. receive_stream [] (reads ! i) = Inr (take k (?hs ! i), b)
      \<and> whole_frames (?hs ! i) k (concat (reads ! i)) \<and> (concat (reads ! i) = concat (groups ! i) \<longrightarrow> k = length (?hs ! i)))"
    using hear_stream [OF st] by blast
  from choice [OF this] obtain k where k: "\<exists>b. receive_stream [] (reads ! i) = Inr (take (k i) (?hs ! i), b)"
    "whole_frames (?hs ! i) (k i) (concat (reads ! i))" "concat (reads ! i) = concat (groups ! i) \<longrightarrow> k i = length (?hs ! i)"
    if "i < length reads" for i by blast
  let ?ks = "map k [0 ..< length reads]"
  obtain mss where mss: "list_all2 (\<lambda>cs ms. \<exists>b. receive_stream [] cs = Inr (ms, b)) reads mss"
    "segments_received r = concat mss" using r by (auto simp: rx_ok_def)
  have "mss = map2 take ?ks ?hs"
  proof (rule nth_equalityI)
    show l: "length mss = length (map2 take ?ks ?hs)" using mss(1) len by (auto dest: list_all2_lengthD)
    fix i assume "i < length mss"
    then have "i < length reads" using l len by simp
    then show "mss ! i = map2 take ?ks ?hs ! i"
      using mss(1) k(1) [of i] len by (auto simp: list_all2_conv_all_nth)
  qed
  moreover have "sent = concat ?hs @ concat rest @ lost @ tx_queue s"
    using ok g(1) concat_groups [of ggs] by (simp add: tx_ok_def)
  moreover have "concat rest = []" if "beyond = []" using g(3) that by simp
  ultimately show ?thesis
    using st(1) k(2,3) mss(2) len whole_stream
    by (intro exI [of _ ?hs] exI [of _ ?ks] exI [of _ "concat rest"]) auto
qed

section \<open>A frame sent again\<close>

text \<open>The message a peer finds where a frame that was cut off after \<open>w\<close> bytes is followed by the same
  frame again.\<close>

definition spliced :: "bytes \<Rightarrow> nat \<Rightarrow> bytes" where
  "spliced m w = take (w - 4) m @ take (4 + length m - w) (frame_message m)"

lemma receive_whole:
  "\<forall>m \<in> set ms. framable m \<Longrightarrow> concat cs = frames ms \<Longrightarrow> receive_stream [] cs = Inr (ms, [])"
  using receive_prefix [of ms cs] by auto

lemma frame_head: "length n = length m \<Longrightarrow> frame_message n = take 4 (frame_message m) @ n"
  by (simp add: frame_message_def Let_def)

lemma drop_frame: "drop 4 (frame_message m) = m"
  by (simp add: frame_message_def Let_def)

lemma length_spliced: "4 \<le> w \<Longrightarrow> w < 4 + length m \<Longrightarrow> length (spliced m w) = length m"
  by (simp add: spliced_def)

lemma spliced_frame:
  assumes "4 \<le> w" "w < 4 + length m"
  shows "prefix (frame_message (spliced m w)) (take w (frame_message m) @ frame_message m)"
proof -
  let ?f = "frame_message m"
  have "take w ?f = take 4 ?f @ take (w - 4) m"
    using take_add [of 4 "w - 4" ?f] assms(1) by (simp add: drop_frame)
  then have "take w ?f @ ?f = frame_message (spliced m w) @ drop (4 + length m - w) ?f"
    using frame_head [OF length_spliced [OF assms]] by (simp add: spliced_def)
  then show ?thesis by simp
qed

lemma spliced_differs:
  assumes "4 \<le> w" "w < 4 + length m" "length m < 2 ^ 24" "m ! (w - 4) \<noteq> 0"
  shows "spliced m w \<noteq> m"
proof -
  have "unat (of_nat (length m) :: u32) = length m" using assms(3) by (simp add: unat_of_nat)
  then have "unat (drop_bit 24 (of_nat (length m) :: u32)) = drop_bit 24 (length m)"
    by (simp only: unat_drop_bit_eq)
  also have "\<dots> = 0" using assms(3) by (simp add: drop_bit_eq_div)
  finally have "unat (drop_bit 24 (of_nat (length m) :: u32)) = 0" .
  then have "drop_bit 24 (of_nat (length m) :: u32) = 0" by (simp only: unat_eq_0)
  then have "frame_message m ! 0 = 0" by (simp add: frame_message_def Let_def)
  moreover have "spliced m w ! (w - 4) = frame_message m ! 0"
    using assms(1,2) by (simp add: spliced_def nth_append)
  ultimately show ?thesis using assms(4) by auto
qed

section \<open>Properties\<close>

text \<open>The delay after \<open>k\<close> refused attempts.\<close>

fun backoff :: "cla_config \<Rightarrow> nat \<Rightarrow> u32" where
  "backoff cfg 0 = initial_reconnect_delay_ms cfg"
| "backoff cfg (Suc k) = next_delay cfg (backoff cfg k)"

lemma refused_backoff:
  "tx_run (cla_start (new_cla cfg)) (replicate k (Op_Tx TX_Refused))
    = Some ((cla_start (new_cla cfg))\<lparr>tx_phase := TX_Connecting (backoff cfg k) None\<rparr>)"
proof -
  have "tx_run s (replicate k (Op_Tx TX_Refused)) = Some (s\<lparr>tx_phase := TX_Connecting (backoff (cla_cfg s) (j + k)) None\<rparr>)"
    if "running s" "tx_phase s = TX_Connecting (backoff (cla_cfg s) j) None" for s j
    using that
  proof (induction k arbitrary: s j)
    case (Suc k)
    from Suc.IH [of "s\<lparr>tx_phase := TX_Connecting (backoff (cla_cfg s) (Suc j)) None\<rparr>" "Suc j"] Suc.prems
    show ?case by simp
  qed simp
  from this [of "cla_start (new_cla cfg)" 0] show ?thesis by (simp add: cla_start_def new_cla_def)
qed

lemma backoff_doubles:
  assumes "initial_reconnect_delay_ms cfg \<le> max_reconnect_delay_ms cfg" "max_reconnect_delay_ms cfg < 2 ^ 31"
  shows "unat (backoff cfg k) = min (unat (initial_reconnect_delay_ms cfg) * 2 ^ k) (unat (max_reconnect_delay_ms cfg))"
proof (induction k)
  case 0
  then show ?case using assms(1) by (simp add: word_le_nat_alt)
next
  case (Suc k)
  let ?b = "backoff cfg k" and ?m = "max_reconnect_delay_ms cfg"
  have m: "unat ?m < 2 ^ 31" using assms(2) by (simp add: word_less_nat_alt)
  then have "unat ?b * 2 < 2 ^ 32" using Suc by (simp add: min_def split: if_splits)
  then have "unat (?b * 2) = unat ?b * 2" by (simp add: unat_word_ariths)
  then have "unat (next_delay cfg ?b) = min (unat ?b * 2) (unat ?m)"
    by (simp add: next_delay_def min_def word_le_nat_alt)
  then show ?case by (simp add: Suc min_def)
qed

lemma backoff_wraps:
  assumes "initial_reconnect_delay_ms cfg = 1000" "max_reconnect_delay_ms cfg = 0xFFFFFFFF" "29 \<le> k"
  shows "backoff cfg k = 0"
proof -
  have "x \<le> 0xFFFFFFFF" for x :: u32 using unsigned_less [of x, where ?'a=nat] by (simp add: word_le_nat_alt)
  then have step: "next_delay cfg x = x * 2" for x by (simp add: next_delay_def assms(2) min_def)
  have "backoff cfg k = 1000 * 2 ^ k"
    by (induction k) (simp_all add: assms(1) step algebra_simps)
  also have "\<dots> = 1000 * 2 ^ (29 + (k - 29))" using assms(3) by simp
  also have "\<dots> = (1000 * 2 ^ 29) * 2 ^ (k - 29)" by (simp only: power_add mult.assoc)
  also have "(1000 * 2 ^ 29 :: u32) = 0" by simp
  finally show ?thesis by simp
qed

text \<open>The pause between connection attempts doubles from the initial to the maximal delay and
  stays there as long as the maximum is below \<open>2^31\<close>; for larger maxima, which the configuration
  accepts, the 32-bit product wraps and the loop ends up retrying without any pause.\<close>

theorem reconnect_backoff:
  assumes "initial_reconnect_delay_ms cfg \<le> max_reconnect_delay_ms cfg"
  shows "\<exists>d. tx_run (cla_start (new_cla cfg)) (replicate k (Op_Tx TX_Refused))
        = Some ((cla_start (new_cla cfg))\<lparr>tx_phase := TX_Connecting d None\<rparr>)
    \<and> (max_reconnect_delay_ms cfg < 2 ^ 31 \<longrightarrow>
         unat d = min (unat (initial_reconnect_delay_ms cfg) * 2 ^ k) (unat (max_reconnect_delay_ms cfg)))
    \<and> (initial_reconnect_delay_ms cfg = 1000 \<and> max_reconnect_delay_ms cfg = 0xFFFFFFFF \<and> 29 \<le> k \<longrightarrow> d = 0)"
  using refused_backoff [of cfg k] backoff_doubles [OF assms, of k] backoff_wraps [of cfg k] by blast

theorem reconnect_backoff_witness:
  "\<exists>d. tx_run (cla_start (new_cla default_cla_config)) (replicate 5 (Op_Tx TX_Refused))
      = Some ((cla_start (new_cla default_cla_config))\<lparr>tx_phase := TX_Connecting d None\<rparr>) \<and> unat d = 30000"
  using reconnect_backoff [of default_cla_config 5] by (simp add: default_cla_config_def)

text \<open>After a failed write the transmitter sends the frame again from its beginning on the next connection. To a
  receiver that reads both connections as one stream, as the modem between the two adapters passes them on, the
  part already sent is the beginning of a message: behind the messages before it is given a message of the
  right length made of the beginning of the segment and the beginning of its frame, which is not the segment.\<close>

theorem resend_desynchronises:
  assumes "running s" "tx_phase s = TX_Waiting" "tx_queue s = m # queue" "tx_wire s = wires @ [frames ms]"
    and "\<forall>x \<in> set (m # ms). length x < 2 ^ 32 - 4" "4 \<le> w" "w < 4 + length m"
  shows "\<exists>t. tx_run s (map Op_Tx [TX_Woken, TX_Wrote w, TX_Write_Failed, TX_Connected, TX_Wrote (4 + length m)]) = Some t
    \<and> tx_phase t = TX_Waiting \<and> tx_queue t = queue
    \<and> tx_wire t = wires @ [frames ms @ take w (frame_message m), frame_message m]
    \<and> prefix (frames (ms @ [spliced m w])) (concat (drop (length wires) (tx_wire t)))
    \<and> (\<forall>chunks. concat chunks = frames (ms @ [spliced m w]) \<longrightarrow> receive_stream [] chunks = Inr (ms @ [spliced m w], []))
    \<and> length (spliced m w) = length m
    \<and> (length m < 2 ^ 24 \<and> m ! (w - 4) \<noteq> 0 \<longrightarrow> spliced m w \<noteq> m)"
proof -
  have "\<forall>x \<in> set (ms @ [spliced m w]). framable x"
    using assms(5) length_spliced [OF assms(6,7)] by (simp add: framable_def)
  from receive_whole [OF this]
  have "\<forall>chunks. concat chunks = frames (ms @ [spliced m w]) \<longrightarrow> receive_stream [] chunks = Inr (ms @ [spliced m w], [])"
    by blast
  moreover obtain t where t: "tx_run s (map Op_Tx [TX_Woken, TX_Wrote w, TX_Write_Failed, TX_Connected, TX_Wrote (4 + length m)]) = Some t"
    "tx_phase t = TX_Waiting" "tx_queue t = queue"
    "tx_wire t = wires @ [frames ms @ take w (frame_message m), frame_message m]"
    using assms(1-4,6,7) by (simp add: butlast_append)
  moreover have "prefix (frames (ms @ [spliced m w])) (concat (drop (length wires) (tx_wire t)))"
    using spliced_frame [OF assms(6,7)] by (simp add: t(4))
  ultimately show ?thesis
    using spliced_differs [OF assms(6,7)] length_spliced [OF assms(6,7)] by blast
qed

definition interrupted :: cla where
  "interrupted = (cla_start (new_cla default_cla_config))\<lparr>tx_queue := [[1, 2, 3]], tx_phase := TX_Waiting, tx_wire := [[]]\<rparr>"

theorem resend_desynchronises_witness:
  "\<exists>t. tx_run interrupted (map Op_Tx [TX_Woken, TX_Wrote 5, TX_Write_Failed, TX_Connected, TX_Wrote 7]) = Some t
    \<and> tx_wire t = [[0, 0, 0, 3, 1], [0, 0, 0, 3, 1, 2, 3]]
    \<and> receive_stream [] [[0, 0, 0, 3, 1], [0, 0]] = Inr ([[1, 0, 0]], [])"
proof -
  have i: "running interrupted" "tx_phase interrupted = TX_Waiting" "tx_queue interrupted = [[1, 2, 3]]"
    "tx_wire interrupted = [] @ [frames []]"
    by (simp_all add: interrupted_def cla_start_def new_cla_def)
  have f: "frame_message [1, 2, 3] = [0, 0, 0, 3, 1, 2, 3]" "frame_message [1, 0, 0] = [0, 0, 0, 3, 1, 0, 0]"
    by (simp_all add: frame_message_def Let_def)
  have sp: "spliced [1, 2, 3] 5 = [1, 0, 0]" by (simp add: spliced_def f)
  obtain t where t: "tx_run interrupted (map Op_Tx [TX_Woken, TX_Wrote 5, TX_Write_Failed, TX_Connected, TX_Wrote (4 + length [1 :: u8, 2, 3])]) = Some t"
    "tx_wire t = [] @ [frames [] @ take 5 (frame_message [1, 2, 3]), frame_message [1, 2, 3]]"
    "\<forall>chunks. concat chunks = frames ([] @ [spliced [1, 2, 3] 5]) \<longrightarrow> receive_stream [] chunks = Inr ([] @ [spliced [1, 2, 3] 5], [])"
    using resend_desynchronises [OF i, of 5] by (simp del: tx_run.simps list.map append.simps) blast
  have "receive_stream [] [[0, 0, 0, 3, 1], [0, 0]] = Inr ([[1, 0, 0]], [])"
    using t(3) by (simp add: sp f del: receive_stream.simps)
  then show ?thesis using t(1,2) by (simp add: f del: tx_run.simps receive_stream.simps)
qed

end
