(* ===== verification/Ingress.thy ===== *)
theory Ingress
  imports Framing Listener
begin

text \<open>
  The TCP ingress server of \<^verbatim>\<open>src/ltp_cla/tcp_ingress.cpp\<close>: one thread that accepts
  clients, polls them and cuts the bytes of each into messages with a buffer of its own. One
  iteration of its loop is one step, given what \<open>accept\<close> and each polled socket answer.
  What the callback is given is kept with the descriptor it came from.
\<close>

section \<open>State\<close>

record ingress_config =
  ingress_bind_addr :: string
  ingress_port :: u16
  default_reliable :: bool

record ingress =
  ingress_running :: bool
  ingress_listen_fd :: int
  ingress_listening_port :: u16
  ingress_clients :: "int list"
  ingress_buffers :: "int \<Rightarrow> bytes option"
  ingress_data :: "(int \<times> bytes) list"

definition new_ingress :: ingress where
  "new_ingress = \<lparr>ingress_running = False, ingress_listen_fd = -1, ingress_listening_port = 0, ingress_clients = [], ingress_buffers = (\<lambda>_. None), ingress_data = []\<rparr>"

definition ingress_client_count :: "ingress \<Rightarrow> nat" where
  "ingress_client_count s = length (ingress_clients s)"

text \<open>Start: the thread runs once the socket listens; stop closes every client. The buffers
  are local to the thread.\<close>

definition ingress_start :: "ingress \<Rightarrow> listen_answers \<Rightarrow> ingress" where
  "ingress_start s a =
    (if ingress_running s then s
     else
       let (fd, port) = open_listener a (ingress_listening_port s) in
       if fd < 0 then s\<lparr>ingress_listen_fd := fd\<rparr>
       else s\<lparr>ingress_listen_fd := fd, ingress_listening_port := port, ingress_running := True, ingress_buffers := (\<lambda>_. None)\<rparr>)"

definition ingress_stop :: "ingress \<Rightarrow> ingress" where
  "ingress_stop s =
    (if \<not> ingress_running s then s else s\<lparr>ingress_running := False, ingress_listen_fd := -1, ingress_clients := [], ingress_buffers := (\<lambda>_. None)\<rparr>)"

section \<open>The loop\<close>

definition ingress_accept :: "ingress \<Rightarrow> int \<Rightarrow> ingress" where
  "ingress_accept s client_fd =
    s\<lparr>ingress_clients := ingress_clients s @ [client_fd], ingress_buffers := (ingress_buffers s)(client_fd \<mapsto> [])\<rparr>"

definition ingress_drop :: "ingress \<Rightarrow> int \<Rightarrow> ingress" where
  "ingress_drop s fd =
    s\<lparr>ingress_buffers := (ingress_buffers s)(fd := None), ingress_clients := removeAll fd (ingress_clients s)\<rparr>"

text \<open>What \<open>poll\<close> and \<open>read\<close> say of one client. The subscript of the map inserts an
  empty buffer when there is none.\<close>

datatype client_event = Quiet | Hangup | Read_Failed | Bytes_Read bytes

definition ingress_client :: "ingress \<Rightarrow> int \<Rightarrow> client_event \<Rightarrow> ingress res" where
  "ingress_client s fd ev =
    (case ev of
       Quiet \<Rightarrow> Inr s
     | Hangup \<Rightarrow> Inr (ingress_drop s fd)
     | Read_Failed \<Rightarrow> Inr (ingress_drop s fd)
     | Bytes_Read chunk \<Rightarrow>
         rbind (receive_bytes (case ingress_buffers s fd of None \<Rightarrow> [] | Some b \<Rightarrow> b) chunk) (\<lambda>(msgs, buf).
         Inr (s\<lparr>ingress_buffers := (ingress_buffers s)(fd \<mapsto> buf),
                ingress_data := ingress_data s @ map (Pair fd) msgs\<rparr>)))"

fun ingress_clients_loop :: "ingress \<Rightarrow> (int \<Rightarrow> client_event) \<Rightarrow> int list \<Rightarrow> ingress res" where
  "ingress_clients_loop s events [] = Inr s"
| "ingress_clients_loop s events (fd # fds) =
     rbind (ingress_client s fd (events fd)) (\<lambda>t. ingress_clients_loop t events fds)"

text \<open>The poll set is built before the new client is added.\<close>

definition ingress_iter :: "ingress \<Rightarrow> int option \<Rightarrow> (int \<Rightarrow> client_event) \<Rightarrow> ingress res" where
  "ingress_iter s accepted events =
    (let polled = ingress_clients s;
         t = (case accepted of None \<Rightarrow> s | Some client_fd \<Rightarrow> ingress_accept s client_fd)
     in ingress_clients_loop t events polled)"

text \<open>A turn of the loop with its conditions; the flag says whether the loop goes on.\<close>

definition ingress_turn :: "ingress \<Rightarrow> poll_result \<Rightarrow> int option \<Rightarrow> (int \<Rightarrow> client_event) \<Rightarrow> (ingress \<times> bool) res" where
  "ingress_turn s polled accepted events =
    (if \<not> ingress_running s then Inr (s, False)
     else
       (case polled of
          Poll_Failed \<Rightarrow> Inr (s, False)
        | Poll_Ready \<Rightarrow> rbind (ingress_iter s accepted events) (\<lambda>t. Inr (t, True))
        | _ \<Rightarrow> Inr (s, True)))"

fun ingress_run :: "ingress \<Rightarrow> (int option \<times> (int \<Rightarrow> client_event)) list \<Rightarrow> ingress res" where
  "ingress_run s [] = Inr s"
| "ingress_run s ((accepted, events) # its) = rbind (ingress_iter s accepted events) (\<lambda>t. ingress_run t its)"

section \<open>One client among others\<close>

text \<open>The kernel gives a new connection a descriptor that is not in use.\<close>

definition ingress_inv :: "ingress \<Rightarrow> bool" where
  "ingress_inv s \<longleftrightarrow> distinct (ingress_clients s) \<and> (\<forall>fd. ingress_buffers s fd \<noteq> None \<longleftrightarrow> fd \<in> set (ingress_clients s))"

definition messages_of :: "int \<Rightarrow> ingress \<Rightarrow> bytes list" where
  "messages_of fd s = map snd (filter (\<lambda>d. fst d = fd) (ingress_data s))"

definition chunk_of :: "client_event \<Rightarrow> bytes list" where
  "chunk_of ev = (case ev of Bytes_Read c \<Rightarrow> [c] | _ \<Rightarrow> [])"

lemma filter_pair: "filter (\<lambda>d. fst d = fd) (map (Pair x) ms) = (if x = fd then map (Pair x) ms else [])"
  by (induction ms) auto

lemma ingress_client_other:
  assumes "ingress_client s x ev = Inr t" "x \<noteq> fd"
  shows "messages_of fd t = messages_of fd s" "ingress_buffers t fd = ingress_buffers s fd"
    "fd \<in> set (ingress_clients t) \<longleftrightarrow> fd \<in> set (ingress_clients s)"
  using assms
  by (auto simp: ingress_client_def ingress_drop_def messages_of_def filter_pair rbind_eq_Inr split: client_event.splits)

lemma ingress_client_inv:
  "ingress_inv s \<Longrightarrow> x \<in> set (ingress_clients s) \<Longrightarrow> ingress_client s x ev = Inr t \<Longrightarrow> ingress_inv t
    \<and> set (ingress_clients s) - {x} \<subseteq> set (ingress_clients t)"
  by (auto simp: ingress_inv_def ingress_client_def ingress_drop_def rbind_eq_Inr distinct_removeAll split: client_event.splits if_splits)

lemma ingress_loop_inv:
  "ingress_inv s \<Longrightarrow> set fds \<subseteq> set (ingress_clients s) \<Longrightarrow> distinct fds
    \<Longrightarrow> ingress_clients_loop s events fds = Inr t \<Longrightarrow> ingress_inv t"
proof (induction fds arbitrary: s)
  case (Cons x xs)
  then obtain u where u: "ingress_client s x (events x) = Inr u" "ingress_clients_loop u events xs = Inr t"
    by (auto simp: rbind_eq_Inr)
  show ?case
    using Cons.IH [OF _ _ _ u(2)] ingress_client_inv [OF Cons.prems(1) _ u(1)] Cons.prems(2,3) by auto
qed simp

lemma ingress_loop_other:
  "ingress_clients_loop s events fds = Inr t \<Longrightarrow> fd \<notin> set fds \<Longrightarrow>
    messages_of fd t = messages_of fd s \<and> ingress_buffers t fd = ingress_buffers s fd
    \<and> (fd \<in> set (ingress_clients t) \<longleftrightarrow> fd \<in> set (ingress_clients s))"
proof (induction fds arbitrary: s)
  case (Cons x xs)
  then obtain u where u: "ingress_client s x (events x) = Inr u" "ingress_clients_loop u events xs = Inr t"
    by (auto simp: rbind_eq_Inr)
  show ?case using Cons.IH [OF u(2)] ingress_client_other [OF u(1), of fd] Cons.prems(2) by auto
qed simp

lemma ingress_loop_client:
  assumes "ingress_clients_loop s events fds = Inr t" "fd \<in> set fds" "distinct fds"
    and "ingress_buffers s fd = Some b" "events fd \<noteq> Hangup" "events fd \<noteq> Read_Failed" "fd \<in> set (ingress_clients s)"
  shows "\<exists>ms b'. receive_stream b (chunk_of (events fd)) = Inr (ms, b') \<and> ingress_buffers t fd = Some b'
    \<and> messages_of fd t = messages_of fd s @ ms \<and> fd \<in> set (ingress_clients t)"
  using assms
proof (induction fds arbitrary: s)
  case (Cons x xs)
  then obtain u where u: "ingress_client s x (events x) = Inr u" "ingress_clients_loop u events xs = Inr t"
    by (auto simp: rbind_eq_Inr)
  show ?case
  proof (cases "x = fd")
    case True
    then have "\<exists>ms b'. receive_stream b (chunk_of (events fd)) = Inr (ms, b') \<and> ingress_buffers u fd = Some b'
      \<and> messages_of fd u = messages_of fd s @ ms \<and> fd \<in> set (ingress_clients u)"
      using u(1) Cons.prems(4-7)
      by (cases "events fd")
        (auto simp: ingress_client_def chunk_of_def rbind_eq_Inr messages_of_def filter_pair comp_def)
    then show ?thesis using ingress_loop_other [OF u(2), of fd] Cons.prems(3) True by auto
  next
    case False
    then show ?thesis
      using Cons.IH [OF u(2)] ingress_client_other [OF u(1) False] Cons.prems by auto
  qed
qed simp

text \<open>The descriptors accepted along a run are new.\<close>

fun fresh_run :: "ingress \<Rightarrow> (int option \<times> (int \<Rightarrow> client_event)) list \<Rightarrow> bool" where
  "fresh_run s [] = True"
| "fresh_run s ((accepted, events) # its) =
     ((case accepted of None \<Rightarrow> True | Some client_fd \<Rightarrow> client_fd \<notin> set (ingress_clients s))
      \<and> (case ingress_iter s accepted events of Inl _ \<Rightarrow> True | Inr t \<Rightarrow> fresh_run t its))"

lemma ingress_accept_inv:
  "ingress_inv s \<Longrightarrow> fd \<notin> set (ingress_clients s) \<Longrightarrow> ingress_inv (ingress_accept s fd)"
  by (auto simp: ingress_inv_def ingress_accept_def)

lemma ingress_iter_inv:
  assumes "ingress_inv s" "case accepted of None \<Rightarrow> True | Some fd \<Rightarrow> fd \<notin> set (ingress_clients s)"
    and "ingress_iter s accepted events = Inr t"
  shows "ingress_inv t"
proof -
  let ?u = "case accepted of None \<Rightarrow> s | Some fd \<Rightarrow> ingress_accept s fd"
  have "ingress_inv ?u" "set (ingress_clients s) \<subseteq> set (ingress_clients ?u)" "distinct (ingress_clients s)"
    using assms(1,2) ingress_accept_inv [OF assms(1)]
    by (auto simp: ingress_accept_def ingress_inv_def split: option.splits)
  then show ?thesis using ingress_loop_inv assms(3) by (auto simp: ingress_iter_def Let_def)
qed

text \<open>The client is polled from the iteration after its acceptance on, and heard in each.\<close>

lemma ingress_run_client:
  assumes "ingress_inv s" "fresh_run s its" "ingress_run s its = Inr t"
    and "ingress_buffers s fd = Some b" "fd \<in> set (ingress_clients s)"
    and "\<forall>(a, ev) \<in> set its. ev fd \<noteq> Hangup \<and> ev fd \<noteq> Read_Failed"
  shows "\<exists>ms b'. receive_stream b (concat (map (\<lambda>(a, ev). chunk_of (ev fd)) its)) = Inr (ms, b')
    \<and> messages_of fd t = messages_of fd s @ ms"
  using assms
proof (induction its arbitrary: s b)
  case (Cons it its)
  obtain a ev where it: "it = (a, ev)" by force
  obtain u where u: "ingress_iter s a ev = Inr u" "ingress_run u its = Inr t"
    using Cons.prems(3) by (auto simp: it rbind_eq_Inr)
  have fresh: "case a of None \<Rightarrow> True | Some fd \<Rightarrow> fd \<notin> set (ingress_clients s)" "fresh_run u its"
    using Cons.prems(2) u(1) by (simp_all add: it)
  let ?v = "case a of None \<Rightarrow> s | Some fd \<Rightarrow> ingress_accept s fd"
  have v: "ingress_buffers ?v fd = Some b" "fd \<in> set (ingress_clients ?v)" "messages_of fd ?v = messages_of fd s"
    using Cons.prems(4,5) fresh(1) by (auto simp: ingress_accept_def messages_of_def split: option.splits)
  obtain ms1 b1 where m1: "receive_stream b (chunk_of (ev fd)) = Inr (ms1, b1)" "ingress_buffers u fd = Some b1"
    "messages_of fd u = messages_of fd s @ ms1" "fd \<in> set (ingress_clients u)"
    using ingress_loop_client [of ?v ev "ingress_clients s" u fd b] u(1) v Cons.prems(1,5,6)
    by (auto simp: ingress_iter_def Let_def it ingress_inv_def)
  have "ingress_inv u" by (rule ingress_iter_inv [OF Cons.prems(1) fresh(1) u(1)])
  then obtain ms2 b2 where "receive_stream b1 (concat (map (\<lambda>(a, ev). chunk_of (ev fd)) its)) = Inr (ms2, b2)"
    "messages_of fd t = messages_of fd u @ ms2"
    using Cons.IH [OF _ fresh(2) u(2) m1(2,4)] Cons.prems(6) by auto
  then show ?case using m1 by (simp add: it receive_stream_append)
qed simp

section \<open>When the copy runs past a buffer\<close>

text \<open>What a client has sent: what its buffer held, and what was read since.\<close>

definition buffered :: "ingress \<Rightarrow> int \<Rightarrow> bytes" where
  "buffered s fd = (case ingress_buffers s fd of None \<Rightarrow> [] | Some b \<Rightarrow> b)"

definition heard_from :: "ingress \<Rightarrow> (int option \<times> (int \<Rightarrow> client_event)) list \<Rightarrow> int \<Rightarrow> bytes" where
  "heard_from s its fd = buffered s fd @ concat (concat (map (\<lambda>(a, ev). chunk_of (ev fd)) its))"

lemma ingress_client_buffered:
  "ingress_client s fd ev = Inr t \<Longrightarrow> suffix (buffered t fd) (buffered s fd @ concat (chunk_of ev))"
  by (auto simp: ingress_client_def ingress_drop_def buffered_def chunk_of_def receive_bytes_def rbind_eq_Inr
      split: client_event.splits dest: extract_all_rest)

lemma ingress_loop_buffered:
  assumes "ingress_clients_loop s events fds = Inr t" "distinct fds" "fd \<in> set fds \<or> buffered s fd = []"
  shows "suffix (buffered t fd) (buffered s fd @ concat (chunk_of (events fd)))"
  using assms
proof (induction fds arbitrary: s)
  case (Cons x xs)
  then obtain u where u: "ingress_client s x (events x) = Inr u" "ingress_clients_loop u events xs = Inr t"
    by (auto simp: rbind_eq_Inr)
  show ?case
  proof (cases "x = fd")
    case True
    then have "buffered t fd = buffered u fd"
      using ingress_loop_other [OF u(2), of fd] Cons.prems(2) by (simp add: buffered_def)
    then show ?thesis using ingress_client_buffered u(1) True by simp
  next
    case False
    then have "buffered u fd = buffered s fd" using ingress_client_other [OF u(1)] by (simp add: buffered_def)
    then show ?thesis using Cons.IH [OF u(2)] Cons.prems(2,3) False by simp
  qed
qed (simp add: buffered_def)

lemma ingress_iter_buffered:
  assumes "ingress_inv s" "case a of None \<Rightarrow> True | Some fd \<Rightarrow> fd \<notin> set (ingress_clients s)"
    and "ingress_iter s a events = Inr t"
  shows "suffix (buffered t fd) (buffered s fd @ concat (chunk_of (events fd)))"
proof -
  let ?v = "case a of None \<Rightarrow> s | Some fd \<Rightarrow> ingress_accept s fd"
  have new: "fd \<notin> set (ingress_clients s) \<Longrightarrow> buffered s fd = []"
    using assms(1) by (auto simp: ingress_inv_def buffered_def split: option.splits)
  have v: "buffered ?v fd = buffered s fd"
    using assms(2) new by (auto simp: buffered_def ingress_accept_def split: option.splits)
  have "ingress_clients_loop ?v events (ingress_clients s) = Inr t" "distinct (ingress_clients s)"
    using assms(1,3) by (simp_all add: ingress_iter_def ingress_inv_def)
  then show ?thesis using ingress_loop_buffered [of ?v events "ingress_clients s" t fd] new v by auto
qed

text \<open>The first client whose bytes fail.\<close>

lemma ingress_loop_error:
  "ingress_clients_loop s events fds = Inl e \<Longrightarrow> distinct fds \<Longrightarrow>
    \<exists>x \<in> set fds. \<exists>c. events x = Bytes_Read c \<and> receive_bytes (buffered s x) c = Inl e"
proof (induction fds arbitrary: s)
  case (Cons x xs)
  show ?case
  proof (cases "ingress_client s x (events x)")
    case (Inl e')
    then have "\<exists>c. events x = Bytes_Read c \<and> receive_bytes (buffered s x) c = Inl e"
      using Cons.prems(1)
      by (auto simp: ingress_client_def buffered_def rbind_def split: client_event.splits sum.splits)
    then show ?thesis by simp
  next
    case (Inr u)
    then obtain y c where y: "y \<in> set xs" "events y = Bytes_Read c" "receive_bytes (buffered u y) c = Inl e"
      using Cons.IH [of u] Cons.prems by auto
    moreover have "buffered u y = buffered s y"
      using ingress_client_other(2) [OF Inr, of y] y(1) Cons.prems(2) by (cases "x = y") (simp_all add: buffered_def)
    ultimately show ?thesis by auto
  qed
qed simp

lemma ingress_iter_error:
  assumes "ingress_inv s" "case a of None \<Rightarrow> True | Some fd \<Rightarrow> fd \<notin> set (ingress_clients s)"
    and "ingress_iter s a events = Inl e"
  shows "\<exists>x \<in> set (ingress_clients s). \<exists>c. events x = Bytes_Read c \<and> receive_bytes (buffered s x) c = Inl e"
proof -
  let ?v = "case a of None \<Rightarrow> s | Some fd \<Rightarrow> ingress_accept s fd"
  have "ingress_clients_loop ?v events (ingress_clients s) = Inl e" "distinct (ingress_clients s)"
    using assms(1,3) by (simp_all add: ingress_iter_def ingress_inv_def)
  then obtain x c where x: "x \<in> set (ingress_clients s)" "events x = Bytes_Read c" "receive_bytes (buffered ?v x) c = Inl e"
    using ingress_loop_error [of ?v events "ingress_clients s" e] by blast
  moreover have "buffered ?v x = buffered s x"
    using assms(2) x(1) by (auto simp: buffered_def ingress_accept_def split: option.splits)
  ultimately show ?thesis by auto
qed

lemma ingress_run_error:
  assumes "ingress_inv s" "fresh_run s its" "ingress_run s its = Inl e"
    and "fd \<in> set (ingress_clients s)" "ingress_buffers s fd = Some b"
    and "\<forall>(a, ev) \<in> set its. ev fd \<noteq> Hangup \<and> ev fd \<noteq> Read_Failed"
    and "receive_stream b (concat (map (\<lambda>(a, ev). chunk_of (ev fd)) its)) = Inr r"
  shows "e = Undefined_Behaviour \<and> (\<exists>x. x \<noteq> fd \<and> wild (heard_from s its x))"
  using assms
proof (induction its arbitrary: s b r)
  case (Cons it its)
  obtain a ev where it: "it = (a, ev)" by force
  have fresh: "case a of None \<Rightarrow> True | Some fd \<Rightarrow> fd \<notin> set (ingress_clients s)"
    using Cons.prems(2) by (simp add: it)
  show ?case
  proof (cases "ingress_iter s a ev")
    case (Inl e')
    then have "ingress_iter s a ev = Inl e" using Cons.prems(3) by (simp add: it)
    from ingress_iter_error [OF Cons.prems(1) fresh this]
    obtain x c where x: "ev x = Bytes_Read c" "receive_bytes (buffered s x) c = Inl e" by blast
    have "x \<noteq> fd"
      using x Cons.prems(5,7) by (auto simp: it chunk_of_def buffered_def)
    moreover have "wild (heard_from s (it # its) x)"
      using extract_all_error [of "buffered s x @ c" e] x
        wild_append [of "buffered s x @ c" "concat (concat (map (\<lambda>(a, ev). chunk_of (ev x)) its))"]
      by (simp add: receive_bytes_def heard_from_def it chunk_of_def)
    moreover have "e = Undefined_Behaviour" using extract_all_error x(2) by (simp add: receive_bytes_def)
    ultimately show ?thesis by blast
  next
    case (Inr u)
    then have u: "ingress_run u its = Inl e" "fresh_run u its" using Cons.prems(2,3) by (simp_all add: it)
    let ?v = "case a of None \<Rightarrow> s | Some fd \<Rightarrow> ingress_accept s fd"
    have v: "ingress_buffers ?v fd = Some b" "fd \<in> set (ingress_clients ?v)"
      using Cons.prems(4,5) fresh by (auto simp: ingress_accept_def split: option.splits)
    obtain ms1 b1 where m1: "receive_stream b (chunk_of (ev fd)) = Inr (ms1, b1)" "ingress_buffers u fd = Some b1"
      "fd \<in> set (ingress_clients u)"
      using ingress_loop_client [of ?v ev "ingress_clients s" u fd b] Inr v Cons.prems(1,4,6)
      by (auto simp: ingress_iter_def Let_def it ingress_inv_def)
    obtain r' where r': "receive_stream b1 (concat (map (\<lambda>(a, ev). chunk_of (ev fd)) its)) = Inr r'"
      using Cons.prems(7) m1(1) by (auto simp: it receive_stream_append rbind_eq_Inr)
    have inv: "ingress_inv u" by (rule ingress_iter_inv [OF Cons.prems(1) fresh Inr])
    have "\<forall>(a, ev) \<in> set its. ev fd \<noteq> Hangup \<and> ev fd \<noteq> Read_Failed" using Cons.prems(6) by simp
    from Cons.IH [OF inv u(2,1) m1(3,2) this r'] obtain x
      where x: "e = Undefined_Behaviour" "x \<noteq> fd" "wild (heard_from u its x)" by blast
    have "suffix (heard_from u its x) (heard_from s (it # its) x)"
      using ingress_iter_buffered [OF Cons.prems(1) fresh Inr, of x] by (auto simp: heard_from_def it suffix_def)
    then show ?thesis using x wild_suffix by blast
  qed
qed simp

section \<open>Properties\<close>

text \<open>C29. Clients do not disturb each other: whatever the other clients send, and whenever they come
  and go, the messages handed on for a client are those of its own byte stream - here a framed
  one, arriving in any chunks and possibly not yet complete. One thing only breaks this: an other
  client whose bytes contain one of the four lengths that wrap. Then the copy may run past that
  client's buffer, and the server with all its clients is in undefined behaviour.\<close>

theorem ingress_per_client:
  assumes "ingress_inv s" "fresh_run s ((Some fd, ev) # its)"
    and "\<forall>(a, ev) \<in> set its. ev fd \<noteq> Hangup \<and> ev fd \<noteq> Read_Failed"
    and "\<forall>m \<in> set ms. length m < 2 ^ 32 - 4"
    and "prefix (concat (concat (map (\<lambda>(a, ev). chunk_of (ev fd)) its))) (concat (map frame_message ms))"
  shows "case ingress_run s ((Some fd, ev) # its) of
      Inl e \<Rightarrow> e = Undefined_Behaviour \<and> (\<exists>x. x \<noteq> fd \<and> wild (heard_from s ((Some fd, ev) # its) x))
    | Inr t \<Rightarrow> \<exists>k. messages_of fd t = messages_of fd s @ take k ms
        \<and> (concat (concat (map (\<lambda>(a, ev). chunk_of (ev fd)) its)) = concat (map frame_message ms) \<longrightarrow> take k ms = ms)"
proof -
  let ?cs = "concat (map (\<lambda>(a, ev). chunk_of (ev fd)) its)"
  have new: "fd \<notin> set (ingress_clients s)" using assms(2) by simp
  have ok: "\<forall>m \<in> set ms. framable m" using assms(4) by (simp add: framable_def)
  obtain k r where k: "receive_stream [] ?cs = Inr (take k ms, r)" "concat ?cs = frames ms \<longrightarrow> take k ms = ms \<and> r = []"
    using receive_prefix [OF ok, of ?cs] assms(5) by (auto simp: frames_def)
  show ?thesis
  proof (cases "ingress_iter s (Some fd) ev")
    case (Inl e)
    obtain x c where x: "x \<in> set (ingress_clients s)" "ev x = Bytes_Read c" "receive_bytes (buffered s x) c = Inl e"
      using ingress_iter_error [OF assms(1) _ Inl] new by auto
    have "x \<noteq> fd" using x(1) new by blast
    moreover have "e = Undefined_Behaviour \<and> wild (buffered s x @ c)"
      using extract_all_error x(3) by (simp add: receive_bytes_def)
    ultimately show ?thesis
      using Inl x(2) wild_append [of "buffered s x @ c"] by (auto simp: heard_from_def chunk_of_def)
  next
    case (Inr u)
    have u: "fresh_run u its" using assms(2) Inr by simp
    have start: "messages_of fd u = messages_of fd s" "ingress_buffers u fd = Some []" "fd \<in> set (ingress_clients u)"
      using ingress_loop_other [of "ingress_accept s fd" ev "ingress_clients s" u fd] Inr new
      by (auto simp: ingress_iter_def Let_def ingress_accept_def messages_of_def)
    have inv: "ingress_inv u" using ingress_iter_inv [OF assms(1) _ Inr] new by simp
    show ?thesis
    proof (cases "ingress_run u its")
      case (Inl e)
      have "suffix (heard_from u its x) (heard_from s ((Some fd, ev) # its) x)" for x
        using ingress_iter_buffered [OF assms(1) _ Inr, of x] new by (auto simp: heard_from_def suffix_def)
      then show ?thesis
        using ingress_run_error [OF inv u Inl start(3,2) assms(3) k(1)] Inl Inr wild_suffix by auto
    next
      case run: (Inr t)
      obtain out b where out: "receive_stream [] ?cs = Inr (out, b)" "messages_of fd t = messages_of fd s @ out"
        using ingress_run_client [OF inv u run start(2,3) assms(3)] start(1) by auto
      then show ?thesis using k Inr run unfolding frames_def by auto
    qed
  qed
qed

text \<open>Client 5 joins while client 6 is sending a length without its message.\<close>

definition sample_events :: "int \<Rightarrow> client_event" where
  "sample_events fd = (if fd = 6 then Bytes_Read [0, 0] else Bytes_Read [0, 0, 0, 1, 7])"

theorem ingress_per_client_witness:
  "\<exists>t. ingress_run (ingress_accept new_ingress 6) [(Some 5, sample_events), (None, sample_events)] = Inr t
     \<and> messages_of 5 t = [[7]]"
proof -
  let ?s = "ingress_accept new_ingress 6" and ?its = "[(None, sample_events)]"
  have f: "[0, 0, 0, 1, 7] = frames [[7]]" by (simp add: frame_message_def Let_def)
  have b: "receive_bytes [] [0, 0] = Inr ([], [0, 0])" "receive_bytes [] [0, 0, 0, 1, 7] = Inr ([[7]], [])"
    using extract_all_frames [of "[[7]]"]
    by (simp_all add: receive_bytes_def extract_all.simps [of "[0, 0]"] extract_framed_message_def f framable_def del: frames_simps)
  have z: "receive_bytes [0, 0] [0, 0] = Inr ([[]], [])"
    using extract_all_frames [of "[[]]"] by (simp add: receive_bytes_def frame_message_def framable_def)
  have inv: "ingress_inv ?s" by (rule ingress_accept_inv) (simp_all add: ingress_inv_def new_ingress_def)
  obtain t where t: "ingress_run ?s ((Some 5, sample_events) # ?its) = Inr t" "fresh_run ?s ((Some 5, sample_events) # ?its)"
    "messages_of 5 ?s = []"
    by (simp add: ingress_iter_def ingress_accept_def new_ingress_def ingress_client_def sample_events_def b z Let_def messages_of_def)
  have "prefix (concat (concat (map (\<lambda>(a, ev). chunk_of (ev 5)) ?its))) (concat (map frame_message [[7]]))"
    by (simp add: chunk_of_def sample_events_def frame_message_def Let_def)
  then have "messages_of 5 t = [[7]]"
    using ingress_per_client [OF inv t(2), of "[[7]]"] t(1,3)
    by (auto simp: sample_events_def chunk_of_def frame_message_def Let_def)
  then show ?thesis using t(1) by blast
qed

end
