(* ===== verification/Egress.thy ===== *)
theory Egress
  imports Framing Listener
begin

text \<open>
  The TCP egress server of \<^verbatim>\<open>src/ltp_cla/tcp_egress.cpp\<close>: delivered blocks are
  framed and written to every connected client, or buffered within a limit while there is none.
  Clients are their file descriptors. The answers of \<open>write\<close> are an input of each operation,
  and what the kernel took is kept in the order of the calls. Every operation holds the mutex, so
  operations do not interleave.
\<close>

section \<open>State\<close>

record egress_config =
  egress_bind_addr :: string
  egress_port :: u16
  max_buffer_bytes :: u64

record egress =
  egress_cfg :: egress_config
  egress_running :: bool
  egress_listen_fd :: int
  egress_listening_port :: u16
  egress_clients :: "int list"
  egress_buffer :: "bytes list"
  buffer_bytes :: u64
  egress_written :: "(int \<times> bytes) list"

definition new_egress :: "egress_config \<Rightarrow> egress" where
  "new_egress cfg = \<lparr>egress_cfg = cfg, egress_running = False, egress_listen_fd = -1, egress_listening_port = 0, egress_clients = [], egress_buffer = [],
     buffer_bytes = 0, egress_written = []\<rparr>"

definition egress_client_count :: "egress \<Rightarrow> nat" where
  "egress_client_count s = length (egress_clients s)"

section \<open>Writing\<close>

text \<open>The loop of writes to one client, given what each call returns: the bytes written and whether
  the client is alive. With no more answers the call blocks.\<close>

fun write_loop :: "nat \<Rightarrow> nat \<Rightarrow> int list \<Rightarrow> (nat \<times> bool) option" where
  "write_loop len written answers =
    (if len \<le> written then Some (written, True)
     else
       case answers of
         [] \<Rightarrow> None
       | n # ns \<Rightarrow> if n \<le> 0 then Some (written, False) else write_loop len (written + nat n) ns)"

declare write_loop.simps [simp del]

text \<open>One pass over the clients: what each took, and the dead ones.\<close>

fun write_each :: "bytes \<Rightarrow> (int \<Rightarrow> int list) \<Rightarrow> int list \<Rightarrow> ((int \<times> bytes) list \<times> int list) option" where
  "write_each framed answers [] = Some ([], [])"
| "write_each framed answers (fd # fds) =
    (case write_loop (length framed) 0 (answers fd) of
       None \<Rightarrow> None
     | Some (written, alive) \<Rightarrow>
         (case write_each framed answers fds of
            None \<Rightarrow> None
          | Some (out, dead_fds) \<Rightarrow>
              Some ((fd, take written framed) # out, if alive then dead_fds else fd # dead_fds)))"

definition write_to_clients :: "egress \<Rightarrow> (int \<Rightarrow> int list) \<Rightarrow> bytes \<Rightarrow> egress option" where
  "write_to_clients s answers framed =
    (case write_each framed answers (egress_clients s) of
       None \<Rightarrow> None
     | Some (out, dead_fds) \<Rightarrow>
         Some (s\<lparr>egress_written := egress_written s @ out,
                 egress_clients := fold removeAll dead_fds (egress_clients s)\<rparr>))"

section \<open>Delivery\<close>

text \<open>Making room: \<open>buffer_bytes + framed_size\<close> and the difference are 64-bit.\<close>

fun discard_oldest :: "u64 \<Rightarrow> u64 \<Rightarrow> bytes list \<Rightarrow> u64 \<Rightarrow> bytes list \<times> u64" where
  "discard_oldest limit framed_size [] tot = ([], tot)"
| "discard_oldest limit framed_size (front # rest) tot =
    (if tot + framed_size > limit then discard_oldest limit framed_size rest (tot - of_nat (length front))
     else (front # rest, tot))"

definition deliver :: "egress \<Rightarrow> (int \<Rightarrow> int list) \<Rightarrow> bytes \<Rightarrow> egress option" where
  "deliver s answers data =
    (let framed = frame_message data in
     if egress_clients s \<noteq> [] then write_to_clients s answers framed
     else
       let framed_size = of_nat (length framed);
           (kept, tot) = discard_oldest (max_buffer_bytes (egress_cfg s)) framed_size (egress_buffer s) (buffer_bytes s)
       in Some (s\<lparr>egress_buffer := kept @ [framed], buffer_bytes := tot + framed_size\<rparr>))"

text \<open>The flush writes the blocks one by one, each with the answers of its own writes.\<close>

function flush_buffer_to_clients :: "egress \<Rightarrow> (int \<Rightarrow> int list) list \<Rightarrow> egress option" where
  "flush_buffer_to_clients s answers =
    (case egress_buffer s of
       [] \<Rightarrow> Some s
     | front # rest \<Rightarrow>
         if egress_clients s = [] then Some s
         else
           (case answers of
              [] \<Rightarrow> None
            | a # later \<Rightarrow>
                (case write_to_clients s a front of
                   None \<Rightarrow> None
                 | Some t \<Rightarrow>
                     flush_buffer_to_clients (t\<lparr>buffer_bytes := buffer_bytes t - of_nat (length front),
                                                egress_buffer := rest\<rparr>) later)))"
  by pat_completeness auto
termination by (relation "measure (\<lambda>(_, answers). length answers)") auto

declare flush_buffer_to_clients.simps [simp del]

text \<open>A connection is accepted.\<close>

definition egress_accept :: "egress \<Rightarrow> int \<Rightarrow> (int \<Rightarrow> int list) list \<Rightarrow> egress option" where
  "egress_accept s client_fd answers =
     flush_buffer_to_clients (s\<lparr>egress_clients := egress_clients s @ [client_fd]\<rparr>) answers"

text \<open>A turn of the server's loop; the flag says whether the loop goes on.\<close>

definition egress_turn :: "egress \<Rightarrow> poll_result \<Rightarrow> int option \<Rightarrow> (int \<Rightarrow> int list) list \<Rightarrow> (egress \<times> bool) option" where
  "egress_turn s polled accepted answers =
    (if \<not> egress_running s then Some (s, False)
     else
       (case polled of
          Poll_Failed \<Rightarrow> Some (s, False)
        | Poll_Ready \<Rightarrow>
            (case accepted of
               None \<Rightarrow> Some (s, True)
             | Some client_fd \<Rightarrow> map_option (\<lambda>t. (t, True)) (egress_accept s client_fd answers))
        | _ \<Rightarrow> Some (s, True)))"

text \<open>Start and stop.\<close>

definition egress_start :: "egress \<Rightarrow> listen_answers \<Rightarrow> egress" where
  "egress_start s a =
    (if egress_running s then s
     else
       let (fd, port) = open_listener a (egress_listening_port s) in
       if fd < 0 then s\<lparr>egress_listen_fd := fd\<rparr>
       else s\<lparr>egress_listen_fd := fd, egress_listening_port := port, egress_running := True\<rparr>)"

definition egress_stop :: "egress \<Rightarrow> egress" where
  "egress_stop s = (if \<not> egress_running s then s else s\<lparr>egress_running := False, egress_listen_fd := -1, egress_clients := []\<rparr>)"

text \<open>A sequence of deliveries.\<close>

fun deliver_all :: "egress \<Rightarrow> bytes list \<Rightarrow> egress option" where
  "deliver_all s [] = Some s"
| "deliver_all s (d # ds) = (case deliver s (\<lambda>_. []) d of None \<Rightarrow> None | Some t \<Rightarrow> deliver_all t ds)"

section \<open>The buffer\<close>

definition total_bytes :: "bytes list \<Rightarrow> nat" where
  "total_bytes xs = sum_list (map length xs)"

lemma total_bytes_simps [simp]:
  "total_bytes [] = 0" "total_bytes (x # xs) = length x + total_bytes xs"
  "total_bytes (xs @ ys) = total_bytes xs + total_bytes ys"
  by (simp_all add: total_bytes_def)

lemma discard_oldest_spec:
  assumes "unat tot = total_bytes buf" "total_bytes buf + unat sz < 2 ^ 64"
  shows "\<exists>k tot'. discard_oldest limit sz buf tot = (drop k buf, tot') \<and> k \<le> length buf
    \<and> unat tot' = total_bytes (drop k buf)
    \<and> (k < length buf \<longrightarrow> total_bytes (drop k buf) + unat sz \<le> unat limit)
    \<and> (0 < k \<longrightarrow> unat limit < total_bytes (drop (k - 1) buf) + unat sz)"
  using assms
proof (induction buf arbitrary: tot)
  case (Cons x xs)
  have sum: "unat (tot + sz) = total_bytes (x # xs) + unat sz"
    using Cons.prems by (simp add: unat_word_ariths)
  show ?case
  proof (cases "tot + sz > limit")
    case True
    have len: "unat (of_nat (length x) :: u64) = length x"
      using Cons.prems(2) by (simp add: unat_of_nat)
    have "unat (tot - of_nat (length x)) = total_bytes xs"
      using Cons.prems(1) len by (subst unat_sub) (simp_all add: word_le_nat_alt)
    moreover have "total_bytes xs + unat sz < 2 ^ 64" using Cons.prems(2) by simp
    ultimately obtain k tot' where k: "discard_oldest limit sz xs (tot - of_nat (length x)) = (drop k xs, tot')"
      "k \<le> length xs" "unat tot' = total_bytes (drop k xs)"
      "k < length xs \<longrightarrow> total_bytes (drop k xs) + unat sz \<le> unat limit"
      "0 < k \<longrightarrow> unat limit < total_bytes (drop (k - 1) xs) + unat sz"
      using Cons.IH [of "tot - of_nat (length x)"] by auto
    have "unat limit < total_bytes (drop k (x # xs)) + unat sz"
      using True k(5) sum by (cases k) (simp_all add: word_less_nat_alt)
    then show ?thesis using True k(1-4) by (intro exI [of _ "Suc k"] exI [of _ tot']) simp
  next
    case False
    then show ?thesis using sum Cons.prems(1)
      by (intro exI [of _ 0] exI [of _ tot]) (simp add: word_less_nat_alt)
  qed
qed simp

text \<open>What is buffered after the blocks \<open>ds\<close>: all from the \<open>k\<close>-th on.\<close>

abbreviation framed :: "bytes list \<Rightarrow> bytes list" where
  "framed ds \<equiv> map frame_message ds"

definition buffered :: "egress \<Rightarrow> bytes list \<Rightarrow> nat \<Rightarrow> bool" where
  "buffered s ds k \<longleftrightarrow> egress_buffer s = framed (drop k ds) \<and> k \<le> length ds
     \<and> unat (buffer_bytes s) = total_bytes (egress_buffer s)
     \<and> (total_bytes (egress_buffer s) \<le> unat (max_buffer_bytes (egress_cfg s)) \<or> length ds = Suc k)
     \<and> (0 < k \<longrightarrow> unat (max_buffer_bytes (egress_cfg s)) < total_bytes (framed (drop (k - 1) ds)))"

lemma deliver_all_append:
  "deliver_all s (ds @ es) = (case deliver_all s ds of None \<Rightarrow> None | Some t \<Rightarrow> deliver_all t es)"
  by (induction ds arbitrary: s) (auto split: option.splits)

lemma deliver_buffers:
  assumes "egress_clients s = []" "buffered s ds k" "unat (max_buffer_bytes (egress_cfg s)) \<le> 2 ^ 63"
    and "\<forall>m \<in> set (d # ds). framable m"
  shows "\<exists>t j. deliver s a d = Some t \<and> egress_clients t = [] \<and> egress_cfg t = egress_cfg s
    \<and> egress_written t = egress_written s \<and> buffered t (ds @ [d]) j"
proof -
  let ?limit = "max_buffer_bytes (egress_cfg s)" and ?f = "frame_message d"
  have d: "length ?f < 2 ^ 32" using assms(4) by (simp add: framable_def)
  then have sz: "unat (of_nat (length ?f) :: u64) = length ?f" by (simp add: unat_of_nat del: length_frame_message)
  have b: "egress_buffer s = framed (drop k ds)" "k \<le> length ds"
    "unat (buffer_bytes s) = total_bytes (egress_buffer s)"
    "0 < k \<Longrightarrow> unat ?limit < total_bytes (framed (drop (k - 1) ds))"
    using assms(2) by (simp_all add: buffered_def)
  have small: "total_bytes (egress_buffer s) < 2 ^ 63 + 2 ^ 32"
  proof (cases "length ds = Suc k")
    case True
    then have "egress_buffer s = [frame_message (ds ! k)]" "framable (ds ! k)"
      using b(1) assms(4) by (simp_all add: Cons_nth_drop_Suc [symmetric])
    then show ?thesis by (simp add: framable_def)
  qed (use assms(2,3) in \<open>auto simp: buffered_def\<close>)
  obtain j tot where j: "discard_oldest ?limit (of_nat (length ?f)) (egress_buffer s) (buffer_bytes s)
      = (drop j (egress_buffer s), tot)" "j \<le> length (egress_buffer s)" "unat tot = total_bytes (drop j (egress_buffer s))"
    "j < length (egress_buffer s) \<Longrightarrow> total_bytes (drop j (egress_buffer s)) + length ?f \<le> unat ?limit"
    "0 < j \<Longrightarrow> unat ?limit < total_bytes (drop (j - 1) (egress_buffer s)) + length ?f"
    using discard_oldest_spec [OF b(3), of "of_nat (length ?f)" ?limit] small d sz by auto
  let ?t = "s\<lparr>egress_buffer := drop j (egress_buffer s) @ [?f], buffer_bytes := tot + of_nat (length ?f)\<rparr>"
  have t: "deliver s a d = Some ?t" using assms(1) by (simp add: deliver_def Let_def j(1) del: length_frame_message)
  have drops: "framed (drop (k + i) (ds @ [d])) = drop i (egress_buffer s) @ [?f]" if "i \<le> length (egress_buffer s)" for i
    using that b(1,2) by (simp add: drop_map add.commute)
  have "unat (tot + of_nat (length ?f)) = total_bytes (drop j (egress_buffer s) @ [?f])"
  proof -
    have "total_bytes (drop j (egress_buffer s)) \<le> total_bytes (egress_buffer s)"
      by (metis append_take_drop_id le_add2 total_bytes_simps(3))
    then have "unat tot + length ?f < 2 ^ 64" using small d j(3)
      by (simp del: length_frame_message)
    then show ?thesis using sz j(3) by (simp add: unat_word_ariths del: length_frame_message)
  qed
  moreover have "unat ?limit < total_bytes (framed (drop (k + j - 1) (ds @ [d])))" if "0 < k + j"
  proof (cases "j = 0")
    case True
    then show ?thesis using b(2,4) that by simp
  next
    case False
    then show ?thesis using drops [of "j - 1"] j(2,5) by simp
  qed
  moreover have "total_bytes (drop j (egress_buffer s)) + length ?f \<le> unat ?limit \<or> length (ds @ [d]) = Suc (k + j)"
    using j(2,4) b(1,2) by (cases "j < length (egress_buffer s)") auto
  ultimately have "buffered ?t (ds @ [d]) (k + j)"
    using drops [of j] j(2) b(1,2) by (simp add: buffered_def del: length_frame_message)
  then show ?thesis using t assms(1) by auto
qed

lemma deliver_all_buffers:
  assumes "\<forall>m \<in> set ds. framable m" "unat (max_buffer_bytes cfg) \<le> 2 ^ 63"
  shows "\<exists>s k. deliver_all (new_egress cfg) ds = Some s \<and> egress_clients s = [] \<and> egress_cfg s = cfg
    \<and> egress_written s = [] \<and> buffered s ds k"
  using assms(1)
proof (induction ds rule: rev_induct)
  case Nil
  then show ?case by (simp add: new_egress_def buffered_def)
next
  case (snoc d ds)
  then obtain s k where s: "deliver_all (new_egress cfg) ds = Some s" "egress_clients s = []" "egress_cfg s = cfg"
    "egress_written s = []" "buffered s ds k" by auto
  show ?case
    using deliver_buffers [OF s(2,5), of d "\<lambda>_. []"] s assms(2) snoc.prems by (auto simp: deliver_all_append)
qed

lemma word_unat_eqI: "unat x = unat y \<Longrightarrow> x = y" for x y :: u64
  by (simp add: word_unat_eq_iff)

section \<open>Flushing to the first client\<close>

text \<open>The client takes every block whole, in however many writes.\<close>

definition accepts :: "int \<Rightarrow> bytes \<Rightarrow> (int \<Rightarrow> int list) \<Rightarrow> bool" where
  "accepts fd block answers \<longleftrightarrow> write_loop (length block) 0 (answers fd) = Some (length block, True)"

lemma flush_one_client:
  assumes "egress_clients s = [fd]" "list_all2 (accepts fd) (egress_buffer s) answers"
  shows "\<exists>t. flush_buffer_to_clients s answers = Some t \<and> egress_clients t = [fd] \<and> egress_buffer t = []
    \<and> egress_written t = egress_written s @ map (Pair fd) (egress_buffer s)
    \<and> buffer_bytes t = buffer_bytes s - of_nat (total_bytes (egress_buffer s))"
  using assms
proof (induction "egress_buffer s" arbitrary: s answers)
  case Nil
  then show ?case by (subst flush_buffer_to_clients.simps) (simp flip: Nil.hyps)
next
  case (Cons x xs)
  from Cons.prems(2) obtain a more where a: "answers = a # more" "accepts fd x a" "list_all2 (accepts fd) xs more"
    by (auto simp: list_all2_Cons1 simp flip: Cons.hyps(2))
  let ?t = "s\<lparr>egress_written := egress_written s @ [(fd, x)], buffer_bytes := buffer_bytes s - of_nat (length x),
    egress_buffer := xs\<rparr>"
  have "write_to_clients s a x = Some (s\<lparr>egress_written := egress_written s @ [(fd, x)]\<rparr>)"
    using a(2) Cons.prems(1) by (simp add: write_to_clients_def accepts_def)
  then have "flush_buffer_to_clients s answers = flush_buffer_to_clients ?t more"
    using Cons.prems(1) a(1) by (subst flush_buffer_to_clients.simps) (simp flip: Cons.hyps(2))
  then show ?case
    using Cons.hyps(1) [of ?t more] Cons.prems(1) a(3) by (simp flip: Cons.hyps(2)) (simp add: algebra_simps)
qed

section \<open>Properties\<close>

text \<open>While no client is connected the server keeps the newest blocks: the longest run of them
  whose frames fit the limit, or the last one alone when it is larger than the limit. The first
  client to connect and take its writes is sent exactly those, reads exactly those blocks, and the
  byte count is back at 0.\<close>

theorem egress_keeps_newest:
  assumes "\<forall>d \<in> set ds. length d < 2 ^ 32 - 4" "unat (max_buffer_bytes cfg) \<le> 2 ^ 63"
  shows "\<exists>s k. deliver_all (new_egress cfg) ds = Some s \<and> egress_buffer s = map frame_message (drop k ds) \<and> k \<le> length ds
    \<and> unat (buffer_bytes s) = total_bytes (egress_buffer s)
    \<and> (total_bytes (egress_buffer s) \<le> unat (max_buffer_bytes cfg) \<or> length ds = Suc k)
    \<and> (0 < k \<longrightarrow> unat (max_buffer_bytes cfg) < total_bytes (map frame_message (drop (k - 1) ds)))
    \<and> (\<forall>fd answers. list_all2 (accepts fd) (egress_buffer s) answers \<longrightarrow>
        (\<exists>t. egress_accept s fd answers = Some t \<and> egress_buffer t = [] \<and> buffer_bytes t = 0
           \<and> extract_all (concat (map snd (egress_written t))) = Inr (drop k ds, [])))"
proof -
  have ok: "\<forall>d \<in> set ds. framable d" using assms(1) by (simp add: framable_def)
  obtain s k where s: "deliver_all (new_egress cfg) ds = Some s" "egress_clients s = []" "egress_cfg s = cfg"
    "egress_written s = []" "buffered s ds k"
    using deliver_all_buffers [OF ok assms(2)] by blast
  note b = s(5) [unfolded buffered_def s(3)]
  have "\<exists>t. egress_accept s fd answers = Some t \<and> egress_buffer t = [] \<and> buffer_bytes t = 0
      \<and> extract_all (concat (map snd (egress_written t))) = Inr (drop k ds, [])"
    if acc: "list_all2 (accepts fd) (egress_buffer s) answers" for fd answers
  proof -
    obtain t where t: "egress_accept s fd answers = Some t" "egress_buffer t = []"
      "egress_written t = map (Pair fd) (egress_buffer s)" "buffer_bytes t = buffer_bytes s - of_nat (total_bytes (egress_buffer s))"
      using flush_one_client [of "s\<lparr>egress_clients := egress_clients s @ [fd]\<rparr>" fd answers] acc s(2,4)
      unfolding egress_accept_def by auto
    have "(of_nat (unat (buffer_bytes s)) :: u64) = buffer_bytes s" by (rule word_unat_eqI) simp
    then have "buffer_bytes t = 0" using b t(4) by (metis diff_self)
    moreover have "concat (map snd (egress_written t)) = frames (drop k ds)"
      using t(3) b by (simp add: comp_def frames_def)
    moreover have "\<forall>d \<in> set (drop k ds). framable d" using ok in_set_dropD by fast
    ultimately show ?thesis using t(1,2) extract_all_frames by simp
  qed
  then show ?thesis using s(1) b by blast
qed

definition small_egress :: egress_config where
  "small_egress = \<lparr>egress_bind_addr = ''127.0.0.1'', egress_port = 4557, max_buffer_bytes = 12\<rparr>"

theorem egress_keeps_newest_witness:
  "\<exists>s. deliver_all (new_egress small_egress) [[1], [2], [3]] = Some s
     \<and> egress_buffer s = [[0, 0, 0, 1, 2], [0, 0, 0, 1, 3]]"
proof -
  obtain s k where s: "deliver_all (new_egress small_egress) [[1], [2], [3]] = Some s"
    "egress_buffer s = map frame_message (drop k [[1], [2], [3]])"
    "total_bytes (egress_buffer s) \<le> 12 \<or> 3 = Suc k" "k \<le> 3"
    "0 < k \<longrightarrow> 12 < total_bytes (map frame_message (drop (k - 1) [[1], [2], [3]]))"
    using egress_keeps_newest [of "[[1], [2], [3]]" small_egress]
    by (auto simp: small_egress_def simp del: deliver_all.simps)
  consider "k = 0" | "k = 1" | "k = 2" | "k = 3" using s(4) by linarith
  then have "k = 1" by cases (use s(2,3,5) in auto)
  then show ?thesis using s(1,2) by (simp add: frame_message_def Let_def del: deliver_all.simps)
qed

text \<open>A block is lost, not buffered, when the only client turns out to be gone while it is
  written, and so is every buffered block whose flush reaches a client that does not take it.\<close>

theorem egress_loses_blocks:
  "(let s = (new_egress cfg)\<lparr>egress_clients := [fd]\<rparr> in
     deliver s (\<lambda>_. [-1]) data = Some ((new_egress cfg)\<lparr>egress_written := [(fd, [])]\<rparr>))
   \<and> (let s = (new_egress cfg)\<lparr>egress_buffer := [frame_message data], buffer_bytes := of_nat (length (frame_message data))\<rparr> in
     egress_accept s fd [\<lambda>_. [-1]] = Some ((new_egress cfg)\<lparr>egress_written := [(fd, [])]\<rparr>))"
  by (simp_all add: Let_def deliver_def write_to_clients_def write_loop.simps egress_accept_def new_egress_def
      flush_buffer_to_clients.simps)

end
