(* ===== verification/Cla_Config.thy ===== *)
theory Cla_Config
  imports Segmentation Cla Ingress Egress Text
begin

text \<open>
  The configuration of the LTP convergence layer process, \<^verbatim>\<open>src/ltp_cla/config.cpp\<close>:
  its parameters and defaults, the range checks with their messages, and the command line overrides
  read with the number parser of \<open>Text\<close>.
\<close>

section \<open>Parameters\<close>

definition default_ingress_config :: ingress_config where
  "default_ingress_config = \<lparr>ingress_bind_addr = ''127.0.0.1'', ingress_port = 4556, default_reliable = True\<rparr>"

definition default_egress_config :: egress_config where
  "default_egress_config = \<lparr>egress_bind_addr = ''127.0.0.1'', egress_port = 4557, max_buffer_bytes = 10485760\<rparr>"

record ltp_cla_config =
  ltp :: engine_config
  cla :: cla_config
  ingress :: ingress_config
  egress :: egress_config
  log_level :: string

definition cla_defaults :: ltp_cla_config where
  "cla_defaults = \<lparr>ltp = default_engine_config, cla = default_cla_config, ingress = default_ingress_config,
     egress = default_egress_config, log_level = ''info''\<rparr>"

section \<open>Validation\<close>

abbreviation check :: "bool \<Rightarrow> string \<Rightarrow> string list" where
  "check wrong message \<equiv> if wrong then [message] else []"

definition log_levels :: "string list" where
  "log_levels = [''trace'', ''debug'', ''info'', ''warn'', ''error'', ''critical'', ''off'']"

definition cla_validate :: "ltp_cla_config \<Rightarrow> string list" where
  "cla_validate c =
    check (local_engine_id (ltp c) = 0) ''ltp.local_engine_id must be > 0, got 0''
  @ check (remote_engine_id (ltp c) = 0) ''ltp.remote_engine_id must be > 0, got 0''
  @ check (max_segment_size (ltp c) = 0) ''ltp.max_segment_size must be > 0, got 0''
  @ check (retransmission_timeout_ms (ltp c) < 100)
      (''ltp.retransmission_timeout_ms must be >= 100, got '' @ to_string (unat (retransmission_timeout_ms (ltp c))))
  @ check (max_retransmissions (ltp c) = 0) ''ltp.max_retransmissions must be > 0, got 0''
  @ check (max_concurrent_sessions (ltp c) = 0) ''ltp.max_concurrent_sessions must be > 0, got 0''
  @ check (tx_addr (cla c) = []) ''cla.tx_addr must not be empty''
  @ check (tx_port (cla c) = 0) ''cla.tx_port must be > 0, got 0''
  @ check (rx_addr (cla c) = []) ''cla.rx_addr must not be empty''
  @ check (rx_port (cla c) = 0) ''cla.rx_port must be > 0, got 0''
  @ check (initial_reconnect_delay_ms (cla c) = 0) ''cla.initial_reconnect_delay_ms must be > 0, got 0''
  @ check (max_reconnect_delay_ms (cla c) < initial_reconnect_delay_ms (cla c))
      ''cla.max_reconnect_delay_ms must be >= initial_reconnect_delay_ms''
  @ check (ingress_bind_addr (ingress c) = []) ''ingress.bind_addr must not be empty''
  @ check (egress_bind_addr (egress c) = []) ''egress.bind_addr must not be empty''
  @ check (max_buffer_bytes (egress c) = 0) ''egress.max_buffer_bytes must be > 0, got 0''
  @ check (log_level c \<notin> set log_levels)
      (''log_level must be one of: trace, debug, info, warn, error, critical, off; got '' @ [CHR 0x27] @ log_level c @ [CHR 0x27])"

section \<open>Command line\<close>

text \<open>An argument \<open>--key=value\<close>, split at its first \<open>=\<close>.\<close>

definition split_arg :: "string \<Rightarrow> (string \<times> string) option" where
  "split_arg arg =
    (if CHR ''='' \<notin> set arg \<or> take 2 arg \<noteq> ''--'' then None
     else Some (drop 2 (takeWhile (\<lambda>c. c \<noteq> CHR ''='') arg), tl (dropWhile (\<lambda>c. c \<noteq> CHR ''='') arg)))"

text \<open>An exception leaves the field alone.\<close>

definition parsed :: "string \<Rightarrow> (u64 \<Rightarrow> 'c) \<Rightarrow> 'c \<Rightarrow> 'c" where
  "parsed val set_to c = (case stoull val of None \<Rightarrow> c | Some n \<Rightarrow> set_to n)"

definition set_ltp :: "string \<Rightarrow> string \<Rightarrow> engine_config \<Rightarrow> engine_config" where
  "set_ltp key val l =
    (if key = ''ltp.local_engine_id'' then parsed val (\<lambda>n. l\<lparr>local_engine_id := n\<rparr>) l
     else if key = ''ltp.remote_engine_id'' then parsed val (\<lambda>n. l\<lparr>remote_engine_id := n\<rparr>) l
     else if key = ''ltp.max_segment_size'' then parsed val (\<lambda>n. l\<lparr>max_segment_size := ucast n\<rparr>) l
     else if key = ''ltp.retransmission_timeout_ms'' then parsed val (\<lambda>n. l\<lparr>retransmission_timeout_ms := ucast n\<rparr>) l
     else if key = ''ltp.max_retransmissions'' then parsed val (\<lambda>n. l\<lparr>max_retransmissions := ucast n\<rparr>) l
     else if key = ''ltp.max_concurrent_sessions'' then parsed val (\<lambda>n. l\<lparr>max_concurrent_sessions := ucast n\<rparr>) l
     else l)"

definition set_cla :: "string \<Rightarrow> string \<Rightarrow> cla_config \<Rightarrow> cla_config" where
  "set_cla key val c =
    (if key = ''cla.tx_addr'' then c\<lparr>tx_addr := val\<rparr>
     else if key = ''cla.tx_port'' then parsed val (\<lambda>n. c\<lparr>tx_port := ucast n\<rparr>) c
     else if key = ''cla.rx_addr'' then c\<lparr>rx_addr := val\<rparr>
     else if key = ''cla.rx_port'' then parsed val (\<lambda>n. c\<lparr>rx_port := ucast n\<rparr>) c
     else if key = ''cla.initial_reconnect_delay_ms'' then parsed val (\<lambda>n. c\<lparr>initial_reconnect_delay_ms := ucast n\<rparr>) c
     else if key = ''cla.max_reconnect_delay_ms'' then parsed val (\<lambda>n. c\<lparr>max_reconnect_delay_ms := ucast n\<rparr>) c
     else c)"

definition set_ingress :: "string \<Rightarrow> string \<Rightarrow> ingress_config \<Rightarrow> ingress_config" where
  "set_ingress key val i =
    (if key = ''ingress.bind_addr'' then i\<lparr>ingress_bind_addr := val\<rparr>
     else if key = ''ingress.port'' then parsed val (\<lambda>n. i\<lparr>ingress_port := ucast n\<rparr>) i
     else if key = ''ingress.default_reliable'' then i\<lparr>default_reliable := (val = ''true'' \<or> val = ''1'')\<rparr>
     else i)"

definition set_egress :: "string \<Rightarrow> string \<Rightarrow> egress_config \<Rightarrow> egress_config" where
  "set_egress key val e =
    (if key = ''egress.bind_addr'' then e\<lparr>egress_bind_addr := val\<rparr>
     else if key = ''egress.port'' then parsed val (\<lambda>n. e\<lparr>egress_port := ucast n\<rparr>) e
     else if key = ''egress.max_buffer_bytes'' then parsed val (\<lambda>n. e\<lparr>max_buffer_bytes := n\<rparr>) e
     else e)"

text \<open>The keys are distinct, so the chain of comparisons is one per part.\<close>

definition set_field :: "string \<Rightarrow> string \<Rightarrow> ltp_cla_config \<Rightarrow> ltp_cla_config" where
  "set_field key val c =
    \<lparr>ltp = set_ltp key val (ltp c), cla = set_cla key val (cla c), ingress = set_ingress key val (ingress c),
     egress = set_egress key val (egress c), log_level = (if key = ''log_level'' then val else log_level c)\<rparr>"

definition apply_cli_override :: "string \<Rightarrow> ltp_cla_config \<Rightarrow> ltp_cla_config" where
  "apply_cli_override arg c = (case split_arg arg of None \<Rightarrow> c | Some (key, val) \<Rightarrow> set_field key val c)"

text \<open>The first element of \<open>argv\<close> is the program.\<close>

definition apply_cli_overrides :: "string list \<Rightarrow> ltp_cla_config \<Rightarrow> ltp_cla_config" where
  "apply_cli_overrides argv c = fold apply_cli_override (tl argv) c"

section \<open>Start-up\<close>

text \<open>The configuration the process runs with, or its exit code; \<open>load\<close> reads and parses
  a file, and an exception is \<open>None\<close>.\<close>

fun config_path :: "string list \<Rightarrow> string option" where
  "config_path [] = None"
| "config_path (arg # args) = (if take 9 arg = ''--config='' then Some (drop 9 arg) else config_path args)"

definition start_up :: "(string \<Rightarrow> ltp_cla_config option) \<Rightarrow> string list \<Rightarrow> nat + ltp_cla_config" where
  "start_up load argv =
    (if ''--help'' \<in> set (tl argv) \<or> ''-h'' \<in> set (tl argv) then Inl 0
     else
       case (case config_path (tl argv) of None \<Rightarrow> Some cla_defaults | Some path \<Rightarrow> load path) of
         None \<Rightarrow> Inl 1
       | Some loaded \<Rightarrow>
           let cfg = apply_cli_overrides argv loaded
           in if cla_validate cfg \<noteq> [] then Inl 1 else Inr cfg)"

section \<open>Properties\<close>

text \<open>The command line that spells out a configuration.\<close>

definition cli_args :: "ltp_cla_config \<Rightarrow> string list" where
  "cli_args c =
    [''--ltp.local_engine_id='' @ to_string (unat (local_engine_id (ltp c))),
     ''--ltp.remote_engine_id='' @ to_string (unat (remote_engine_id (ltp c))),
     ''--ltp.max_segment_size='' @ to_string (unat (max_segment_size (ltp c))),
     ''--ltp.retransmission_timeout_ms='' @ to_string (unat (retransmission_timeout_ms (ltp c))),
     ''--ltp.max_retransmissions='' @ to_string (unat (max_retransmissions (ltp c))),
     ''--ltp.max_concurrent_sessions='' @ to_string (unat (max_concurrent_sessions (ltp c))),
     ''--cla.tx_addr='' @ tx_addr (cla c),
     ''--cla.tx_port='' @ to_string (unat (tx_port (cla c))),
     ''--cla.rx_addr='' @ rx_addr (cla c),
     ''--cla.rx_port='' @ to_string (unat (rx_port (cla c))),
     ''--cla.initial_reconnect_delay_ms='' @ to_string (unat (initial_reconnect_delay_ms (cla c))),
     ''--cla.max_reconnect_delay_ms='' @ to_string (unat (max_reconnect_delay_ms (cla c))),
     ''--ingress.bind_addr='' @ ingress_bind_addr (ingress c),
     ''--ingress.port='' @ to_string (unat (ingress_port (ingress c))),
     ''--ingress.default_reliable='' @ (if default_reliable (ingress c) then ''true'' else ''false''),
     ''--egress.bind_addr='' @ egress_bind_addr (egress c),
     ''--egress.port='' @ to_string (unat (egress_port (egress c))),
     ''--egress.max_buffer_bytes='' @ to_string (unat (max_buffer_bytes (egress c))),
     ''--log_level='' @ log_level c]"

lemma split_arg_key:
  assumes "CHR ''='' \<notin> set key"
  shows "split_arg (''--'' @ key @ ''='' @ val) = Some (key, val)"
proof -
  have "takeWhile (\<lambda>c. c \<noteq> CHR ''='') (key @ CHR ''='' # val) = key"
    "dropWhile (\<lambda>c. c \<noteq> CHR ''='') (key @ CHR ''='' # val) = CHR ''='' # val"
    using assms by (induction key) auto
  then show ?thesis by (simp add: split_arg_def)
qed

lemma override_key:
  "CHR ''='' \<notin> set key \<Longrightarrow> apply_cli_override (''--'' @ key @ ''='' @ val) c = set_field key val c"
  by (simp add: apply_cli_override_def split_arg_key del: append.simps)

lemma parsed_number: "n < 2 ^ 64 \<Longrightarrow> parsed (to_string n) f c = f (of_nat n)"
  by (simp add: parsed_def stoull_to_string)

lemma narrow:
  fixes x :: "'n :: len word"
  assumes "LENGTH('n) \<le> 64"
  shows "ucast (of_nat (unat x) :: u64) = x" "unat x < 2 ^ 64"
proof -
  have le: "(2 :: nat) ^ LENGTH('n) \<le> 2 ^ 64" using assms by (rule power_increasing) simp
  have lt: "unat x < 2 ^ LENGTH('n)" by (rule unsigned_less)
  show "unat x < 2 ^ 64" using lt le by (rule less_le_trans)
  moreover have "unat (ucast x :: u64) = unat x mod 2 ^ 64"
    unfolding unsigned_ucast_eq by (simp add: take_bit_eq_mod)
  ultimately have "unat (of_nat (unat x) :: u64) = unat x" by simp
  then have "unat (ucast (of_nat (unat x) :: u64) :: 'n word) = unat x mod 2 ^ LENGTH('n)"
    by (metis unsigned_ucast_eq take_bit_eq_mod)
  then show "ucast (of_nat (unat x) :: u64) = x" using lt by (simp add: word_unat_eq_iff)
qed

lemma parsed_word:
  fixes x :: "'n :: len word"
  assumes "LENGTH('n) \<le> 64"
  shows "parsed (to_string (unat x)) f c = f (ucast x)" "ucast (ucast x :: u64) = x"
  using narrow [OF assms, of x] parsed_number [of "unat x" f c] by simp_all

lemma set_field_ltp: "set_field (''ltp.'' @ k) val c = c\<lparr>ltp := set_ltp (''ltp.'' @ k) val (ltp c)\<rparr>"
  by (simp add: set_field_def set_cla_def set_ingress_def set_egress_def)

lemma set_field_cla: "set_field (''cla.'' @ k) val c = c\<lparr>cla := set_cla (''cla.'' @ k) val (cla c)\<rparr>"
  by (simp add: set_field_def set_ltp_def set_ingress_def set_egress_def)

lemma set_field_ingress: "set_field (''ingress.'' @ k) val c = c\<lparr>ingress := set_ingress (''ingress.'' @ k) val (ingress c)\<rparr>"
  by (simp add: set_field_def set_ltp_def set_cla_def set_egress_def)

lemma set_field_egress: "set_field (''egress.'' @ k) val c = c\<lparr>egress := set_egress (''egress.'' @ k) val (egress c)\<rparr>"
  by (simp add: set_field_def set_ltp_def set_cla_def set_ingress_def)

lemma set_field_log_level: "set_field ''log_level'' val c = c\<lparr>log_level := val\<rparr>"
  by (simp add: set_field_def set_ltp_def set_cla_def set_ingress_def set_egress_def)

lemma override_ltp:
  "CHR ''='' \<notin> set k \<Longrightarrow> apply_cli_override (''--ltp.'' @ k @ ''='' @ v) d = d\<lparr>ltp := set_ltp (''ltp.'' @ k) v (ltp d)\<rparr>"
  using override_key [of "''ltp.'' @ k" v d] set_field_ltp [of k v d] by simp

lemmas override_ltp_fields =
  override_ltp [of "''local_engine_id''", simplified]
  override_ltp [of "''remote_engine_id''", simplified]
  override_ltp [of "''max_segment_size''", simplified]
  override_ltp [of "''retransmission_timeout_ms''", simplified]
  override_ltp [of "''max_retransmissions''", simplified]
  override_ltp [of "''max_concurrent_sessions''", simplified]

lemma override_cla:
  "CHR ''='' \<notin> set k \<Longrightarrow> apply_cli_override (''--cla.'' @ k @ ''='' @ v) d = d\<lparr>cla := set_cla (''cla.'' @ k) v (cla d)\<rparr>"
  using override_key [of "''cla.'' @ k" v d] set_field_cla [of k v d] by simp

lemmas override_cla_fields =
  override_cla [of "''tx_addr''", simplified]
  override_cla [of "''tx_port''", simplified]
  override_cla [of "''rx_addr''", simplified]
  override_cla [of "''rx_port''", simplified]
  override_cla [of "''initial_reconnect_delay_ms''", simplified]
  override_cla [of "''max_reconnect_delay_ms''", simplified]

lemma override_ingress:
  "CHR ''='' \<notin> set k \<Longrightarrow> apply_cli_override (''--ingress.'' @ k @ ''='' @ v) d = d\<lparr>ingress := set_ingress (''ingress.'' @ k) v (ingress d)\<rparr>"
  using override_key [of "''ingress.'' @ k" v d] set_field_ingress [of k v d] by simp

lemmas override_ingress_fields =
  override_ingress [of "''bind_addr''", simplified]
  override_ingress [of "''port''", simplified]
  override_ingress [of "''default_reliable''", simplified]

lemma override_egress:
  "CHR ''='' \<notin> set k \<Longrightarrow> apply_cli_override (''--egress.'' @ k @ ''='' @ v) d = d\<lparr>egress := set_egress (''egress.'' @ k) v (egress d)\<rparr>"
  using override_key [of "''egress.'' @ k" v d] set_field_egress [of k v d] by simp

lemmas override_egress_fields =
  override_egress [of "''bind_addr''", simplified]
  override_egress [of "''port''", simplified]
  override_egress [of "''max_buffer_bytes''", simplified]

lemma override_log_level: "apply_cli_override (''--log_level='' @ v) d = d\<lparr>log_level := v\<rparr>"
  using override_key [of "''log_level''" v d] set_field_log_level [of v d] by simp

lemmas overrides = override_ltp_fields override_cla_fields override_ingress_fields override_egress_fields
  override_log_level [simplified]

lemma cli_roundtrip: "apply_cli_overrides (prog # cli_args c) d = c"
  by (simp add: apply_cli_overrides_def cli_args_def overrides set_ltp_def set_cla_def set_ingress_def set_egress_def
      parsed_word)

lemma cli_args_plain:
  "''--help'' \<notin> set (cli_args c)" "''-h'' \<notin> set (cli_args c)" "config_path (cli_args c) = None"
  by (simp_all add: cli_args_def)

text \<open>The command line that spells out a configuration starts the process with exactly that
  configuration - every field has its own key and every value is read back as it was printed - if
  it is valid, and is refused with exit code 1 otherwise.\<close>

theorem start_up_cli_args:
  "start_up load (prog # cli_args c) = (if cla_validate c = [] then Inr c else Inl 1)"
  by (simp add: start_up_def cli_args_plain cli_roundtrip Let_def)

text \<open>Whatever the file and the arguments, a process that starts runs with parameters in range:
  in particular segmentation terminates for every block, the reconnection delays are positive and
  ordered, and every limit is positive.\<close>

theorem start_up_valid:
  assumes "start_up load argv = Inr c"
  shows "segment_data_impl s (max_segment_size (ltp c)) cp \<noteq> Inl Diverges
    \<and> 100 \<le> retransmission_timeout_ms (ltp c) \<and> 0 < max_retransmissions (ltp c) \<and> 0 < max_concurrent_sessions (ltp c)
    \<and> 0 < local_engine_id (ltp c) \<and> 0 < remote_engine_id (ltp c) \<and> 0 < tx_port (cla c) \<and> 0 < rx_port (cla c)
    \<and> 0 < initial_reconnect_delay_ms (cla c) \<and> initial_reconnect_delay_ms (cla c) \<le> max_reconnect_delay_ms (cla c)
    \<and> 0 < max_buffer_bytes (egress c) \<and> log_level c \<in> set log_levels
    \<and> [] \<notin> {tx_addr (cla c), rx_addr (cla c), ingress_bind_addr (ingress c), egress_bind_addr (egress c)}"
proof -
  have v: "cla_validate c = []"
    using assms by (auto simp: start_up_def Let_def split: if_splits option.splits)
  show ?thesis
    using v by (auto simp: cla_validate_def segment_data_impl_eq word_gt_0 not_less split: if_splits)
qed

definition no_file :: "string \<Rightarrow> ltp_cla_config option" where
  "no_file path = None"

lemma defaults_valid: "cla_validate cla_defaults = []"
  by (simp add: cla_validate_def cla_defaults_def default_engine_config_def default_cla_config_def
      default_ingress_config_def default_egress_config_def log_levels_def)

lemma start_up_defaults: "start_up no_file [''ltp_cla''] = Inr cla_defaults"
  by (simp add: start_up_def apply_cli_overrides_def Let_def defaults_valid)

theorem start_up_valid_witness: "start_up no_file [''ltp_cla''] = Inr cla_defaults \<and> 0 < max_buffer_bytes (egress cla_defaults)"
  using start_up_valid [OF start_up_defaults] start_up_defaults by blast

text \<open>The overrides take the low bits of whatever number the value starts with and treat every
  word but \<open>true\<close> and \<open>1\<close> as false, so these command lines start a process instead of
  being refused: a port of 70536 is 5000, 257 retransmissions are 1, minus one session is
  \<open>2^32 - 1\<close>, a segment size of 9k is 9, and \<open>yes\<close> makes the ingress unreliable.\<close>

theorem cli_values_truncated:
  "start_up load [prog, ''--cla.tx_port=70536'', ''--ltp.max_retransmissions=257'',
      ''--ltp.max_concurrent_sessions=-1'', ''--ltp.max_segment_size=9k'', ''--ingress.default_reliable=yes'']
    = Inr (cla_defaults\<lparr>
        ltp := default_engine_config\<lparr>max_retransmissions := 1, max_concurrent_sessions := 0xFFFFFFFF, max_segment_size := 9\<rparr>,
        ingress := default_ingress_config\<lparr>default_reliable := False\<rparr>\<rparr>)"
proof -
  have n: "stoull ''70536'' = Some 70536" "stoull ''257'' = Some 257" "stoull ''-1'' = Some (- 1)" "stoull ''9k'' = Some 9"
    by (simp_all add: stoull_def is_space_def is_digit_def digits_value_def)
  have valid: "cla_validate (cla_defaults\<lparr>
        ltp := default_engine_config\<lparr>max_retransmissions := 1, max_concurrent_sessions := 0xFFFFFFFF, max_segment_size := 9\<rparr>,
        ingress := default_ingress_config\<lparr>default_reliable := False\<rparr>\<rparr>) = []"
    by (simp add: cla_validate_def cla_defaults_def default_engine_config_def default_cla_config_def
        default_ingress_config_def default_egress_config_def log_levels_def)
  have low: "(257 :: u8) = 1" "(70536 :: u16) = 5000" "ucast (- 1 :: u64) = (0xFFFFFFFF :: u32)"
    by (simp, simp, code_simp)
  show ?thesis
    using override_cla_fields(2) [of "''70536''"] override_ltp_fields(5) [of "''257''"]
      override_ltp_fields(6) [of "''-1''"] override_ltp_fields(3) [of "''9k''"] override_ingress_fields(3) [of "''yes''"]
    using valid by (simp add: start_up_def Let_def apply_cli_overrides_def set_ltp_def set_cla_def set_ingress_def
        parsed_def n low cla_defaults_def default_engine_config_def default_ingress_config_def default_cla_config_def)
qed

end
