(* ===== verification/Cla_Json.thy ===== *)
theory Cla_Json
  imports Cla_Config Json
begin

text \<open>
  Saving and loading the configuration of the LTP convergence layer process, \<open>to_json\<close>,
  \<open>from_json\<close> and their file versions in \<^verbatim>\<open>src/ltp_cla/config.cpp\<close>, with the
  library as a parameter. No field is required and no type is checked beforehand.
\<close>

definition ltp_members :: "('j, 't) json_lib \<Rightarrow> engine_config \<Rightarrow> (string \<times> 'j) list" where
  "ltp_members L l =
    [(''local_engine_id'', of_unsigned L (unat (local_engine_id l))),
     (''remote_engine_id'', of_unsigned L (unat (remote_engine_id l))),
     (''max_segment_size'', of_unsigned L (unat (max_segment_size l))),
     (''retransmission_timeout_ms'', of_unsigned L (unat (retransmission_timeout_ms l))),
     (''max_retransmissions'', of_unsigned L (unat (max_retransmissions l))),
     (''max_concurrent_sessions'', of_unsigned L (unat (max_concurrent_sessions l)))]"

definition cla_members :: "('j, 't) json_lib \<Rightarrow> cla_config \<Rightarrow> (string \<times> 'j) list" where
  "cla_members L c =
    [(''tx_addr'', of_text L (tx_addr c)), (''tx_port'', of_unsigned L (unat (tx_port c))),
     (''rx_addr'', of_text L (rx_addr c)), (''rx_port'', of_unsigned L (unat (rx_port c))),
     (''initial_reconnect_delay_ms'', of_unsigned L (unat (initial_reconnect_delay_ms c))),
     (''max_reconnect_delay_ms'', of_unsigned L (unat (max_reconnect_delay_ms c)))]"

definition ingress_members :: "('j, 't) json_lib \<Rightarrow> ingress_config \<Rightarrow> (string \<times> 'j) list" where
  "ingress_members L i =
    [(''bind_addr'', of_text L (ingress_bind_addr i)), (''port'', of_unsigned L (unat (ingress_port i))),
     (''default_reliable'', of_flag L (default_reliable i))]"

definition egress_members :: "('j, 't) json_lib \<Rightarrow> egress_config \<Rightarrow> (string \<times> 'j) list" where
  "egress_members L e =
    [(''bind_addr'', of_text L (egress_bind_addr e)), (''port'', of_unsigned L (unat (egress_port e))),
     (''max_buffer_bytes'', of_unsigned L (unat (max_buffer_bytes e)))]"

definition config_members :: "('j, 't) json_lib \<Rightarrow> ltp_cla_config \<Rightarrow> (string \<times> 'j) list" where
  "config_members L c =
    [(''ltp'', object_of L (ltp_members L (ltp c))), (''cla'', object_of L (cla_members L (cla c))),
     (''ingress'', object_of L (ingress_members L (ingress c))), (''egress'', object_of L (egress_members L (egress c))),
     (''log_level'', of_text L (log_level c))]"

definition cla_to_json :: "('j, 't) json_lib \<Rightarrow> ltp_cla_config \<Rightarrow> load_error + 't" where
  "cla_to_json L c = from_get (j_dump L 2 (object_of L (config_members L c)))"

definition cla_to_json_file :: "('j, 't) json_lib \<Rightarrow> ltp_cla_config \<Rightarrow> bool \<Rightarrow> load_error + 't" where
  "cla_to_json_file L c opens = (if \<not> opens then Inl Cannot_Open else cla_to_json L c)"

text \<open>One section of the document, when it is there.\<close>

definition section_of ::
  "('j, 't) json_lib \<Rightarrow> 'j \<Rightarrow> string \<Rightarrow> ('j \<Rightarrow> ('s \<Rightarrow> load_error + 's) list) \<Rightarrow> 's \<Rightarrow> load_error + 's" where
  "section_of L j name readers s = (if j_contains L j name then in_turn (readers (j_at L j name)) s else Inr s)"

definition ltp_readers :: "('j, 't) json_lib \<Rightarrow> 'j \<Rightarrow> (engine_config \<Rightarrow> load_error + engine_config) list" where
  "ltp_readers L j =
    [taken L j ''local_engine_id'' (get_u64 L) (\<lambda>x l. l\<lparr>local_engine_id := x\<rparr>),
     taken L j ''remote_engine_id'' (get_u64 L) (\<lambda>x l. l\<lparr>remote_engine_id := x\<rparr>),
     taken L j ''max_segment_size'' (get_u32 L) (\<lambda>x l. l\<lparr>max_segment_size := x\<rparr>),
     taken L j ''retransmission_timeout_ms'' (get_u32 L) (\<lambda>x l. l\<lparr>retransmission_timeout_ms := x\<rparr>),
     taken L j ''max_retransmissions'' (get_u8 L) (\<lambda>x l. l\<lparr>max_retransmissions := x\<rparr>),
     taken L j ''max_concurrent_sessions'' (get_u32 L) (\<lambda>x l. l\<lparr>max_concurrent_sessions := x\<rparr>)]"

definition cla_readers :: "('j, 't) json_lib \<Rightarrow> 'j \<Rightarrow> (cla_config \<Rightarrow> load_error + cla_config) list" where
  "cla_readers L j =
    [taken L j ''tx_addr'' (get_string L) (\<lambda>x c. c\<lparr>tx_addr := x\<rparr>),
     taken L j ''tx_port'' (get_u16 L) (\<lambda>x c. c\<lparr>tx_port := x\<rparr>),
     taken L j ''rx_addr'' (get_string L) (\<lambda>x c. c\<lparr>rx_addr := x\<rparr>),
     taken L j ''rx_port'' (get_u16 L) (\<lambda>x c. c\<lparr>rx_port := x\<rparr>),
     taken L j ''initial_reconnect_delay_ms'' (get_u32 L) (\<lambda>x c. c\<lparr>initial_reconnect_delay_ms := x\<rparr>),
     taken L j ''max_reconnect_delay_ms'' (get_u32 L) (\<lambda>x c. c\<lparr>max_reconnect_delay_ms := x\<rparr>)]"

definition ingress_readers :: "('j, 't) json_lib \<Rightarrow> 'j \<Rightarrow> (ingress_config \<Rightarrow> load_error + ingress_config) list" where
  "ingress_readers L j =
    [taken L j ''bind_addr'' (get_string L) (\<lambda>x i. i\<lparr>ingress_bind_addr := x\<rparr>),
     taken L j ''port'' (get_u16 L) (\<lambda>x i. i\<lparr>ingress_port := x\<rparr>),
     taken L j ''default_reliable'' (get_bool L) (\<lambda>x i. i\<lparr>default_reliable := x\<rparr>)]"

definition egress_readers :: "('j, 't) json_lib \<Rightarrow> 'j \<Rightarrow> (egress_config \<Rightarrow> load_error + egress_config) list" where
  "egress_readers L j =
    [taken L j ''bind_addr'' (get_string L) (\<lambda>x e. e\<lparr>egress_bind_addr := x\<rparr>),
     taken L j ''port'' (get_u16 L) (\<lambda>x e. e\<lparr>egress_port := x\<rparr>),
     taken L j ''max_buffer_bytes'' (get_u64 L) (\<lambda>x e. e\<lparr>max_buffer_bytes := x\<rparr>)]"

definition cla_from_json :: "('j, 't) json_lib \<Rightarrow> 't \<Rightarrow> load_error + ltp_cla_config" where
  "cla_from_json L text =
    (case j_parse L text of
       None \<Rightarrow> Inl Not_Json
     | Some j \<Rightarrow>
         rbind (section_of L j ''ltp'' (ltp_readers L) (ltp cla_defaults)) (\<lambda>l.
         rbind (section_of L j ''cla'' (cla_readers L) (cla cla_defaults)) (\<lambda>c.
         rbind (section_of L j ''ingress'' (ingress_readers L) (ingress cla_defaults)) (\<lambda>i.
         rbind (section_of L j ''egress'' (egress_readers L) (egress cla_defaults)) (\<lambda>e.
         taken L j ''log_level'' (get_string L) (\<lambda>x cfg. cfg\<lparr>log_level := x\<rparr>)
           (cla_defaults\<lparr>ltp := l, cla := c, ingress := i, egress := e\<rparr>))))))"

definition cla_from_json_file :: "('j, 't) json_lib \<Rightarrow> 't option \<Rightarrow> load_error + ltp_cla_config" where
  "cla_from_json_file L file = (case file of None \<Rightarrow> Inl Cannot_Open | Some text \<Rightarrow> cla_from_json L text)"

section \<open>Saved and loaded\<close>

definition cla_strings :: "ltp_cla_config \<Rightarrow> string set" where
  "cla_strings c = {tx_addr (cla c), rx_addr (cla c), ingress_bind_addr (ingress c), egress_bind_addr (egress c), log_level c}"

lemma taken_value:
  "j_contains L j k \<Longrightarrow> get (j_at L j k) = Some x \<Longrightarrow> taken L j k get upd c = Inr (upd x c)"
  by (simp add: taken_def optional_def typed_def from_get_def)

lemma get_unsigned:
  assumes "json_values L"
  shows "get_u8 L (of_unsigned L (unat a)) = Some a" "get_u16 L (of_unsigned L (unat b)) = Some b"
    "get_u32 L (of_unsigned L (unat c)) = Some c" "get_u64 L (of_unsigned L (unat d)) = Some d"
  using assms unat_below_64(1) [of a] unat_below_64(2) [of b] unat_below_64(3) [of c] unat_below_64(4) [of d] by (simp_all add: json_values_def)

lemma section_readers:
  assumes "json_objects L" "json_values L"
  shows "in_turn (ltp_readers L (object_of L (ltp_members L l))) l0 = Inr l"
    "in_turn (cla_readers L (object_of L (cla_members L c))) c0 = Inr c"
    "in_turn (ingress_readers L (object_of L (ingress_members L i))) i0 = Inr i"
    "in_turn (egress_readers L (object_of L (egress_members L e))) e0 = Inr e"
proof -
  note m = object_of_members [OF assms(1)] and g = get_unsigned [OF assms(2)]
  have s: "get_string L (of_text L s) = Some s" "get_bool L (of_flag L b) = Some b" for s b
    using assms(2) by (simp_all add: json_values_def)
  show "in_turn (ltp_readers L (object_of L (ltp_members L l))) l0 = Inr l"
    by (simp add: ltp_readers_def taken_value m ltp_members_def g)
  show "in_turn (cla_readers L (object_of L (cla_members L c))) c0 = Inr c"
    by (simp add: cla_readers_def taken_value m cla_members_def g s)
  show "in_turn (ingress_readers L (object_of L (ingress_members L i))) i0 = Inr i"
    by (simp add: ingress_readers_def taken_value m ingress_members_def g s)
  show "in_turn (egress_readers L (object_of L (egress_members L e))) e0 = Inr e"
    by (simp add: egress_readers_def taken_value m egress_members_def g s)
qed

text \<open>C40. A saved configuration is loaded exactly as it was: every field of every section is written
  and read back, whatever its value, as long as its strings are UTF-8.\<close>

theorem cla_saved_loaded:
  assumes "json_ok L utf8 clean" "\<forall>s \<in> cla_strings c. utf8 s"
  shows "\<exists>t. cla_to_json_file L c True = Inr t \<and> cla_from_json_file L (Some t) = Inr c"
proof -
  have ok: "json_objects L" "json_values L" "json_text L utf8 clean" using assms(1) by (simp_all add: json_ok_def)
  let ?j = "object_of L (config_members L c)"
  have clean: "clean (of_unsigned L n)" "clean (of_flag L b)" "s \<in> cla_strings c \<Longrightarrow> clean (of_text L s)" for n b s
    using ok(3) assms(2) by (simp_all add: json_text_def)
  have "clean (object_of L (ltp_members L (ltp c)))" "clean (object_of L (cla_members L (cla c)))"
    "clean (object_of L (ingress_members L (ingress c)))" "clean (object_of L (egress_members L (egress c)))"
    by (rule ascii_object_clean [OF ok(3)];
        simp add: ltp_members_def cla_members_def ingress_members_def egress_members_def clean cla_strings_def)+
  then have "clean ?j"
    by (intro ascii_object_clean [OF ok(3)]) (simp_all add: config_members_def clean cla_strings_def)
  then obtain t where t: "j_dump L 2 ?j = Some t" "j_parse L t = Some ?j" using ok(3) unfolding json_text_def by blast
  have "cla_from_json L t = Inr c"
    using t(2) ok(2) object_of_members [OF ok(1), where members = "config_members L c"]
    by (simp add: cla_from_json_def section_of_def taken_value config_members_def section_readers [OF ok(1,2)] json_values_def)
  then show ?thesis using t(1) by (simp add: cla_to_json_file_def cla_to_json_def cla_from_json_file_def from_get_def)
qed

theorem cla_saved_loaded_witness:
  "\<exists>t. cla_to_json_file tree_lib (cla_defaults\<lparr>log_level := ''warn''\<rparr>) True = Inr t
    \<and> cla_from_json_file tree_lib (Some t) = Inr (cla_defaults\<lparr>log_level := ''warn''\<rparr>)"
  using cla_saved_loaded [OF tree_lib_ok, of "cla_defaults\<lparr>log_level := ''warn''\<rparr>"] by simp

end
