(* ===== verification/Engine_Log.thy ===== *)
theory Engine_Log
  imports Delivery "HOL-Library.Sublist"
begin

text \<open>
  What an operation of the engine hands to its callbacks comes after what earlier operations handed to
  them: events are only added, for everything a received segment can make the engine do.
\<close>

named_theorems log_intros "the events of an operation extend those before it"

definition keeps_log :: "('a \<Rightarrow> engine) \<Rightarrow> engine_event list \<Rightarrow> 'a res \<Rightarrow> bool" where
  "keeps_log p evs r \<longleftrightarrow> (\<forall>x. r = Inr x \<longrightarrow> prefix evs (events (p x)))"

lemma keeps_log_Inr [simp]: "keeps_log p evs (Inr x) \<longleftrightarrow> prefix evs (events (p x))" "keeps_log p evs (Inl err)"
  by (auto simp: keeps_log_def)

lemma keeps_log_bind:
  "keeps_log p evs r \<Longrightarrow> (\<And>x. prefix evs (events (p x)) \<Longrightarrow> keeps_log q evs (f x)) \<Longrightarrow> keeps_log q evs (rbind r f)"
  by (cases r) simp_all

lemma keeps_log_pure: "(\<And>x. r = Inr x \<Longrightarrow> keeps_log q evs (f x)) \<Longrightarrow> keeps_log q evs (rbind r f)"
  by (cases r) simp_all

lemmas log_reads =
  keeps_log_pure [of "get_data c" for c] keeps_log_pure [of "get_report c" for c] keeps_log_pure [of "get_rpt_ack c" for c]
  keeps_log_pure [of "get_cancel c" for c] keeps_log_pure [of "read_range d off n" for d off n]
  keeps_log_pure [of "store_segment_data t ds s" for t ds s] keeps_log_pure [of "collect_gaps s m gs ss" for s m gs ss]
  keeps_log_pure [of "mark_checkpoint n s" for n s]

lemma events_emit [log_intros]: "prefix evs (events e) \<Longrightarrow> prefix evs (events (emit b ev e))"
  by (simp add: emit_def prefix_prefix)

lemma send_segment_log [log_intros]: "prefix evs (events e) \<Longrightarrow> keeps_log id evs (send_segment e seg)"
proof (cases "note_sent e seg")
  case (Inr e1)
  assume "prefix evs (events e)"
  then have "prefix evs (events e1)" using note_sent_frame [OF Inr] by simp
  then show ?thesis by (cases "segment_encode seg") (simp_all add: send_segment_def Inr emit_def)
qed (simp add: send_segment_def)

lemma send_all_log [log_intros]: "prefix evs (events e) \<Longrightarrow> keeps_log id evs (send_all e segs)"
proof (induction segs arbitrary: e)
  case (Cons seg segs)
  show ?case using Cons by (auto intro: keeps_log_bind [OF send_segment_log])
qed simp

lemma generate_report_log [log_intros]: "prefix evs (events e) \<Longrightarrow> keeps_log fst evs (generate_report e s cp up)"
  by (auto simp: generate_report_def Let_def intro: keeps_log_bind [OF send_segment_log])

lemma retransmit_gaps_log [log_intros]: "prefix evs (events e) \<Longrightarrow> keeps_log fst evs (retransmit_gaps e s gaps)"
  by (auto simp: retransmit_gaps_def Let_def intro!: log_reads keeps_log_bind [OF send_all_log])

lemma answer_checkpoint_log [log_intros]: "prefix evs (events e) \<Longrightarrow> keeps_log fst evs (answer_checkpoint e t ds s)"
  by (auto simp: answer_checkpoint_def intro: log_intros split: option.split)

lemma complete_receiver_log [log_intros]: "prefix evs (events e) \<Longrightarrow> keeps_log id evs (complete_receiver e k s)"
  by (auto simp: complete_receiver_def deliver_data_def Let_def put_session_def erase_session_def
      intro!: keeps_log_bind [where p = id] log_reads events_emit)

lemma cancel_session_log [log_intros]: "prefix evs (events e) \<Longrightarrow> keeps_log id evs (cancel_session e i n r)"
  by (auto simp: cancel_session_def Let_def put_session_def erase_session_def
      intro!: events_emit keeps_log_bind [OF send_segment_log] split: option.split)

lemma receive_data_log [log_intros]: "prefix evs (events e) \<Longrightarrow> keeps_log id evs (receive_data_segment e seg)"
  by (auto simp: receive_data_segment_def open_receiver_def Let_def put_session_def emplace_session_def
      intro!: log_reads keeps_log_bind [OF answer_checkpoint_log] log_intros split: option.splits if_splits)

lemma receive_report_log [log_intros]: "prefix evs (events e) \<Longrightarrow> keeps_log id evs (receive_report_segment e seg)"
  by (auto simp: receive_report_segment_def send_report_ack_def disarm_checkpoint_def Let_def put_session_def erase_session_def
      intro!: log_reads events_emit keeps_log_bind [OF send_segment_log] keeps_log_bind [OF retransmit_gaps_log]
        log_intros split: option.splits if_splits)

lemma receive_segment_log: "prefix evs (events e) \<Longrightarrow> keeps_log id evs (receive_segment e seg)"
  by (auto simp: receive_segment_def receive_report_ack_def receive_cancel_segment_def receive_cancel_ack_def
      close_cancelled_def disarm_report_def Let_def put_session_def erase_session_def
      intro!: log_reads events_emit keeps_log_bind [OF send_segment_log] log_intros split: option.splits if_splits)

lemma on_wire_log: "on_wire e bs = Inr e' \<Longrightarrow> prefix (events e) (events e')"
  using receive_segment_log [of "events e" e] by (auto simp: on_wire_def rbind_eq_Inr keeps_log_def split: option.splits)

lemma feed_log: "feed e bss = Inr e' \<Longrightarrow> prefix (events e) (events e')"
proof (induction bss arbitrary: e)
  case (Cons bs bss)
  then show ?case using on_wire_log prefix_order.trans by (fastforce simp: rbind_eq_Inr)
qed simp

lemma feed_append: "feed e (xs @ ys) = rbind (feed e xs) (\<lambda>e. feed e ys)"
proof (induction xs arbitrary: e)
  case (Cons x xs)
  then show ?case by (cases "on_wire e x") simp_all
qed simp

end
