(* ===== verification/Node.thy ===== *)
theory Node
  imports Engine_Log Cla_Config
begin

text \<open>
  The LTP process of \<^verbatim>\<open>src/ltp_cla/main.cpp\<close>: engine, timers, adapter, ingress and egress
  server as \<open>main\<close> wires them together, and its shutdown. Each step is one turn of one of the
  threads, with the callbacks it makes into the engine and those the engine makes in turn; the engine has
  no lock, so this is the process as it runs while no two of its threads are inside the engine at once.
  What the engine was called with is kept in \<open>n_calls\<close>, what it handed to its callbacks in
  \<open>n_log\<close>.
\<close>

section \<open>The process\<close>

text \<open>How far \<open>main\<close> is: in its loop, or past the stops that follow it.\<close>

datatype main_phase = Serving | Ingress_Stopped | Timers_Stopped | Adapter_Stopping | Adapter_Stopped | Main_Returned

record node =
  n_engine :: engine
  n_cla :: cla
  n_egress :: egress
  n_ingress :: ingress
  n_reliable :: bool
  n_ingress_alive :: bool   \<comment> \<open>whether the thread has not returned\<close>
  n_egress_alive :: bool
  n_main :: main_phase
  n_calls :: "engine_op list"
  n_log :: "engine_event list"

text \<open>The engine gets the timers and all four callbacks.\<close>

definition wired_engine :: "engine_config \<Rightarrow> engine" where
  "wired_engine c =
    (new_engine c)\<lparr>timers := Some (tm_run tm_init), on_data_arrival := True, on_session_complete := True,
      on_session_failure := True, on_send_segment := True\<rparr>"

definition new_node :: "ltp_cla_config \<Rightarrow> listen_answers \<Rightarrow> listen_answers \<Rightarrow> node" where
  "new_node c egress_answers ingress_answers =
    (let g = egress_start (new_egress (egress c)) egress_answers;
         i = ingress_start new_ingress ingress_answers
     in \<lparr>n_engine = wired_engine (ltp c), n_cla = cla_start (new_cla (cla c)), n_egress = g, n_ingress = i,
         n_reliable = default_reliable (ingress c), n_ingress_alive = ingress_running i, n_egress_alive = egress_running g,
         n_main = Serving, n_calls = [], n_log = []\<rparr>)"

text \<open>The callbacks: segments to the adapter, blocks to the egress server, which may block in
  \<open>write\<close>; the others only log. \<open>writes\<close> are the answers of the writes of each delivery.\<close>

fun hand_over :: "node \<Rightarrow> (int \<Rightarrow> int list) list \<Rightarrow> engine_event list \<Rightarrow> (node \<times> (int \<Rightarrow> int list) list) res" where
  "hand_over n writes [] = Inr (n, writes)"
| "hand_over n writes (ev # evs) =
    (case ev of
       Sent bs \<Rightarrow> hand_over (n\<lparr>n_log := n_log n @ [ev], n_cla := cla_send_segment (n_cla n) bs\<rparr>) writes evs
     | Arrived data \<Rightarrow>
         (case writes of
            [] \<Rightarrow> Inl Diverges
          | w # later \<Rightarrow>
              (case deliver (n_egress n) w data of
                 None \<Rightarrow> Inl Diverges
               | Some g \<Rightarrow> hand_over (n\<lparr>n_log := n_log n @ [ev], n_egress := g\<rparr>) later evs))
     | _ \<Rightarrow> hand_over (n\<lparr>n_log := n_log n @ [ev]\<rparr>) writes evs)"

text \<open>One call into the engine, and a sequence of them.\<close>

definition engine_call :: "node \<Rightarrow> (int \<Rightarrow> int list) list \<Rightarrow> engine_op \<Rightarrow> (node \<times> (int \<Rightarrow> int list) list) res" where
  "engine_call n writes op =
    rbind (exec (n_engine n) op) (\<lambda>e.
    hand_over (n\<lparr>n_engine := e, n_calls := n_calls n @ [op]\<rparr>) writes (drop (length (events (n_engine n))) (events e)))"

fun engine_calls :: "node \<Rightarrow> (int \<Rightarrow> int list) list \<Rightarrow> engine_op list \<Rightarrow> node res" where
  "engine_calls n writes [] = Inr n"
| "engine_calls n writes (op # ops) = rbind (engine_call n writes op) (\<lambda>(n, writes). engine_calls n writes ops)"

section \<open>Threads\<close>

datatype node_turn =
    Ingress_Turn poll_result "int option" "int \<Rightarrow> client_event" "(int \<Rightarrow> int list) list"
  | Rx_Turn rx_event "(int \<Rightarrow> int list) list"
  | Tx_Turn tx_event
  | Egress_Turn poll_result "int option" "(int \<Rightarrow> int list) list"
  | Clock nat
  | Timer_Turn timer_entry "(int \<Rightarrow> int list) list"
  | Main_Turn

text \<open>The ingress thread starts a session for every complete message of its clients.\<close>

definition ingress_step ::
  "node \<Rightarrow> poll_result \<Rightarrow> int option \<Rightarrow> (int \<Rightarrow> client_event) \<Rightarrow> (int \<Rightarrow> int list) list \<Rightarrow> node option res" where
  "ingress_step n polled accepted evs writes =
    (if \<not> n_ingress_alive n then Inr None
     else
       rbind (ingress_turn (n_ingress n) polled accepted evs) (\<lambda>(i, alive).
       let blocks = map snd (drop (length (ingress_data (n_ingress n))) (ingress_data i))
       in rbind (engine_calls (n\<lparr>n_ingress := i, n_ingress_alive := alive\<rparr>) writes
                  (map (\<lambda>data. Op_Start data (n_reliable n)) blocks))
            (\<lambda>n. Inr (Some n))))"

text \<open>The adapter's receive thread gives every segment to the engine.\<close>

definition receive_step :: "node \<Rightarrow> rx_event \<Rightarrow> (int \<Rightarrow> int list) list \<Rightarrow> node option res" where
  "receive_step n ev writes =
    rbind (rx_step (n_cla n) ev) (\<lambda>r.
    case r of
      None \<Rightarrow> Inr None
    | Some c \<Rightarrow>
        let segments = drop (length (segments_received (n_cla n))) (segments_received c)
        in rbind (engine_calls (n\<lparr>n_cla := c\<rparr>) writes (map Op_Wire segments)) (\<lambda>n. Inr (Some n)))"

text \<open>The timer thread calls the engine for the entry at the top of the heap when it is due.\<close>

definition timer_step :: "node \<Rightarrow> timer_entry \<Rightarrow> (int \<Rightarrow> int list) list \<Rightarrow> node option res" where
  "timer_step n entry writes =
    (case timers (n_engine n) of
       None \<Rightarrow> Inr None
     | Some tm \<Rightarrow>
         if \<not> is_top (heap tm) entry then Inr None
         else
           (case thread_iter tm entry of
              None \<Rightarrow> Inr None
            | Some (tm, expired) \<Rightarrow>
                rbind (engine_calls (n\<lparr>n_engine := (n_engine n)\<lparr>timers := Some tm\<rparr>\<rparr>) writes
                        (case expired of None \<Rightarrow> [] | Some ev \<Rightarrow> [Op_Timer ev]))
                  (\<lambda>n. Inr (Some n))))"

text \<open>Once a signal has cleared the flag, \<open>main\<close> stops the components one after the other;
  the adapter's \<open>stop\<close> waits for its two threads.\<close>

fun main_step :: "node \<Rightarrow> node option" where
  "main_step n =
    (case n_main n of
       Serving \<Rightarrow> Some (n\<lparr>n_ingress := ingress_stop (n_ingress n), n_main := Ingress_Stopped\<rparr>)
     | Ingress_Stopped \<Rightarrow>
         Some (n\<lparr>n_engine := (n_engine n)\<lparr>timers := map_option tm_stop (timers (n_engine n))\<rparr>, n_main := Timers_Stopped\<rparr>)
     | Timers_Stopped \<Rightarrow> Some (n\<lparr>n_cla := cla_request_stop (n_cla n), n_main := Adapter_Stopping\<rparr>)
     | Adapter_Stopping \<Rightarrow> map_option (\<lambda>c. n\<lparr>n_cla := c, n_main := Adapter_Stopped\<rparr>) (cla_finish_stop (n_cla n))
     | Adapter_Stopped \<Rightarrow> Some (n\<lparr>n_egress := egress_stop (n_egress n), n_main := Main_Returned\<rparr>)
     | Main_Returned \<Rightarrow> None)"

fun node_step :: "node \<Rightarrow> node_turn \<Rightarrow> node option res" where
  "node_step n (Ingress_Turn polled accepted evs writes) = ingress_step n polled accepted evs writes"
| "node_step n (Rx_Turn ev writes) = receive_step n ev writes"
| "node_step n (Tx_Turn ev) = Inr (map_option (\<lambda>c. n\<lparr>n_cla := c\<rparr>) (tx_step (n_cla n) ev))"
| "node_step n (Egress_Turn polled accepted writes) =
    (if \<not> n_egress_alive n then Inr None
     else (case egress_turn (n_egress n) polled accepted writes of
             None \<Rightarrow> Inl Diverges
           | Some (g, alive) \<Rightarrow> Inr (Some (n\<lparr>n_egress := g, n_egress_alive := alive\<rparr>))))"
| "node_step n (Clock d) =
    Inr (Some (n\<lparr>n_engine := (n_engine n)\<lparr>timers := map_option (\<lambda>tm. tm\<lparr>clock := clock tm + d\<rparr>) (timers (n_engine n))\<rparr>\<rparr>))"
| "node_step n (Timer_Turn entry writes) = timer_step n entry writes"
| "node_step n Main_Turn = Inr (main_step n)"

fun node_run :: "node \<Rightarrow> node_turn list \<Rightarrow> node option res" where
  "node_run n [] = Inr (Some n)"
| "node_run n (s # ss) = rbind (node_step n s) (\<lambda>r. case r of None \<Rightarrow> Inr None | Some n \<Rightarrow> node_run n ss)"

section \<open>What the engine does to the rest\<close>

text \<open>The segments among what the engine handed out, and among what it was called with.\<close>

definition sent_of :: "engine_event list \<Rightarrow> bytes list" where
  "sent_of evs = concat (map (\<lambda>ev. case ev of Sent bs \<Rightarrow> [bs] | _ \<Rightarrow> []) evs)"

lemma sent_of_simps [simp]:
  "sent_of [] = []" "sent_of (Sent bs # evs) = bs # sent_of evs" "sent_of (Arrived d # evs) = sent_of evs"
  "sent_of (Session_Complete s # evs) = sent_of evs" "sent_of (Session_Failed s r # evs) = sent_of evs"
  "sent_of (xs @ ys) = sent_of xs @ sent_of ys" "sent_of (map Sent bss) = bss"
  by (simp_all add: sent_of_def comp_def)

definition wired :: "engine_op list \<Rightarrow> bytes list" where
  "wired ops = concat (map (\<lambda>op. case op of Op_Wire bs \<Rightarrow> [bs] | _ \<Rightarrow> []) ops)"

lemma wired_simps [simp]:
  "wired [] = []" "wired (xs @ ys) = wired xs @ wired ys" "wired (map Op_Wire bss) = bss"
  "wired (map (\<lambda>d. Op_Start d r) ds) = []" "wired [Op_Timer ev] = []"
  by (simp_all add: wired_def comp_def concat_replicate_trivial)






lemma engine_inv_timers [simp]: "engine_inv (e\<lparr>timers := tm\<rparr>) = engine_inv e"
  by (simp add: engine_inv_def active_session_count_def)



section \<open>What every run keeps\<close>

text \<open>The parts of the adapter its transmit thread works on, and those of its receive thread.\<close>

definition same_tx :: "cla \<Rightarrow> cla \<Rightarrow> bool" where
  "same_tx s t \<longleftrightarrow> cla_cfg s = cla_cfg t \<and> cla.running s = cla.running t \<and> cla.tx_queue s = cla.tx_queue t
    \<and> tx_phase s = tx_phase t \<and> tx_wire s = tx_wire t"

definition same_rx :: "cla \<Rightarrow> cla \<Rightarrow> bool" where
  "same_rx s t \<longleftrightarrow> cla_cfg s = cla_cfg t \<and> cla.running s = cla.running t \<and> rx_phase s = rx_phase t
    \<and> cla.rx_buffer s = cla.rx_buffer t \<and> segments_received s = segments_received t"

lemma same_refl [simp]: "same_tx s s" "same_rx s s"
  by (simp_all add: same_tx_def same_rx_def)








lemma sent_segments_simps [simp]:
  "sent_segments (xs @ ys) = sent_segments xs @ sent_segments ys" "sent_segments (map Op_Send segs) = segs"
proof -
  show "sent_segments (xs @ ys) = sent_segments xs @ sent_segments ys"
    by (induction xs rule: sent_segments.induct) simp_all
  show "sent_segments (map Op_Send segs) = segs" by (induction segs) simp_all
qed

text \<open>The adapter of a process did what an adapter alone does when it is given the segments of the log, and
  handed to the engine what it was called with.\<close>

fun rx_events :: "node_turn list \<Rightarrow> rx_event list" where
  "rx_events [] = []"
| "rx_events (Rx_Turn ev _ # steps) = ev # rx_events steps"
| "rx_events (_ # steps) = rx_events steps"

lemma rx_events_append [simp]: "rx_events (xs @ ys) = rx_events xs @ rx_events ys"
  by (induction xs rule: rx_events.induct) simp_all


















section \<open>Hearing a stream\<close>

text \<open>What arrives from the peer, read in chunks, and a receive thread that is polling.\<close>

definition hear :: "(int \<Rightarrow> int list) list \<Rightarrow> bytes list \<Rightarrow> node_turn list" where
  "hear writes reads = map (\<lambda>c. Rx_Turn (RX_Read c) writes) reads"

definition polling :: "bytes \<Rightarrow> node \<Rightarrow> bool" where
  "polling buf n \<longleftrightarrow> cla.running (n_cla n) \<and> rx_phase (n_cla n) = RX_Polling \<and> cla.rx_buffer (n_cla n) = buf"

definition quiet :: "engine_event list \<Rightarrow> bool" where
  "quiet evs \<longleftrightarrow> (\<forall>ev \<in> set evs. \<forall>d. ev \<noteq> Arrived d)"

lemma quiet_simps [simp]: "quiet []" "quiet (ev # evs) \<longleftrightarrow> (\<forall>d. ev \<noteq> Arrived d) \<and> quiet evs"
  "quiet (xs @ ys) \<longleftrightarrow> quiet xs \<and> quiet ys" "quiet (map Sent bss)"
  by (auto simp: quiet_def)

lemma hand_over_quiet:
  "quiet evs \<Longrightarrow> hand_over n writes evs =
    Inr (n\<lparr>n_cla := (n_cla n)\<lparr>cla.tx_queue := cla.tx_queue (n_cla n) @ sent_of evs\<rparr>, n_log := n_log n @ evs\<rparr>, writes)"
proof (induction evs arbitrary: n)
  case (Cons ev evs)
  then show ?case by (cases ev) (simp_all add: cla_send_segment_def)
qed simp

text \<open>The calls of one turn, as long as the engine hands over no block.\<close>

definition heard :: "bytes list \<Rightarrow> engine \<Rightarrow> engine_event list \<Rightarrow> node \<Rightarrow> node" where
  "heard ms e evs n = n\<lparr>n_engine := e, n_cla := (n_cla n)\<lparr>cla.tx_queue := cla.tx_queue (n_cla n) @ sent_of evs\<rparr>,
     n_calls := n_calls n @ map Op_Wire ms, n_log := n_log n @ evs\<rparr>"

lemma heard_more: "heard ms' e' evs' (heard ms e evs n) = heard (ms @ ms') e' (evs @ evs') n"
  by (simp add: heard_def)

lemma feed_split:
  assumes "feed e (xs @ ys) = Inr e'" "events e' = events e @ evs"
  obtains e1 evs1 evs2 where "feed e xs = Inr e1" "feed e1 ys = Inr e'" "evs = evs1 @ evs2"
    "events e1 = events e @ evs1" "events e' = events e1 @ evs2"
proof -
  obtain e1 where e1: "feed e xs = Inr e1" "feed e1 ys = Inr e'" using assms(1) by (auto simp: feed_append rbind_eq_Inr)
  show thesis using that [OF e1] feed_log [OF e1(1)] feed_log [OF e1(2)] assms(2) by (auto simp: prefix_def)
qed

lemma engine_calls_heard:
  "feed (n_engine n) ms = Inr e \<Longrightarrow> events e = events (n_engine n) @ evs \<Longrightarrow> quiet evs \<Longrightarrow>
    engine_calls n writes (map Op_Wire ms) = Inr (heard ms e evs n)"
proof (induction ms arbitrary: n evs)
  case Nil
  then show ?case by (simp add: heard_def)
next
  case (Cons m ms)
  have "feed (n_engine n) ([m] @ ms) = Inr e" using Cons.prems(1) by simp
  from feed_split [OF this Cons.prems(2)] obtain e1 evs1 evs2 where
    s: "feed (n_engine n) [m] = Inr e1" "feed e1 ms = Inr e" "evs = evs1 @ evs2"
    "events e1 = events (n_engine n) @ evs1" "events e = events e1 @ evs2" .
  have one: "engine_call n writes (Op_Wire m) = Inr (heard [m] e1 evs1 n, writes)"
    using s(1,3,4) Cons.prems(3) by (simp add: engine_call_def rbind_eq_Inr hand_over_quiet heard_def)
  show ?case
    using Cons.IH [of "heard [m] e1 evs1 n" evs2] s Cons.prems(3) one by (simp add: heard_more) (simp add: heard_def)
qed

lemma hear_turn:
  assumes "polling buf n" "c \<noteq> []" "length c \<le> 4096" "receive_bytes buf c = Inr (ms, b)"
    and "feed (n_engine n) ms = Inr e" "events e = events (n_engine n) @ evs" "quiet evs"
  shows "\<exists>m. node_step n (Rx_Turn (RX_Read c) writes) = Inr (Some m) \<and> polling b m \<and> n_engine m = e
    \<and> cla.tx_queue (n_cla m) = cla.tx_queue (n_cla n) @ sent_of evs \<and> n_egress m = n_egress n \<and> n_main m = n_main n"
proof -
  let ?c = "(n_cla n)\<lparr>cla.rx_buffer := b, segments_received := segments_received (n_cla n) @ ms\<rparr>"
  have "rx_step (n_cla n) (RX_Read c) = Inr (Some ?c)" using assms(1-4) by (simp add: polling_def)
  then have "receive_step n (RX_Read c) writes = Inr (Some (heard ms e evs (n\<lparr>n_cla := ?c\<rparr>)))"
    using engine_calls_heard [of "n\<lparr>n_cla := ?c\<rparr>" ms e evs writes] assms(5-7)
    by (simp add: receive_step_def Let_def del: rx_step.simps)
  then show ?thesis using assms(1) by (simp add: heard_def polling_def)
qed

lemma hear_quiet:
  assumes "polling buf n" "readable cs" "receive_stream buf cs = Inr (ms, b)"
    and "feed (n_engine n) ms = Inr e" "events e = events (n_engine n) @ evs" "quiet evs"
  shows "\<exists>m. node_run n (hear writes cs) = Inr (Some m) \<and> polling b m \<and> n_engine m = e
    \<and> cla.tx_queue (n_cla m) = cla.tx_queue (n_cla n) @ sent_of evs \<and> n_egress m = n_egress n \<and> n_main m = n_main n"
  using assms
proof (induction cs arbitrary: buf n ms evs)
  case Nil
  then show ?case by (auto simp: hear_def)
next
  case (Cons c cs)
  from Cons.prems(3) obtain m1 b1 m2 where m: "receive_bytes buf c = Inr (m1, b1)" "receive_stream b1 cs = Inr (m2, b)" "ms = m1 @ m2"
    by (auto simp: rbind_eq_Inr)
  from feed_split [OF Cons.prems(4) [unfolded m(3)] Cons.prems(5)] obtain e1 evs1 evs2 where
    s: "feed (n_engine n) m1 = Inr e1" "feed e1 m2 = Inr e" "evs = evs1 @ evs2"
    "events e1 = events (n_engine n) @ evs1" "events e = events e1 @ evs2" .
  have c: "c \<noteq> []" "length c \<le> 4096" "readable cs" using Cons.prems(2) by (simp_all add: readable_def)
  obtain k where k: "node_step n (Rx_Turn (RX_Read c) writes) = Inr (Some k)" "polling b1 k" "n_engine k = e1"
    "cla.tx_queue (n_cla k) = cla.tx_queue (n_cla n) @ sent_of evs1" "n_egress k = n_egress n" "n_main k = n_main n"
    using hear_turn [OF Cons.prems(1) c(1,2) m(1) s(1,4)] Cons.prems(6) s(3) by auto
  show ?case
    using Cons.IH [OF k(2) c(3) m(2), of evs2] s k Cons.prems(6) by (auto simp: hear_def simp del: node_step.simps)
qed

text \<open>A single segment that makes the engine hand over a block.\<close>

lemma hear_block:
  assumes "polling buf n" "readable cs" "receive_stream buf cs = Inr ([bs], b)"
    and "on_wire (n_engine n) bs = Inr e" "events e = events (n_engine n) @ [Arrived d]"
    and "deliver (n_egress n) answers d = Some g"
  shows "\<exists>m. node_run n (hear [answers] cs) = Inr (Some m) \<and> n_engine m = e \<and> n_egress m = g"
  using assms
proof (induction cs arbitrary: buf n)
  case (Cons c cs)
  from Cons.prems(3) obtain m1 b1 m2 where m: "receive_bytes buf c = Inr (m1, b1)" "receive_stream b1 cs = Inr (m2, b)" "[bs] = m1 @ m2"
    by (auto simp: rbind_eq_Inr)
  have c: "c \<noteq> []" "length c \<le> 4096" "readable cs" using Cons.prems(2) by (simp_all add: readable_def)
  consider (later) "m1 = []" "m2 = [bs]" | (here) "m1 = [bs]" "m2 = []" using m(3) by (cases m1) auto
  then show ?case
  proof cases
    case later
    obtain k where "node_step n (Rx_Turn (RX_Read c) [answers]) = Inr (Some k)" "polling b1 k" "n_engine k = n_engine n"
      "n_egress k = n_egress n"
      using hear_turn [OF Cons.prems(1) c(1,2) m(1), of "n_engine n" "[]" "[answers]"] later(1) by auto
    then show ?thesis
      using Cons.IH [of b1 k] later(2) m(2) c(3) Cons.prems(4-6) by (auto simp: hear_def simp del: node_step.simps)
  next
    case here
    let ?c = "(n_cla n)\<lparr>cla.rx_buffer := b1, segments_received := segments_received (n_cla n) @ [bs]\<rparr>"
    let ?n = "n\<lparr>n_cla := ?c, n_engine := e, n_calls := n_calls n @ [Op_Wire bs], n_log := n_log n @ [Arrived d], n_egress := g\<rparr>"
    have "rx_step (n_cla n) (RX_Read c) = Inr (Some ?c)" using Cons.prems(1) c m(1) here(1) by (simp add: polling_def)
    then have step: "node_step n (Rx_Turn (RX_Read c) [answers]) = Inr (Some ?n)"
      using Cons.prems(4-6) by (simp add: receive_step_def Let_def engine_call_def del: rx_step.simps)
    have "polling b1 ?n" using Cons.prems(1) by (simp add: polling_def)
    then obtain k where "node_run ?n (hear [answers] cs) = Inr (Some k)" "n_engine k = e" "n_egress k = g"
      using hear_quiet [of b1 ?n cs "[]" b e "[]" "[answers]"] c(3) m(2) here(2) by auto
    then show ?thesis using step by (simp add: hear_def del: node_step.simps)
  qed
qed (simp add: hear_def)

section \<open>A block from a client\<close>

text \<open>The read of a client that completes the message with the block \<open>d\<close>.\<close>

definition completing :: "int \<Rightarrow> bytes \<Rightarrow> int \<Rightarrow> client_event" where
  "completing fd chunk = (\<lambda>_. Quiet)(fd := Bytes_Read chunk)"

lemma quiet_clients: "fd \<notin> set fds \<Longrightarrow> ingress_clients_loop i (completing fd chunk) fds = Inr i"
  by (induction fds) (simp_all add: completing_def ingress_client_def)

lemma completed_block:
  assumes "ingress_running i" "fd \<in> set (ingress_clients i)" "distinct (ingress_clients i)"
    and "ingress_buffers i fd = Some buf" "buf @ chunk = frame_message d" "framable d"
  shows "\<exists>j. ingress_turn i Poll_Ready None (completing fd chunk) = Inr (j, True) \<and> ingress_data j = ingress_data i @ [(fd, d)]"
proof -
  obtain xs ys where c: "ingress_clients i = xs @ fd # ys" "fd \<notin> set xs" "fd \<notin> set ys"
    using assms(2,3) by (metis distinct.simps(2) distinct_append not_distinct_conv_prefix split_list_first)
  have app: "ingress_clients_loop i evs (us @ vs) = rbind (ingress_clients_loop i evs us) (\<lambda>t. ingress_clients_loop t evs vs)"
    for i evs us vs
  proof (induction us arbitrary: i)
    case (Cons u us)
    then show ?case by (cases "ingress_client i u (evs u)") simp_all
  qed simp
  have r: "receive_bytes buf chunk = Inr ([d], [])"
    using extract_all_frames [of "[d]"] assms(5,6) by (simp add: receive_bytes_def)
  show ?thesis
    using assms(1,4) r
    by (simp add: ingress_turn_def ingress_iter_def c app quiet_clients ingress_client_def completing_def [of fd chunk, THEN fun_cong, of fd])
qed

lemma ingress_starts:
  assumes "n_ingress_alive n" "ingress_running (n_ingress n)" "n_reliable n"
    and "fd \<in> set (ingress_clients (n_ingress n))" "distinct (ingress_clients (n_ingress n))"
    and "ingress_buffers (n_ingress n) fd = Some buf" "buf @ chunk = frame_message d" "framable d"
    and "start_session (n_engine n) d True = Inr (sn, e)" "events e = events (n_engine n) @ map Sent w"
  shows "\<exists>m. node_step n (Ingress_Turn Poll_Ready None (completing fd chunk) writes) = Inr (Some m)
    \<and> n_engine m = e \<and> n_cla m = (n_cla n)\<lparr>cla.tx_queue := cla.tx_queue (n_cla n) @ w\<rparr> \<and> n_log m = n_log n @ map Sent w"
proof -
  obtain i where "ingress_turn (n_ingress n) Poll_Ready None (completing fd chunk) = Inr (i, True)"
    "ingress_data i = ingress_data (n_ingress n) @ [(fd, d)]"
    using completed_block [OF assms(2,4-8)] by blast
  then show ?thesis
    using assms(1,3,9,10) by (simp add: ingress_step_def engine_call_def hand_over_quiet)
qed

section \<open>A sample process\<close>

text \<open>A process with the default configuration whose adapter has connected to its peer and whose ingress
  server has accepted one client.\<close>

definition listens :: listen_answers where
  "listens = \<lparr>socket_result = 3, address_valid = True, bind_result = 0, listen_result = 0, bound_port = None\<rparr>"


definition sample_node :: node where
  "sample_node = (let n = new_node cla_defaults listens listens in
     n\<lparr>n_cla := (n_cla n)\<lparr>rx_connected := True, rx_phase := RX_Polling\<rparr>, n_ingress := ingress_accept (n_ingress n) 5\<rparr>)"

lemmas sample_node_defs = sample_node_def new_node_def ingress_start_def new_ingress_def open_listener_def listens_def
  cla_start_def new_cla_def egress_start_def new_egress_def ingress_accept_def cla_defaults_def default_ingress_config_def
  default_egress_config_def wired_engine_def new_engine_def default_engine_config_def default_cla_config_def


lemma sample_node_ready:
  "n_ingress_alive sample_node" "ingress_running (n_ingress sample_node)" "n_reliable sample_node"
  "ingress_clients (n_ingress sample_node) = [5]" "ingress_buffers (n_ingress sample_node) 5 = Some []"
  "polling [] sample_node" "sessions (n_engine sample_node) = fmempty" "active_session_count (n_engine sample_node) = 0"
  "max_concurrent_sessions (config (n_engine sample_node)) = 100" "local_engine_id (config (n_engine sample_node)) = 1"
  "session_counter (n_engine sample_node) = 0" "max_segment_size (config (n_engine sample_node)) = 1400"
  "on_send_segment (n_engine sample_node)" "on_session_complete (n_engine sample_node)" "on_data_arrival (n_engine sample_node)"
  "has_room (1, 1) (n_engine sample_node)" "events (n_engine sample_node) = []" "n_log sample_node = []" "n_calls sample_node = []"
  "n_main sample_node = Serving"
  by (simp_all add: sample_node_defs Let_def polling_def active_session_count_def has_room_def fcard_fempty)

section \<open>Properties\<close>

text \<open>C2. A block crosses the whole system: when a client of the first process completes a framed block,
  its engine segments it and queues the segments; however the network cuts the three streams that follow
  into reads, the second process answers the segments with one report, the first one answers the report with an
  acknowledgment and closes the session, and on the acknowledgment the second process hands exactly
  that block to its egress server, whose clients are written to, and closes.\<close>

theorem node_transfer:
  assumes client: "n_ingress_alive a" "ingress_running (n_ingress a)" "n_reliable a"
      "fd \<in> set (ingress_clients (n_ingress a))" "distinct (ingress_clients (n_ingress a))"
      "ingress_buffers (n_ingress a) fd = Some buf" "buf @ chunk = frame_message d" "length d < 2 ^ 32 - 104"
    and a: "polling [] a" "fmlookup (sessions (n_engine a)) k = None"
      "active_session_count (n_engine a) < unat (max_concurrent_sessions (config (n_engine a)))"
      "k = (local_engine_id (config (n_engine a)), session_counter (n_engine a) + 1)"
      "max_segment_size (config (n_engine a)) \<noteq> 0" "on_send_segment (n_engine a)" "on_session_complete (n_engine a)"
    and b: "polling [] b" "has_room k (n_engine b)" "on_send_segment (n_engine b)" "on_data_arrival (n_engine b)"
    and written: "deliver (n_egress b) answers d = Some g"
    and cuts: "\<And>stream. concat (cut1 stream) = stream \<and> readable (cut1 stream)"
      "\<And>stream. concat (cut2 stream) = stream \<and> readable (cut2 stream)"
      "\<And>stream. concat (cut3 stream) = stream \<and> readable (cut3 stream)"
  shows "\<exists>a1 w b1 rpt a2 ack b2.
      node_step a (Ingress_Turn Poll_Ready None (completing fd chunk) []) = Inr (Some a1)
    \<and> cla.tx_queue (n_cla a1) = cla.tx_queue (n_cla a) @ w
    \<and> node_run b (hear [] (cut1 (frames w))) = Inr (Some b1)
    \<and> cla.tx_queue (n_cla b1) = cla.tx_queue (n_cla b) @ [rpt]
    \<and> node_run a1 (hear [] (cut2 (frames [rpt]))) = Inr (Some a2)
    \<and> cla.tx_queue (n_cla a2) = cla.tx_queue (n_cla a1) @ [ack]
    \<and> fmlookup (sessions (n_engine a2)) k = None
    \<and> node_run b1 (hear [answers] (cut3 (frames [ack]))) = Inr (Some b2)
    \<and> n_egress b2 = g \<and> fmlookup (sessions (n_engine b2)) k = None"
proof -
  have fd: "framable d" and len: "length d < 2 ^ 59" using client(8) by (simp_all add: framable_def)
  obtain ea w eb rpt ea2 ack eb2 where t: "start_session (n_engine a) d True = Inr (snd k, ea)"
    "events ea = events (n_engine a) @ map Sent w" "feed (n_engine b) w = Inr eb" "events eb = events (n_engine b) @ [Sent rpt]"
    "on_wire ea rpt = Inr ea2" "events ea2 = events ea @ [Sent ack, Session_Complete (snd k)]" "fmlookup (sessions ea2) k = None"
    "on_wire eb ack = Inr eb2" "events eb2 = events eb @ [Arrived d]" "fmlookup (sessions eb2) k = None"
    "\<forall>bs \<in> set (w @ [rpt, ack]). length bs \<le> 100 + length d"
    using transfer_run [OF a(2-7) b(2-4) len] by (elim exE conjE) rule
  have ok: "\<forall>bs \<in> set (w @ [rpt, ack]). framable bs" using t(11) client(8) by (fastforce simp: framable_def)
  have stream: "receive_stream [] cs = Inr (ms, [])" if "concat cs = frames ms" "\<forall>m \<in> set ms. framable m" for cs ms
    using receive_prefix [OF that(2), of cs] that(1) by auto
  obtain a1 where a1: "node_step a (Ingress_Turn Poll_Ready None (completing fd chunk) []) = Inr (Some a1)" "n_engine a1 = ea"
    "n_cla a1 = (n_cla a)\<lparr>cla.tx_queue := cla.tx_queue (n_cla a) @ w\<rparr>"
    using ingress_starts [OF client(1-7) fd t(1,2)] by blast
  have pa: "polling [] a1" using a(1) a1(3) by (simp add: polling_def)
  obtain b1 where b1: "node_run b (hear [] (cut1 (frames w))) = Inr (Some b1)" "polling [] b1" "n_engine b1 = eb"
    "cla.tx_queue (n_cla b1) = cla.tx_queue (n_cla b) @ [rpt]" "n_egress b1 = n_egress b"
    using hear_quiet [OF b(1) conjunct2 [OF cuts(1)] stream [OF conjunct1 [OF cuts(1)]] t(3,4), of "[]"] ok by auto
  obtain a2 where a2: "node_run a1 (hear [] (cut2 (frames [rpt]))) = Inr (Some a2)" "n_engine a2 = ea2"
    "cla.tx_queue (n_cla a2) = cla.tx_queue (n_cla a1) @ [ack]"
    using hear_quiet [OF pa conjunct2 [OF cuts(2)] stream [OF conjunct1 [OF cuts(2)]], of "[rpt]" ea2 _ "[]"] ok t(5,6) a1(2)
    by auto
  obtain b2 where b2: "node_run b1 (hear [answers] (cut3 (frames [ack]))) = Inr (Some b2)" "n_engine b2 = eb2" "n_egress b2 = g"
    using hear_block [OF b1(2) conjunct2 [OF cuts(3)] stream [OF conjunct1 [OF cuts(3)]], of ack eb2 d answers g]
      ok t(8,9) b1(3,5) written by auto
  show ?thesis using a1 b1 a2 b2 t(7,10) by (intro exI conjI) auto
qed



theorem node_transfer_witness:
  "\<exists>a1 w b1 rpt a2 ack b2.
      node_step sample_node (Ingress_Turn Poll_Ready None (completing 5 (frame_message [1, 2, 3])) []) = Inr (Some a1)
    \<and> node_run sample_node (hear [] (map (\<lambda>x. [x]) (frames w))) = Inr (Some b1)
    \<and> node_run a1 (hear [] (map (\<lambda>x. [x]) (frames [rpt]))) = Inr (Some a2)
    \<and> node_run b1 (hear [\<lambda>_. []] (map (\<lambda>x. [x]) (frames [ack]))) = Inr (Some b2)
    \<and> egress_buffer (n_egress b2) = [frame_message [1, 2, 3]]"
proof -
  let ?d = "[1, 2, 3] :: bytes" and ?cut = "map (\<lambda>x. [x]) :: bytes \<Rightarrow> bytes list"
  obtain g where g: "deliver (n_egress sample_node) (\<lambda>_. []) ?d = Some g" "egress_buffer g = [frame_message ?d]"
    by (simp add: sample_node_defs Let_def deliver_def)
  have cut: "concat (?cut stream) = stream \<and> readable (?cut stream)" for stream
    by (induction stream) (auto simp: readable_def)
  note r = sample_node_ready
  show ?thesis
    using node_transfer [where a = sample_node and b = sample_node and fd = 5 and buf = "[]" and chunk = "frame_message ?d" and d = ?d
        and k = "(1, 1)" and g = g and answers = "\<lambda>_. []" and ?cut1.0 = ?cut and ?cut2.0 = ?cut and ?cut3.0 = ?cut,
        OF r(1-3) _ _ r(5) _ _ r(6) _ _ _ _ r(13,14) r(6,16,13,15) g(1) cut cut cut] g(2)
    by (simp only: r) fastforce
qed






end
