(* ===== verification/Spec2Isabelle.thy ===== *)
theory Spec2Isabelle
  imports Sdnv Segment Tracker Timers Engine Segmentation Engine_Inv Engine_Safety Delivery Engine_Faults
    Crc Bits Frame Fec Viterbi Fec_Correct Spsc
    Text Ieee Symbols Modem_Config Modem Link
    Tcp_Input Tcp_Output Udp Radio Modem_Threads
    Json Modem_Json Modem_Process Arith Dsp Exact Pipeline Phase Modem_Main
    Framing Listener Cla Ingress Egress Cla_Config Cla_Json Engine_Log Node
begin

text \<open>
  A verification library for the two programs of this repository, the QPSK modem for the B200 radio
  (\<^verbatim>\<open>src/main.cpp\<close> and the files beside it, headers in \<^verbatim>\<open>include/qpsk_b200\<close>)
  and the convergence layer adapter for the Licklider Transmission Protocol
  (\<^verbatim>\<open>src/ltp_cla\<close>, headers in \<^verbatim>\<open>include/ltp_cla\<close>).

  \<^bold>\<open>The programs.\<close> A client of the LTP process sends length-prefixed blocks to the TCP ingress
  server; the engine splits a block into segments, sends them, retransmits what reports and timers call
  for, reassembles the blocks of its peer and hands them to the TCP egress server. The adapter carries
  encoded segments over two TCP connections, to and from a modem. The modem cuts the bytes of its
  TCP or UDP input into payloads, puts each into a frame with a checksum, codes, maps and shapes it and sends
  the burst; its receiver collects samples, recovers the symbols, finds the preamble, undoes the phase
  ambiguity, decodes and checks the frame and gives the payload to all clients of its output server.

  \<^bold>\<open>Conventions.\<close> A struct or class is a record with the source's field names, an enum or a variant
  a datatype, a function or method a definition with its name; an object's state is passed and returned.
  \<open>u8\<close> to \<open>u64\<close> are machine words that wrap as the code's do; \<open>int\<close> expressions that can
  overflow give \<open>Undefined_Behaviour\<close>. A C++ operation that can fail returns
  \<open>'a res\<close>, which is \<open>cxx_error + 'a\<close>: every exception that can be thrown, undefined behaviour and
  \<open>Diverges\<close>, a call that never returns, are values of it. Where a number from the wire sizes
  a container, more than \<open>max_size\<close> gives \<open>Length_Error\<close> and from \<open>ALLOC_LIMIT\<close> on, \<open>2^62\<close> bytes, which no
  address space of today has, \<open>Bad_Alloc\<close>; smaller requests are taken to succeed, although a machine
  may refuse them earlier in the same way. Loops that may not end are
  \<open>partial_function (option)\<close>, where \<open>None\<close> is not returning; all others are total functions. What
  sockets, the clock, the radio's driver and the scheduler do is an input of each step, so a theorem over all
  inputs holds whatever they do. What goes out (segments handed to a callback, bytes the kernel took,
  samples the driver took) is kept as a ghost list.

  \<^bold>\<open>LTP, data.\<close> \<open>Sdnv\<close> (sdnv.cpp), \<open>Segment\<close> (ltp_segment.h, ltp_segment.cpp) and
  \<open>Tracker\<close> (reception_tracker.cpp): encoders, decoders and the range list. Decoding inverts encoding on
  every well-formed segment, for buffers below \<open>2^63\<close> bytes; every byte string has one of five outcomes;
  the tracker's list is the canonical form of the set of bytes added. \<open>Codec\<close> is the locale of readers
  that invert an encoder, interpreted on the codecs of \<open>Sdnv\<close> and \<open>Segment\<close>.

  \<^bold>\<open>LTP, engine.\<close> \<open>Engine\<close> has one definition per method of \<open>LtpEngine\<close> (ltp_engine.cpp),
  handlers of every segment type and of timer expiry included. \<open>Segmentation\<close> shows what its two chunk
  loops produce and that the gaps it computes are the missing bytes. \<open>Engine_Inv\<close> and \<open>Engine_Safety\<close>
  hold for all sequences of operations with any arguments, hostile segments included: the bound and the keys of the session
  table, the accounting of the diagnostics, the failures that are possible, the limit of retransmission.
  \<open>Delivery\<close> shows reassembly in any order, the loss-free transfer and the repair of a lossy one, for
  blocks below \<open>2^59\<close> and \<open>2^58\<close> bytes, so that no offset and no encoded length wraps.
  \<open>Engine_Log\<close> shows that what is handed out is only added to. \<open>Engine_Faults\<close> has the segments on which the
  code fails or is misled; all but the last of its theorems hold for every engine in the state they describe. \<open>Timers\<close> (timer_manager.cpp) is a labelled step relation over the mutex's critical sections:
  no timer fires twice, early or after it was cancelled, and the thread handles all that are due.

  \<^bold>\<open>LTP, process.\<close> \<open>Framing\<close> (the length prefix, shared by adapter and ingress),
  \<open>Cla\<close> (convergence_layer_adapter.cpp: both threads, reconnection, start and stop),
  \<open>Listener\<close>, \<open>Ingress\<close> and \<open>Egress\<close> (tcp_ingress.cpp, tcp_egress.cpp),
  \<open>Cla_Config\<close> and \<open>Cla_Json\<close> (config.cpp). \<open>Node\<close> is \<open>main\<close> of ltp_cla/main.cpp: the components
  wired together, a turn of any thread as a step, and the shutdown. Its theorems join the parts: for all
  runs of two processes, whatever their sockets do, the engine of one is called with exactly the segments of the other whose
  frames arrived whole; and a block of a client of one reaches the egress server of the other. The link between
  the adapters is a hypothesis (\<open>carried\<close> in \<open>Cla\<close>): it may join connections into one stream and break
  off anywhere, but a connection followed by another on the same stream has to end between two frames.
  The modems between the adapters do not see to that, and \<open>resend_desynchronises\<close> shows what happens
  then. Messages are below \<open>2^32 - 4\<close> bytes there, since longer length prefixes wrap in the code; with the header of a segment, at most 100 bytes, blocks are below \<open>2^32 - 104\<close>.

  \<^bold>\<open>Modem, bits and frames.\<close> \<open>Bits\<close>, \<open>Crc\<close> and \<open>Frame\<close> (frame_builder.cpp,
  frame_parser.cpp, frame.h): the parser inverts the builder, and no frame with an error burst of up to 20 bits or a
  damaged checksum is accepted. \<open>Fec\<close>, \<open>Viterbi\<close> and \<open>Fec_Correct\<close> (fec_encoder.cpp, fec_decoder.cpp): the
  decoder is maximum-likelihood as long as no path metric reaches the code's infinity, that is below
  \<open>0xFFFFFF\<close> coded bits. \<open>Ieee\<close> and \<open>Symbols\<close> (symbol_mapper.cpp): floating-point
  values as far as they are copied and compared, and the quadrants of QPSK.

  \<^bold>\<open>Modem, signal processing.\<close> \<open>Modem\<close> (encoder.cpp, decoder.cpp) has encoder and decoder with the search and the phase correction as
  arguments, \<open>Link\<close> the delivery from payload to payload. \<open>Arith\<close> is floating-point
  arithmetic as a record of operations; over it \<open>Dsp\<close> has pulse_shaper.cpp, carrier_sync.cpp, timing_recovery.cpp
  and frame_sync.cpp, and \<open>Pipeline\<close> the constructed transmitter and receiver and the receive thread with that
  receiver, in which timing recovery may have undefined behaviour or not end. \<open>Phase\<close> shows for every arithmetic that is exact on integers up to
  \<open>2^24\<close> (as single precision is) and on products with a unit that the four-fold phase ambiguity is resolved, for preamble
  codes of at most \<open>2^23\<close> elements. \<open>Exact\<close> is an arithmetic of rationals; examples compute with it and no theorem
  rests on it.

  \<^bold>\<open>Modem, threads and sockets.\<close> \<open>Spsc\<close> (spsc_queue.h) has the queue as a sequential object, through
  the locale of bounded queues, and as the interleaved loads and stores of two threads. \<open>Tcp_Input\<close>,
  \<open>Tcp_Output\<close> and \<open>Udp\<close> are the servers and their threads, \<open>Radio\<close> is b200_interface.cpp in
  both builds, with the calls a driver may refuse, \<open>Modem_Threads\<close> the transmit and the receive thread, the latter
  over any decoder, which may fail: the receive buffer stays below
  278528 samples and an attempt below 282624, from the constants 262144, 16384 and 4096 of the code.
  \<open>Text\<close>, \<open>Modem_Config\<close>, \<open>Json\<close> and \<open>Modem_Json\<close> are numbers as text, the options and the
  configuration files; \<open>Modem_Main\<close> the start of the process and \<open>Modem_Process\<close> its run in TCP mode
  to the return of \<open>main\<close>: clients to antenna and radio to clients across the shared queues.

  \<^bold>\<open>Interfaces.\<close> \<open>Codec\<close>: readers and codecs, interpreted on SDNVs, segments' extensions and claims.
  \<open>Spsc\<close>: bounded first-in first-out queues, interpreted on the ring buffer; the threads that share
  a queue use only its laws. \<open>Tracker\<close>: sets of bytes and their canonical lists, interpreted on the reception
  tracker. The laws of the JSON library and of exact arithmetic are predicates on a record of
  operations (\<open>json_ok\<close>, \<open>exact_on_units\<close>), because they are hypotheses on code that is not here;
  their witnesses give concrete instances.

  \<^bold>\<open>Not modelled.\<close> Logging and the text of usage messages, which change no state; the
  driver of the radio, the JSON library, \<open>stod\<close> and the rounding of floating-point operations, which are parameters;
  the schedule inside a call of the engine: its methods are called from three threads without a lock, so \<open>Node\<close>
  describes the runs in which calls do not overlap; lengths of containers are natural numbers, and
  memory running out is a case only where the wire gives the size. The comparison
  operators of the configurations are equality of records. The composition of the modem's threads over UDP
  is left out; its socket and thread rounds are in \<open>Udp\<close>. Destructors repeat \<open>stop\<close>, which is modelled.
\<close>

end
